(* ===== verification/Guest_Memory.thy ===== *)
theory Guest_Memory
  imports Hv_Prelude
begin

text \<open>
  A region of host memory that the code reaches through a \<^verbatim>\<open>char *\<close>: guest RAM and the
  \<^verbatim>\<open>kvm_run\<close> mapping. A region is a function from byte offset to byte; the size that
  bounds it is kept by its owner, and every operation of the components states the range
  it touches. The locale \<open>word_memory\<close> is the interface by which the components read and
  write whole words; it is interpreted for the 32-bit and 64-bit accesses of the code.
\<close>

type_synonym memory = "nat \<Rightarrow> u8"

definition load_bytes :: "memory \<Rightarrow> nat \<Rightarrow> nat \<Rightarrow> u8 list" where
  "load_bytes m a n = map (\<lambda>i. m (a + i)) [0..<n]"

definition store_bytes :: "memory \<Rightarrow> nat \<Rightarrow> u8 list \<Rightarrow> memory" where
  "store_bytes m a bs = (\<lambda>x. if a \<le> x \<and> x < a + length bs then bs ! (x - a) else m x)"

lemma length_load_bytes [simp]: "length (load_bytes m a n) = n"
  by (simp add: load_bytes_def)

lemma nth_load_bytes [simp]: "i < n \<Longrightarrow> load_bytes m a n ! i = m (a + i)"
  by (simp add: load_bytes_def)

lemma load_store_bytes [simp]: "n = length bs \<Longrightarrow> load_bytes (store_bytes m a bs) a n = bs"
  by (rule nth_equalityI) (auto simp: store_bytes_def)

lemma load_store_disjoint:
  "a + length bs \<le> b \<or> b + n \<le> a \<Longrightarrow> load_bytes (store_bytes m a bs) b n = load_bytes m b n"
  by (rule nth_equalityI) (auto simp: store_bytes_def)

lemma store_bytes_outside [simp]:
  "x < a \<or> a + length bs \<le> x \<Longrightarrow> store_bytes m a bs x = m x"
  by (auto simp: store_bytes_def)

lemma store_bytes_Nil [simp]: "store_bytes m a [] = m"
  by (rule ext) (auto simp: store_bytes_def)

lemma load_bytes_cong: "(\<And>i. i < n \<Longrightarrow> m (a + i) = m' (a + i)) \<Longrightarrow> load_bytes m a n = load_bytes m' a n"
  by (simp add: load_bytes_def)

lemma load_bytes_append: "load_bytes m a (n + k) = load_bytes m a n @ load_bytes m (a + n) k"
  by (rule nth_equalityI) (auto simp: nth_append)

text \<open>\<^verbatim>\<open>memcpy\<close> of an integer: the machine is little-endian (x86-64).\<close>

definition load32 :: "memory \<Rightarrow> nat \<Rightarrow> u32" where
  "load32 m a = le_word (load_bytes m a 4)"

definition store32 :: "memory \<Rightarrow> nat \<Rightarrow> u32 \<Rightarrow> memory" where
  "store32 m a w = store_bytes m a (le_bytes 4 w)"

definition load64 :: "memory \<Rightarrow> nat \<Rightarrow> u64" where
  "load64 m a = le_word (load_bytes m a 8)"

definition store64 :: "memory \<Rightarrow> nat \<Rightarrow> u64 \<Rightarrow> memory" where
  "store64 m a w = store_bytes m a (le_bytes 8 w)"

text \<open>A sequence of stores, in order.\<close>

definition store_all :: "(memory \<Rightarrow> nat \<Rightarrow> 'w \<Rightarrow> memory) \<Rightarrow> (nat \<times> 'w) list \<Rightarrow> memory \<Rightarrow> memory" where
  "store_all st ws m = fold (\<lambda>(a, v) m. st m a v) ws m"

lemma store_all_Nil [simp]: "store_all st [] m = m"
  by (simp add: store_all_def)

lemma store_all_Cons [simp]: "store_all st ((a, v) # ws) m = store_all st ws (st m a v)"
  by (simp add: store_all_def)

lemma store_all_append: "store_all st (xs @ ys) m = store_all st ys (store_all st xs m)"
  by (simp add: store_all_def)

lemma fold_store_all:
  "fold (\<lambda>i m. st m (f i) (g i)) is m = store_all st (map (\<lambda>i. (f i, g i)) is) m"
  by (induction "is" arbitrary: m) auto

lemma fold_store_all_nested:
  assumes "\<And>i m. body i m = store_all st (ws i) m"
  shows "fold body is m = store_all st (concat (map ws is)) m"
  by (induction "is" arbitrary: m) (auto simp: assms store_all_append)

subsection \<open>The interface of word accesses\<close>

locale word_memory =
  fixes width :: nat
    and ld :: "memory \<Rightarrow> nat \<Rightarrow> 'w"
    and st :: "memory \<Rightarrow> nat \<Rightarrow> 'w \<Rightarrow> memory"
  assumes width_pos: "0 < width"
    and ld_st_same: "ld (st m a v) a = v"
    and ld_st_other: "a + width \<le> b \<or> b + width \<le> a \<Longrightarrow> ld (st m a v) b = ld m b"
    and st_outside: "x < a \<or> a + width \<le> x \<Longrightarrow> st m a v x = m x"
    and ld_cong: "(\<And>x. a \<le> x \<Longrightarrow> x < a + width \<Longrightarrow> m x = m' x) \<Longrightarrow> ld m a = ld m' a"
begin

lemma aligned_disjoint:
  assumes "width dvd a" and "width dvd b" and "a \<noteq> b"
  shows "a + width \<le> b \<or> b + width \<le> a"
proof -
  from assms obtain i j where ij: "a = width * i" "b = width * j" by (auto elim!: dvdE)
  with assms(3) have "Suc i \<le> j \<or> Suc j \<le> i" by auto
  then show ?thesis
    using mult_le_mono2 [of "Suc i" j width] mult_le_mono2 [of "Suc j" i width] by (auto simp: ij)
qed

lemma ld_st:
  assumes "width dvd a" and "width dvd b"
  shows "ld (st m a v) b = (if a = b then v else ld m b)"
  using aligned_disjoint [OF assms] by (auto simp: ld_st_same ld_st_other)

lemma ld_store_all:
  assumes "\<forall>(a, v)\<in>set ws. width dvd a" and "width dvd b"
  shows "ld (store_all st ws m) b = (case map_of (rev ws) b of None \<Rightarrow> ld m b | Some v \<Rightarrow> v)"
  using assms(1)
proof (induction ws arbitrary: m)
  case Nil
  then show ?case by simp
next
  case (Cons w ws)
  obtain a v where w: "w = (a, v)" by (cases w)
  with Cons show ?case
    by (auto simp: ld_st [OF _ assms(2)] map_add_def split: option.splits)
qed

lemma ld_store_all_in:
  assumes "\<forall>(a, v)\<in>set ws. width dvd a" and "(b, v) \<in> set ws"
    and "\<And>v'. (b, v') \<in> set ws \<Longrightarrow> v' = v"
  shows "ld (store_all st ws m) b = v"
proof -
  have "width dvd b" using assms(1,2) by auto
  moreover have "map_of (rev ws) b = Some v"
  proof (cases "map_of (rev ws) b")
    case None
    then show ?thesis using assms(2) by (force simp: map_of_eq_None_iff)
  next
    case (Some v')
    then show ?thesis using assms(3) [of v'] by (auto dest: map_of_SomeD)
  qed
  ultimately show ?thesis by (simp add: ld_store_all [OF assms(1)])
qed

lemma ld_store_all_notin:
  assumes "\<forall>(a, v)\<in>set ws. width dvd a" and "width dvd b" and "b \<notin> fst ` set ws"
  shows "ld (store_all st ws m) b = ld m b"
proof -
  have "map_of (rev ws) b = None"
    using assms(3) by (simp add: map_of_eq_None_iff)
  then show ?thesis by (simp add: ld_store_all [OF assms(1,2)])
qed

lemma store_all_outside:
  "\<forall>(a, v)\<in>set ws. x < a \<or> a + width \<le> x \<Longrightarrow> store_all st ws m x = m x"
proof (induction ws arbitrary: m)
  case (Cons w ws)
  then show ?case by (cases w) (auto simp: st_outside)
qed simp

end

interpretation mem32: word_memory 4 load32 store32
  by unfold_locales
    (auto simp: load32_def store32_def load_store_disjoint intro!: arg_cong [where f = le_word] load_bytes_cong)

interpretation mem64: word_memory 8 load64 store64
  by unfold_locales
    (auto simp: load64_def store64_def load_store_disjoint intro!: arg_cong [where f = le_word] load_bytes_cong)

end
