(* ===== verification/Kvm_Vm.thy ===== *)
theory Kvm_Vm
  imports Guest_Memory "HOL-Library.Multiset"
begin

text \<open>
  \<^verbatim>\<open>host/src/vm.c\<close> and \<^verbatim>\<open>host/inc/vm.h\<close>: the life cycle of one KVM virtual machine, the
  page tables and control registers of long mode, loading the guest image and injecting an
  interrupt. The answers of the kernel (\<^verbatim>\<open>open\<close>, \<^verbatim>\<open>ioctl\<close>, \<^verbatim>\<open>mmap\<close>) are parameters. The two
  enumerations of \<^verbatim>\<open><linux/kvm.h>\<close> that the code switches on are datatypes with its names.
\<close>

subsection \<open>The kernel's run area and the virtual machine\<close>

datatype io_direction = KVM_EXIT_IO_IN | KVM_EXIT_IO_OUT | Direction_Other

datatype exit_reason =
    KVM_EXIT_IO | KVM_EXIT_IRQ_WINDOW_OPEN | KVM_EXIT_HLT | KVM_EXIT_SHUTDOWN | Exit_Other nat

record kvm_io =
  io_direction :: io_direction
  io_size :: u8
  io_port :: u16
  io_count :: u32
  io_data_offset :: u64

text \<open>
  The mapping shared with the kernel. \<open>run_data\<close> are its bytes, by offset; the kernel keeps
  the I/O data in a page of its own, away from the structure's fields.
\<close>

record kvm_run =
  exit_reason :: exit_reason
  io :: kvm_io
  request_interrupt_window :: bool
  run_data :: memory

record vm =
  kvm_fd :: int
  vm_fd :: int
  vcpu_fd :: int
  mem_mapped :: bool        \<comment> \<open>\<open>mem\<close> is neither null nor \<open>MAP_FAILED\<close>\<close>
  mem :: memory
  mem_size :: nat
  run_mapped :: bool        \<comment> \<open>\<open>run\<close> is neither null nor \<open>MAP_FAILED\<close>\<close>
  run :: kvm_run
  run_mmap_size :: int
  injected :: "u32 list"    \<comment> \<open>the vectors the kernel has accepted for the processor, in order\<close>

definition GUEST_START_ADDR :: nat where "GUEST_START_ADDR = 0x8000"
definition PAGE_SIZE_4K :: nat where "PAGE_SIZE_4K = 4 * 1024"
definition PAGE_SIZE_2M :: nat where "PAGE_SIZE_2M = 2 * 1024 * 1024"
definition PAGE_TABLE_ENTRIES :: nat where "PAGE_TABLE_ENTRIES = 512"
definition IRQ_NUM :: u32 where "IRQ_NUM = 32"
definition IRQ_COUNT :: int where "IRQ_COUNT = 2"
definition PDE64_PRESENT :: u64 where "PDE64_PRESENT = push_bit 0 1"
definition PDE64_RW :: u64 where "PDE64_RW = push_bit 1 1"
definition PDE64_USER :: u64 where "PDE64_USER = push_bit 2 1"
definition PDE64_PS :: u64 where "PDE64_PS = push_bit 7 1"
definition CR0_PE :: u64 where "CR0_PE = push_bit 0 1"
definition CR0_PG :: u64 where "CR0_PG = push_bit 31 1"
definition CR4_PAE :: u64 where "CR4_PAE = push_bit 5 1"
definition EFER_LME :: u64 where "EFER_LME = push_bit 8 1"
definition EFER_LMA :: u64 where "EFER_LMA = push_bit 10 1"

lemmas vm_consts [hv_consts] =
  GUEST_START_ADDR_def PAGE_SIZE_4K_def PAGE_SIZE_2M_def PAGE_TABLE_ENTRIES_def
  IRQ_NUM_def IRQ_COUNT_def PDE64_PRESENT_def PDE64_RW_def PDE64_USER_def PDE64_PS_def
  CR0_PE_def CR0_PG_def CR4_PAE_def EFER_LME_def EFER_LMA_def

subsection \<open>Creating and destroying\<close>

text \<open>What the kernel answers to each call of \<open>vm_init\<close>; \<open>None\<close> is \<open>MAP_FAILED\<close>.\<close>

record kvm_kernel =
  k_open :: int
  k_api_version :: int
  k_expected_api :: int       \<comment> \<open>\<open>KVM_API_VERSION\<close> of the headers\<close>
  k_create_vm :: int
  k_mmap_mem :: "memory option"
  k_set_memory_region :: int
  k_create_vcpu :: int
  k_vcpu_mmap_size :: int
  k_mmap_run :: "kvm_run option"

text \<open>What the process holds: a descriptor, a mapping with its length, or an open stream of the
  C library (\<^verbatim>\<open>FILE\<close>).\<close>

datatype resource = Fd int | Mem_Map nat | Run_Map int | Stream

definition zero_run :: kvm_run where
  "zero_run = \<lparr>exit_reason = Exit_Other 0,
     io = \<lparr>io_direction = KVM_EXIT_IO_IN, io_size = 0, io_port = 0, io_count = 0, io_data_offset = 0\<rparr>,
     request_interrupt_window = False, run_data = (\<lambda>_. 0)\<rparr>"

text \<open>The result is the return code, the structure and the resources acquired, in order.\<close>

definition vm_init :: "kvm_kernel \<Rightarrow> nat \<Rightarrow> int \<times> vm \<times> resource list" where
  "vm_init k msize =
     (let v = \<lparr>kvm_fd = -1, vm_fd = -1, vcpu_fd = -1, mem_mapped = False, mem = (\<lambda>_. 0),
               mem_size = msize, run_mapped = False, run = zero_run, run_mmap_size = 0, injected = []\<rparr>;
          v = v\<lparr>kvm_fd := k_open k\<rparr>
      in if kvm_fd v < 0 then (-1, v, []) else
      let acq = [Fd (kvm_fd v)]
      in if k_api_version k \<noteq> k_expected_api k then (-1, v, acq) else
      let v = v\<lparr>vm_fd := k_create_vm k\<rparr>
      in if vm_fd v < 0 then (-1, v, acq) else
      let acq = acq @ [Fd (vm_fd v)]
      in case k_mmap_mem k of None \<Rightarrow> (-1, v, acq) | Some m \<Rightarrow>
      let v = v\<lparr>mem_mapped := True, mem := m\<rparr>; acq = acq @ [Mem_Map msize]
      in if k_set_memory_region k < 0 then (-1, v, acq) else
      let v = v\<lparr>vcpu_fd := k_create_vcpu k\<rparr>
      in if vcpu_fd v < 0 then (-1, v, acq) else
      let acq = acq @ [Fd (vcpu_fd v)]; v = v\<lparr>run_mmap_size := k_vcpu_mmap_size k\<rparr>
      in if run_mmap_size v \<le> 0 then (-1, v, acq) else
      case k_mmap_run k of None \<Rightarrow> (-1, v, acq) | Some r \<Rightarrow>
      (0, v\<lparr>run_mapped := True, run := r\<rparr>, acq @ [Run_Map (run_mmap_size v)]))"

text \<open>The result is the structure and the resources released, in order.\<close>

definition vm_destroy :: "vm \<Rightarrow> vm \<times> resource list" where
  "vm_destroy v =
     (let rel = (if run_mapped v then [Run_Map (run_mmap_size v)] else []);
          rel = rel @ (if mem_mapped v then [Mem_Map (mem_size v)] else []);
          rel = rel @ (if vcpu_fd v \<ge> 0 then [Fd (vcpu_fd v)] else []);
          rel = rel @ (if vm_fd v \<ge> 0 then [Fd (vm_fd v)] else []);
          rel = rel @ (if kvm_fd v \<ge> 0 then [Fd (kvm_fd v)] else [])
      in (v\<lparr>run_mapped := False, mem_mapped := False,
            vcpu_fd := (if vcpu_fd v \<ge> 0 then -1 else vcpu_fd v),
            vm_fd := (if vm_fd v \<ge> 0 then -1 else vm_fd v),
            kvm_fd := (if kvm_fd v \<ge> 0 then -1 else kvm_fd v)\<rparr>, rel))"

lemma vm_init_destroy:
  assumes "vm_init k msize = (rc, v, acq)"
  shows "mset (snd (vm_destroy v)) = mset acq"
  using assms by (auto simp: vm_init_def vm_destroy_def Let_def split: if_splits option.splits)

lemma vm_destroy_mem_run:
  "snd (vm_destroy (v\<lparr>mem := m\<rparr>)) = snd (vm_destroy v)" "snd (vm_destroy (v\<lparr>run := r\<rparr>)) = snd (vm_destroy v)"
  by (simp_all add: vm_destroy_def Let_def)

text \<open>
  Resource safety: whichever call of \<open>vm_init\<close> fails, \<open>vm_destroy\<close> releases exactly the
  descriptors and mappings acquired until then (no leak, no second release), destroying
  again releases nothing, and initialisation reports success exactly when all five
  resources were acquired.
\<close>

theorem vm_destroy_releases:
  assumes "vm_init k msize = (rc, v, acq)"
  shows "mset (snd (vm_destroy v)) = mset acq \<and> snd (vm_destroy (fst (vm_destroy v))) = [] \<and>
    (rc = 0 \<longleftrightarrow> length acq = 5)"
  using assms by (auto simp: vm_init_def vm_destroy_def Let_def split: if_splits option.splits)

definition failing_kernel :: kvm_kernel where
  "failing_kernel = \<lparr>k_open = 3, k_api_version = 12, k_expected_api = 12, k_create_vm = 4,
     k_mmap_mem = Some (\<lambda>_. 0), k_set_memory_region = 0, k_create_vcpu = -1, k_vcpu_mmap_size = 0,
     k_mmap_run = None\<rparr>"

theorem vm_destroy_releases_witness:
  "mset (snd (vm_destroy (fst (snd (vm_init failing_kernel 2097152))))) = {#Fd 3, Fd 4, Mem_Map 2097152#}"
proof -
  have "vm_init failing_kernel 2097152 =
      (-1, fst (snd (vm_init failing_kernel 2097152)), [Fd 3, Fd 4, Mem_Map 2097152])"
    by (simp add: vm_init_def failing_kernel_def)
  from vm_destroy_releases [OF this] show ?thesis by simp
qed

lemma vm_destroy_twice: "snd (vm_destroy (fst (vm_destroy v))) = []"
  by (simp add: vm_destroy_def)

lemma vm_init_success:
  "vm_init k msize = (0, v, acq) \<Longrightarrow>
     mem_mapped v \<and> run_mapped v \<and> mem_size v = msize \<and> 0 < run_mmap_size v \<and>
     0 \<le> kvm_fd v \<and> 0 \<le> vm_fd v \<and> 0 \<le> vcpu_fd v \<and> k_mmap_mem k = Some (mem v)"
  by (auto simp: vm_init_def Let_def split: if_splits option.splits)

lemma vm_init_mem_size [frame_simps]: "mem_size (fst (snd (vm_init k msize))) = msize"
  by (auto simp: vm_init_def Let_def split: if_splits option.splits)

subsection \<open>Segments, page tables and control registers\<close>

text \<open>The fields the code names; the remaining ones of the kernel's structure are zero.\<close>

record kvm_segment =
  seg_base :: u64
  seg_limit :: u32
  seg_present :: u8
  seg_type :: u8
  seg_dpl :: u8
  seg_db :: u8
  seg_s :: u8
  seg_l :: u8
  seg_g :: u8

record kvm_sregs =
  sr_cs :: kvm_segment
  sr_ds :: kvm_segment
  sr_es :: kvm_segment
  sr_fs :: kvm_segment
  sr_gs :: kvm_segment
  sr_ss :: kvm_segment
  cr0 :: u64
  cr3 :: u64
  cr4 :: u64
  efer :: u64

definition setup_segments_64 :: "kvm_sregs \<Rightarrow> kvm_sregs" where
  "setup_segments_64 sregs =
     (let code = \<lparr>seg_base = 0, seg_limit = 0xffffffff, seg_present = 1, seg_type = 11,
                  seg_dpl = 0, seg_db = 0, seg_s = 1, seg_l = 1, seg_g = 1\<rparr>;
          data = code\<lparr>seg_type := 3, seg_l := 0\<rparr>
      in sregs\<lparr>sr_cs := code, sr_ds := data, sr_es := data, sr_fs := data, sr_gs := data, sr_ss := data\<rparr>)"

text \<open>\<open>pd\<close> is the offset of the page directory in guest memory; an entry has 8 bytes.\<close>

definition setup_page_tables_4k :: "vm \<Rightarrow> nat \<Rightarrow> vm" where
  "setup_page_tables_4k v pd =
     (let page_table_count = mem_size v div PAGE_SIZE_2M in
      v\<lparr>mem := fold (\<lambda>pd_index m.
          let pt_addr = 0x4000 + pd_index * PAGE_SIZE_4K;
              m = store64 m (pd + 8 * pd_index)
                    (of_nat pt_addr OR PDE64_PRESENT OR PDE64_RW OR PDE64_USER)
          in fold (\<lambda>pt_index m.
               let guest_addr = (pd_index * PAGE_TABLE_ENTRIES + pt_index) * PAGE_SIZE_4K
               in store64 m (pt_addr + 8 * pt_index)
                    (of_nat guest_addr OR PDE64_PRESENT OR PDE64_RW OR PDE64_USER))
             [0..<PAGE_TABLE_ENTRIES] m)
        [0..<page_table_count] (mem v)\<rparr>)"

definition setup_page_tables_2m :: "vm \<Rightarrow> nat \<Rightarrow> vm" where
  "setup_page_tables_2m v pd =
     (let page_count = mem_size v div PAGE_SIZE_2M in
      v\<lparr>mem := fold (\<lambda>i m.
          let guest_addr = i * PAGE_SIZE_2M
          in store64 m (pd + 8 * i)
               (of_nat guest_addr OR PDE64_PRESENT OR PDE64_RW OR PDE64_USER OR PDE64_PS))
        [0..<page_count] (mem v)\<rparr>)"

definition setup_long_mode :: "vm \<Rightarrow> kvm_sregs \<Rightarrow> nat \<Rightarrow> vm \<times> kvm_sregs" where
  "setup_long_mode v sregs page_size =
     (let pml4_addr = 0x1000; pdpt_addr = 0x2000; pd_addr = 0x3000;
          v = v\<lparr>mem := store64 (mem v) pml4_addr
                       (PDE64_PRESENT OR PDE64_RW OR PDE64_USER OR of_nat pdpt_addr)\<rparr>;
          v = v\<lparr>mem := store64 (mem v) pdpt_addr
                       (PDE64_PRESENT OR PDE64_RW OR PDE64_USER OR of_nat pd_addr)\<rparr>;
          v = (if page_size = PAGE_SIZE_4K then setup_page_tables_4k v pd_addr
               else setup_page_tables_2m v pd_addr);
          sregs = sregs\<lparr>cr3 := of_nat pml4_addr, cr4 := CR4_PAE, cr0 := CR0_PE OR CR0_PG,
                        efer := EFER_LME OR EFER_LMA\<rparr>
      in (v, setup_segments_64 sregs))"

subsection \<open>Loading the image, injecting an interrupt\<close>

text \<open>
  The image file as the C library presents it: whether it opens, the results of
  \<^verbatim>\<open>fseek\<close> and \<^verbatim>\<open>ftell\<close>, and the bytes \<^verbatim>\<open>fread\<close> can deliver.
\<close>

record image_file =
  img_opens :: bool
  img_fseek :: int
  img_ftell :: int
  img_bytes :: "u8 list"

text \<open>The result is the return code, the machine, and what \<^verbatim>\<open>fopen\<close> acquired and \<^verbatim>\<open>fclose\<close> released.\<close>

definition load_guest_image :: "vm \<Rightarrow> image_file \<Rightarrow> nat \<Rightarrow> int \<times> vm \<times> resource list \<times> resource list" where
  "load_guest_image v f load_addr =
     (if \<not> img_opens f then (-1, v, [], []) else
      let acq = [Stream]
      in if img_fseek f < 0 then (-1, v, acq, [Stream]) else
      let fsz = img_ftell f
      in if fsz < 0 then (-1, v, acq, [Stream]) else
      if (of_int fsz :: u64) > of_nat (mem_size v) - of_nat load_addr then (-1, v, acq, [Stream]) else
      let bytes = take (nat fsz) (img_bytes f);
          v = v\<lparr>mem := store_bytes (mem v) load_addr bytes\<rparr>
      in if length bytes \<noteq> nat fsz then (-1, v, acq, [Stream]) else
      (0, v, acq, [Stream]))"

text \<open>The stream of the image is closed on every path.\<close>

lemma load_guest_image_closes: "load_guest_image v f a = (rc, v', opened, closed) \<Longrightarrow> closed = opened"
  by (auto simp: load_guest_image_def Let_def split: if_splits)

text \<open>\<open>kvm_interrupt\<close> is the kernel's answer to \<^verbatim>\<open>KVM_INTERRUPT\<close> with a vector; what it accepts it will deliver.\<close>

definition inject_irq :: "vm \<Rightarrow> u32 \<Rightarrow> (u32 \<Rightarrow> int) \<Rightarrow> int \<times> vm" where
  "inject_irq v vector kvm_interrupt =
     (if kvm_interrupt vector < 0 then (-1, v) else (0, v\<lparr>injected := injected v @ [vector]\<rparr>))"

text \<open>A machine at rest, for the concrete instances of the theorems.\<close>

definition blank_vm :: "nat \<Rightarrow> vm" where
  "blank_vm n = \<lparr>kvm_fd = 3, vm_fd = 4, vcpu_fd = 5, mem_mapped = True, mem = (\<lambda>_. 0), mem_size = n,
     run_mapped = True, run = zero_run, run_mmap_size = 4096, injected = []\<rparr>"

definition blank_segment :: kvm_segment where
  "blank_segment = \<lparr>seg_base = 0, seg_limit = 0, seg_present = 0, seg_type = 0, seg_dpl = 0,
     seg_db = 0, seg_s = 0, seg_l = 0, seg_g = 0\<rparr>"

definition blank_sregs :: kvm_sregs where
  "blank_sregs = \<lparr>sr_cs = blank_segment, sr_ds = blank_segment, sr_es = blank_segment,
     sr_fs = blank_segment, sr_gs = blank_segment, sr_ss = blank_segment, cr0 = 0, cr3 = 0, cr4 = 0, efer = 0\<rparr>"

end
