(* ===== verification/Long_Mode.thy ===== *)
theory Long_Mode
  imports Kvm_Vm
begin

text \<open>
  What \<^verbatim>\<open>setup_long_mode\<close> promises: the processor, walking the tables from \<open>cr3\<close>, maps every
  guest address below the memory size to itself and no other address. \<open>walk\<close> is that
  contract: the four-level walk of the AMD64 manual (volume 2, chapter 5) over the entries
  in guest memory. It models no code of the repository.
\<close>

subsection \<open>The four-level walk\<close>

definition table_base :: "u64 \<Rightarrow> nat" where
  "table_base e = unat (e AND push_bit 12 (mask 40))"

definition large_base :: "u64 \<Rightarrow> nat" where
  "large_base e = unat (e AND push_bit 21 (mask 31))"

definition huge_base :: "u64 \<Rightarrow> nat" where
  "huge_base e = unat (e AND push_bit 30 (mask 22))"

definition entry :: "memory \<Rightarrow> u64 \<Rightarrow> nat \<Rightarrow> u64" where
  "entry m table index = load64 m (table_base table + 8 * (index mod 512))"

definition present :: "u64 \<Rightarrow> bool" where "present e = bit e 0"
definition writable :: "u64 \<Rightarrow> bool" where "writable e = bit e 1"
definition user_ok :: "u64 \<Rightarrow> bool" where "user_ok e = bit e 2"
definition page_size_bit :: "u64 \<Rightarrow> bool" where "page_size_bit e = bit e 7"

text \<open>The physical address, and whether writes and user-mode accesses are allowed.\<close>

definition walk :: "memory \<Rightarrow> u64 \<Rightarrow> nat \<Rightarrow> (nat \<times> bool \<times> bool) option" where
  "walk m root va =
     (let e4 = entry m root (va div 2 ^ 39) in if \<not> present e4 then None else
      let e3 = entry m e4 (va div 2 ^ 30) in if \<not> present e3 then None else
      if page_size_bit e3 then
        Some (huge_base e3 + va mod 2 ^ 30, writable e4 \<and> writable e3, user_ok e4 \<and> user_ok e3) else
      let e2 = entry m e3 (va div 2 ^ 21) in if \<not> present e2 then None else
      if page_size_bit e2 then
        Some (large_base e2 + va mod 2 ^ 21, writable e4 \<and> writable e3 \<and> writable e2,
              user_ok e4 \<and> user_ok e3 \<and> user_ok e2) else
      let e1 = entry m e2 (va div 2 ^ 12) in if \<not> present e1 then None else
      Some (table_base e1 + va mod 2 ^ 12, writable e4 \<and> writable e3 \<and> writable e2 \<and> writable e1,
            user_ok e4 \<and> user_ok e3 \<and> user_ok e2 \<and> user_ok e1))"

subsection \<open>Decoding the entries the code writes\<close>

lemmas pde_flags = PDE64_PRESENT_def PDE64_RW_def PDE64_USER_def PDE64_PS_def

definition flags_4k :: u64 where "flags_4k = PDE64_PRESENT OR PDE64_RW OR PDE64_USER"
definition flags_2m :: u64 where "flags_2m = PDE64_PRESENT OR PDE64_RW OR PDE64_USER OR PDE64_PS"

lemma flags_4k_mask: "flags_4k = mask 3"
  by (simp add: flags_4k_def pde_flags mask_eq_exp_minus_1)

lemma flags_2m_mask: "flags_2m = mask 3 OR push_bit 7 1"
  by (simp add: flags_2m_def pde_flags mask_eq_exp_minus_1)

lemma bit_flags_4k: "bit flags_4k n \<longleftrightarrow> n < 3"
  by (auto simp: flags_4k_mask bit_simps)

lemma bit_flags_2m: "bit flags_2m n \<longleftrightarrow> n < 3 \<or> n = 7"
  unfolding flags_2m_mask by (auto simp: bit_simps simp del: push_bit_of_1)

lemma of_nat_page: "(of_nat (2 ^ s * k) :: u64) = push_bit s (of_nat k)"
  by (simp add: push_bit_eq_mult mult.commute)

lemma frame_decode:
  assumes "k < 2 ^ w" and "s + w \<le> 52" and "\<And>n. s \<le> n \<Longrightarrow> \<not> bit f n"
  shows "unat ((of_nat (2 ^ s * k) OR f :: u64) AND push_bit s (mask w)) = 2 ^ s * k"
proof -
  have le: "2 ^ s * k < (2 ^ 64 :: nat)"
  proof -
    have "2 ^ s * k < 2 ^ s * (2 ^ w :: nat)" using assms(1) by simp
    also have "\<dots> = 2 ^ (s + w)" by (simp add: power_add)
    also have "\<dots> \<le> 2 ^ 64" using assms(2) by (intro power_increasing) auto
    finally show ?thesis .
  qed
  have "n < w" if "bit k n" for n
  proof (rule ccontr)
    assume "\<not> n < w"
    then have "k < 2 ^ n" using assms(1) by (meson less_le_trans not_less one_le_numeral power_increasing)
    then show False using that by (simp add: bit_iff_odd)
  qed
  then have "(of_nat (2 ^ s * k) OR f :: u64) AND push_bit s (mask w) = of_nat (2 ^ s * k)"
    unfolding of_nat_page by (intro bit_word_eqI) (use assms(3) in \<open>auto simp: bit_simps\<close>)
  then show ?thesis
    using le by (simp add: unat_of_nat take_bit_nat_eq_self del: of_nat_mult of_nat_power)
qed

lemma page_low_bits: "n < s \<Longrightarrow> \<not> bit (of_nat (2 ^ s * k) :: u64) n"
  unfolding of_nat_page by (simp add: bit_simps)

lemma table_entry:
  assumes "k < 2 ^ 40"
  shows "table_base (of_nat (4096 * k) OR flags_4k) = 4096 * k"
    and "present (of_nat (4096 * k) OR flags_4k)"
    and "writable (of_nat (4096 * k) OR flags_4k)"
    and "user_ok (of_nat (4096 * k) OR flags_4k)"
    and "\<not> page_size_bit (of_nat (4096 * k) OR flags_4k)"
  using frame_decode [of k 40 12 flags_4k] assms page_low_bits [of 7 12 k]
  by (auto simp: table_base_def present_def writable_def user_ok_def page_size_bit_def
      bit_flags_4k bit_or_iff simp del: of_nat_mult)

lemma large_entry:
  assumes "k < 2 ^ 31"
  shows "large_base (of_nat (2097152 * k) OR flags_2m) = 2097152 * k"
    and "present (of_nat (2097152 * k) OR flags_2m)"
    and "writable (of_nat (2097152 * k) OR flags_2m)"
    and "user_ok (of_nat (2097152 * k) OR flags_2m)"
    and "page_size_bit (of_nat (2097152 * k) OR flags_2m)"
  using frame_decode [of k 31 21 flags_2m] assms
  by (auto simp: large_base_def present_def writable_def user_ok_def page_size_bit_def
      bit_flags_2m bit_or_iff simp del: of_nat_mult)

subsection \<open>The tables as a list of stores\<close>

definition writes_root :: "(nat \<times> u64) list" where
  "writes_root = [(0x1000, of_nat (4096 * 2) OR flags_4k), (0x2000, of_nat (4096 * 3) OR flags_4k)]"

definition writes_4k :: "nat \<Rightarrow> (nat \<times> u64) list" where
  "writes_4k n = concat (map (\<lambda>p.
     (0x3000 + 8 * p, of_nat (4096 * (4 + p)) OR flags_4k) #
     map (\<lambda>q. (0x4000 + 4096 * p + 8 * q, of_nat (4096 * (512 * p + q)) OR flags_4k)) [0..<512]) [0..<n])"

definition writes_2m :: "nat \<Rightarrow> (nat \<times> u64) list" where
  "writes_2m n = map (\<lambda>i. (0x3000 + 8 * i, of_nat (2097152 * i) OR flags_2m)) [0..<n]"

definition table_writes :: "nat \<Rightarrow> nat \<Rightarrow> (nat \<times> u64) list" where
  "table_writes msize page_size =
     writes_root @ (if page_size = 4096 then writes_4k (msize div 2097152) else writes_2m (msize div 2097152))"

lemma mem_setup_4k:
  "mem (setup_page_tables_4k v 0x3000) = store_all store64 (writes_4k (mem_size v div 2097152)) (mem v)"
proof -
  have c: "0x4000 + p * (4 * 1024) = (4096 * (4 + p) :: nat)"
    "(p * 512 + q) * (4 * 1024) = (4096 * (512 * p + q) :: nat)"
    "4096 * (4 + p) + 8 * q = (0x4000 + 4096 * p + 8 * q :: nat)" for p q by simp_all
  show ?thesis
    unfolding setup_page_tables_4k_def writes_4k_def Let_def PAGE_SIZE_4K_def PAGE_SIZE_2M_def
      PAGE_TABLE_ENTRIES_def c flags_4k_def [symmetric] fold_store_all [where st = store64]
    by (simp add: fold_store_all_nested [where ws = "\<lambda>p.
          (0x3000 + 8 * p, of_nat (4096 * (4 + p)) OR flags_4k) #
          map (\<lambda>q. (0x4000 + 4096 * p + 8 * q, of_nat (4096 * (512 * p + q)) OR flags_4k)) [0..<512]"]
        del: of_nat_mult of_nat_add upt.simps)
qed

lemma mem_setup_2m:
  "mem (setup_page_tables_2m v 0x3000) = store_all store64 (writes_2m (mem_size v div 2097152)) (mem v)"
proof -
  have c: "i * (2 * 1024 * 1024) = (2097152 * i :: nat)" for i by simp
  show ?thesis
    unfolding setup_page_tables_2m_def writes_2m_def Let_def PAGE_SIZE_2M_def c
      flags_2m_def [symmetric] fold_store_all [where st = store64]
    by (simp del: of_nat_mult)
qed

lemma mem_size_setup [frame_simps]:
  "mem_size (setup_page_tables_4k v pd) = mem_size v"
  "mem_size (setup_page_tables_2m v pd) = mem_size v"
  "mem_size (fst (setup_long_mode v sregs page_size)) = mem_size v"
  by (simp_all add: setup_page_tables_4k_def setup_page_tables_2m_def setup_long_mode_def Let_def)

lemma mem_setup_long_mode:
  "mem (fst (setup_long_mode v sregs page_size)) =
     store_all store64 (table_writes (mem_size v) page_size) (mem v)"
proof -
  have e: "PDE64_PRESENT OR PDE64_RW OR PDE64_USER OR of_nat (4096 * k) = of_nat (4096 * k) OR flags_4k" for k
    by (simp add: flags_4k_def ac_simps del: of_nat_mult)
  have k: "0x2000 = (4096 * 2 :: nat)" "0x3000 = (4096 * 3 :: nat)" by simp_all
  show ?thesis
    unfolding setup_long_mode_def Let_def k e
    by (simp add: table_writes_def writes_root_def store_all_append mem_setup_4k mem_setup_2m
        mem_size_setup PAGE_SIZE_4K_def del: of_nat_mult of_nat_numeral)
qed

subsection \<open>The contents of the tables\<close>

lemma set_concat_pairs:
  "(b, e) \<in> set (concat (map (\<lambda>p. (f p, g p) # map (\<lambda>q. (f' p q, g' p q)) qs) ps)) \<longleftrightarrow>
     (\<exists>p\<in>set ps. (b = f p \<and> e = g p) \<or> (\<exists>q\<in>set qs. b = f' p q \<and> e = g' p q))"
  by auto

lemma set_writes_4k:
  "(b, e) \<in> set (writes_4k n) \<longleftrightarrow>
     (\<exists>p<n. (b = 0x3000 + 8 * p \<and> e = of_nat (4096 * (4 + p)) OR flags_4k) \<or>
       (\<exists>q<512. b = 0x4000 + 4096 * p + 8 * q \<and> e = of_nat (4096 * (512 * p + q)) OR flags_4k))"
  unfolding writes_4k_def set_concat_pairs by (simp only: set_upt atLeastLessThan_iff Bex_def) simp

lemma set_writes_2m:
  "(b, e) \<in> set (writes_2m n) \<longleftrightarrow>
     (\<exists>i<n. b = 0x3000 + 8 * i \<and> e = of_nat (2097152 * i) OR flags_2m)"
  unfolding writes_2m_def by (auto simp del: of_nat_mult)

lemma set_writes_root:
  "(b, e) \<in> set writes_root \<longleftrightarrow>
     (b = 0x1000 \<and> e = of_nat (4096 * 2) OR flags_4k) \<or> (b = 0x2000 \<and> e = of_nat (4096 * 3) OR flags_4k)"
  by (auto simp: writes_root_def)

lemmas set_writes = set_writes_root set_writes_4k set_writes_2m

lemma table_writes_aligned: "\<forall>(a, e)\<in>set (table_writes msize page_size). 8 dvd a"
  by (auto simp: table_writes_def set_writes split: if_splits)

lemma table_writes_range:
  "msize div 2097152 \<le> 4 \<Longrightarrow> (a, e) \<in> set (table_writes msize page_size) \<Longrightarrow> 0x1000 \<le> a \<and> a + 8 \<le> 0x8000"
  by (auto simp: table_writes_def set_writes split: if_splits)

definition tables :: "nat \<Rightarrow> nat \<Rightarrow> memory \<Rightarrow> memory" where
  "tables msize page_size m = store_all store64 (table_writes msize page_size) m"

lemma load_tables:
  assumes "(b, e) \<in> set (table_writes msize page_size)"
    and "\<And>e'. (b, e') \<in> set (table_writes msize page_size) \<Longrightarrow> e' = e"
  shows "load64 (tables msize page_size m) b = e"
  unfolding tables_def by (rule mem64.ld_store_all_in [OF table_writes_aligned assms])

lemma root_writes_unique:
  assumes "msize div 2097152 \<le> 4" and "b < 0x3000"
  shows "(b, e) \<in> set (table_writes msize page_size) \<longleftrightarrow> (b, e) \<in> set writes_root"
proof -
  have "(b, e) \<notin> set (writes_4k n)" "(b, e) \<notin> set (writes_2m n)" for n
    using assms(2) by (auto simp only: set_writes)
  then show ?thesis by (simp add: table_writes_def)
qed

lemma load_tables_root:
  assumes "msize div 2097152 \<le> 4"
  shows "load64 (tables msize page_size m) 0x1000 = of_nat (4096 * 2) OR flags_4k"
    and "load64 (tables msize page_size m) 0x2000 = of_nat (4096 * 3) OR flags_4k"
  by (rule load_tables; simp add: root_writes_unique [OF assms] writes_root_def)+

lemma load_tables_pd_4k:
  assumes "msize div 2097152 \<le> 4" and "p < msize div 2097152"
  shows "load64 (tables msize 4096 m) (0x3000 + 8 * p) = of_nat (4096 * (4 + p)) OR flags_4k"
proof (rule load_tables)
  show "(0x3000 + 8 * p, of_nat (4096 * (4 + p)) OR flags_4k) \<in> set (table_writes msize 4096)"
    using assms(2) by (auto simp: table_writes_def set_writes simp del: of_nat_mult of_nat_add)
qed (use assms in \<open>auto simp: table_writes_def set_writes\<close>)

lemma load_tables_pt_4k:
  assumes "msize div 2097152 \<le> 4" and "p < msize div 2097152" and "q < 512"
  shows "load64 (tables msize 4096 m) (0x4000 + 4096 * p + 8 * q) =
    of_nat (4096 * (512 * p + q)) OR flags_4k"
proof (rule load_tables)
  show "(0x4000 + 4096 * p + 8 * q, of_nat (4096 * (512 * p + q)) OR flags_4k) \<in> set (table_writes msize 4096)"
    using assms(2,3) by (auto simp: table_writes_def set_writes simp del: of_nat_mult of_nat_add)
next
  have "p' = p \<and> q' = q" if "0x4000 + 4096 * p + 8 * q = 0x4000 + 4096 * p' + 8 * q'" "q' < 512" for p' q'
  proof -
    have e: "512 * p + q = 512 * p' + q'" using that(1) by simp
    have "p = (512 * p + q) div 512" "p' = (512 * p' + q') div 512"
      using assms(3) that(2) by simp_all
    then show ?thesis using e by simp
  qed
  then show "e' = of_nat (4096 * (512 * p + q)) OR flags_4k"
    if "(0x4000 + 4096 * p + 8 * q, e') \<in> set (table_writes msize 4096)" for e'
    using that assms(1) by (auto simp: table_writes_def set_writes simp del: of_nat_mult of_nat_add)
qed

lemma load_tables_pd_2m:
  assumes "page_size \<noteq> 4096" and "p < msize div 2097152"
  shows "load64 (tables msize page_size m) (0x3000 + 8 * p) = of_nat (2097152 * p) OR flags_2m"
proof (rule load_tables)
  show "(0x3000 + 8 * p, of_nat (2097152 * p) OR flags_2m) \<in> set (table_writes msize page_size)"
    using assms by (auto simp: table_writes_def set_writes simp del: of_nat_mult of_nat_add)
qed (use assms in \<open>auto simp: table_writes_def set_writes\<close>)

lemma load64_zero:
  assumes "\<And>x. b \<le> x \<Longrightarrow> x < b + 8 \<Longrightarrow> m x = 0"
  shows "load64 m b = 0"
  unfolding load64_def by (rule bit_word_eqI) (use assms in \<open>auto simp: bit_le_word\<close>)

lemma load_tables_absent:
  assumes "msize div 2097152 \<le> 4" and "\<forall>x\<in>{0x1000..<0x4000}. m x = 0"
    and "b = 0x1000 + 8 * i \<and> 0 < i \<and> i < 512 \<or> b = 0x2000 + 8 * i \<and> 0 < i \<and> i < 512 \<or>
         b = 0x3000 + 8 * i \<and> msize div 2097152 \<le> i \<and> i < 512"
  shows "load64 (tables msize page_size m) b = 0"
proof -
  have "8 dvd b" using assms(3) by auto
  moreover have "b \<notin> fst ` set (table_writes msize page_size)"
    using assms(1,3) by (auto simp: table_writes_def set_writes split: if_splits)
  ultimately have "load64 (tables msize page_size m) b = load64 m b"
    unfolding tables_def by (rule mem64.ld_store_all_notin [OF table_writes_aligned])
  also have "\<dots> = 0" using assms(2,3) by (intro load64_zero) auto
  finally show ?thesis .
qed

subsection \<open>The walk over the tables\<close>

text \<open>
  The walk reads nothing above \<open>GUEST_START_ADDR\<close>, so it is stated for every memory that
  agrees with the tables below that address: the image the host loads later, and whatever
  the guest writes above it, does not matter.
\<close>

definition agrees_low :: "memory \<Rightarrow> memory \<Rightarrow> bool" where
  "agrees_low m m' \<longleftrightarrow> (\<forall>x<0x8000. m x = m' x)"

lemma load64_agrees: "agrees_low m m' \<Longrightarrow> b + 8 \<le> 0x8000 \<Longrightarrow> load64 m b = load64 m' b"
  by (rule mem64.ld_cong) (auto simp: agrees_low_def)

lemma present_zero [simp]: "\<not> present 0"
  by (simp add: present_def)

lemma table_base_root: "table_base 0x1000 = 0x1000"
  by (simp add: table_base_def mask_eq_exp_minus_1)

lemmas root_entries = table_entry [of 2, simplified] table_entry [of 3, simplified]

lemma entry_root:
  assumes "msize div 2097152 \<le> 4" and "agrees_low m' (tables msize page_size m)"
  shows "entry m' 0x1000 0 = of_nat (4096 * 2) OR flags_4k"
    and "entry m' (of_nat (4096 * 2) OR flags_4k) 0 = of_nat (4096 * 3) OR flags_4k"
  using load_tables_root [OF assms(1), of page_size m] root_entries
  by (simp_all add: entry_def table_base_root load64_agrees [OF assms(2)])

lemma walk_tables_above:
  assumes "msize div 2097152 \<le> 4" and "agrees_low m' (tables msize page_size m)"
    and "\<forall>x\<in>{0x1000..<0x4000}. m x = 0"
    and "va < 2 ^ 48" and "msize div 2097152 \<le> va div 2 ^ 21"
  shows "walk m' 0x1000 va = None"
proof -
  note absent = load_tables_absent [OF assms(1,3)]
  have z: "load64 m' (0x1000 + 8 * i) = 0" "load64 m' (0x2000 + 8 * i) = 0"
    if "0 < i" "i < 512" for i
    using that absent [of "0x1000 + 8 * i" i page_size] absent [of "0x2000 + 8 * i" i page_size]
    by (simp_all add: load64_agrees [OF assms(2)])
  have z2: "load64 m' (0x3000 + 8 * i) = 0" if "msize div 2097152 \<le> i" "i < 512" for i
    using that absent [of "0x3000 + 8 * i" i page_size] by (simp add: load64_agrees [OF assms(2)])
  note root = entry_root [OF assms(1,2)]
  consider "0 < va div 2 ^ 39" | "va div 2 ^ 39 = 0" "0 < va div 2 ^ 30" | "va div 2 ^ 30 = 0" by auto
  then show ?thesis
  proof cases
    case 1
    moreover have "va div 2 ^ 39 < 512" using assms(4) by simp
    ultimately show ?thesis
      using z(1) [of "va div 2 ^ 39"] by (simp add: walk_def entry_def table_base_root)
  next
    case 2
    moreover have "va div 2 ^ 30 < 512" using 2 by (simp add: div_eq_0_iff)
    ultimately show ?thesis
      using z(2) [of "va div 2 ^ 30"] root root_entries
      by (simp add: walk_def Let_def entry_def table_base_root)
  next
    case 3
    then have "va div 2 ^ 39 = 0" and "va div 2 ^ 21 < 512" by (simp_all add: div_eq_0_iff)
    then show ?thesis
      using 3 z2 [of "va div 2 ^ 21"] assms(5) root root_entries
      by (simp add: walk_def Let_def entry_def table_base_root)
  qed
qed

lemma walk_tables_4k:
  assumes n: "msize div 2097152 \<le> 4" and low: "agrees_low m' (tables msize 4096 m)"
    and p: "va div 2 ^ 21 < msize div 2097152"
  shows "walk m' 0x1000 va = Some (va, True, True)"
proof -
  let ?p = "va div 2 ^ 21" and ?q = "va div 2 ^ 12 mod 512"
  have "va < 4 * 2 ^ 21" using n p by (simp add: div_less_iff_less_mult)
  then have z: "va div 2 ^ 39 = 0" "va div 2 ^ 30 = 0" and k: "va div 2 ^ 12 < 2 ^ 40"
    and p4: "?p < 4" "4 + ?p < 2 ^ 40" by simp_all
  have "?p = va div 2 ^ 12 div 512" by (simp add: div_mult2_eq [symmetric])
  then have pq: "512 * ?p + ?q = va div 2 ^ 12" by (metis mult_div_mod_eq)
  note e2 = table_entry [OF p4(2)] and e1 = table_entry [OF k]
  have q: "?q < 512" by simp
  have "entry m' (of_nat (4096 * 3) OR flags_4k) ?p = of_nat (4096 * (4 + ?p)) OR flags_4k"
    using load_tables_pd_4k [OF n p, of m] root_entries p4
    by (simp add: entry_def load64_agrees [OF low] del: of_nat_mult of_nat_add)
  moreover have "entry m' (of_nat (4096 * (4 + ?p)) OR flags_4k) (va div 2 ^ 12) =
      of_nat (4096 * (va div 2 ^ 12)) OR flags_4k"
  proof -
    have "4096 * (4 + ?p) + 8 * ?q = 0x4000 + 4096 * ?p + 8 * ?q" by simp
    moreover have "0x4000 + 4096 * ?p + 8 * ?q + 8 \<le> 0x8000" using p4 q by linarith
    ultimately show ?thesis
      unfolding entry_def e2(1) using load64_agrees [OF low] load_tables_pt_4k [OF n p q, of m] pq by metis
  qed
  moreover have "4096 * (va div 2 ^ 12) + va mod 2 ^ 12 = va"
    using mult_div_mod_eq [of "2 ^ 12" va] by simp
  ultimately show ?thesis
    using z entry_root [OF n low] root_entries e2 e1
    by (simp add: walk_def Let_def del: of_nat_mult of_nat_add)
qed

lemma walk_tables_2m:
  assumes n: "msize div 2097152 \<le> 4" and low: "agrees_low m' (tables msize page_size m)"
    and p: "va div 2 ^ 21 < msize div 2097152" and ps: "page_size \<noteq> 4096"
  shows "walk m' 0x1000 va = Some (va, True, True)"
proof -
  let ?p = "va div 2 ^ 21"
  have "va < 4 * 2 ^ 21" using n p by (simp add: div_less_iff_less_mult)
  then have z: "va div 2 ^ 39 = 0" "va div 2 ^ 30 = 0" and p4: "?p < 4" "?p < 2 ^ 31" by simp_all
  have "entry m' (of_nat (4096 * 3) OR flags_4k) ?p = of_nat (2097152 * ?p) OR flags_2m"
    using load_tables_pd_2m [OF ps p, of m] root_entries p4
    by (simp add: entry_def load64_agrees [OF low] del: of_nat_mult of_nat_add)
  moreover have "2097152 * ?p + va mod 2 ^ 21 = va"
    using mult_div_mod_eq [of "2 ^ 21" va] by simp
  ultimately show ?thesis
    using z entry_root [OF n low] root_entries large_entry [OF p4(2)]
    by (simp add: walk_def Let_def del: of_nat_mult of_nat_add)
qed

subsection \<open>What the tables and the loader guarantee\<close>

lemma image_size_check:
  assumes "0 \<le> fsz" and "fsz < 2 ^ 63" and "load_addr \<le> msize" and "msize < 2 ^ 64"
  shows "(of_int fsz :: u64) > of_nat msize - of_nat load_addr \<longleftrightarrow> msize - load_addr < nat fsz"
proof -
  have "unat (of_int fsz :: u64) = nat fsz"
    using assms(1,2) by (simp add: uint_word_of_int_eq take_bit_int_eq_self flip: nat_uint_eq)
  moreover have "unat (of_nat msize - of_nat load_addr :: u64) = msize - load_addr"
  proof -
    have "(of_nat msize - of_nat load_addr :: u64) = of_nat (msize - load_addr)"
      using assms(3) by simp
    then show ?thesis using assms(4) by (simp add: unat_of_nat take_bit_nat_eq_self)
  qed
  ultimately show ?thesis by (simp add: word_less_nat_alt)
qed

lemma load_guest_image_cases:
  assumes "load_guest_image v f load_addr = (rc, v', opened, closed)" and "load_addr \<le> mem_size v"
    and "mem_size v < 2 ^ 64" and "img_ftell f < 2 ^ 63"
  obtains "v' = v" "rc = -1"
  | bytes where "v' = v\<lparr>mem := store_bytes (mem v) load_addr bytes\<rparr>"
      "load_addr + length bytes \<le> mem_size v" "bytes = take (nat (img_ftell f)) (img_bytes f)"
      "rc = (if length bytes = nat (img_ftell f) then 0 else -1)"
      "img_opens f" "0 \<le> img_fseek f" "0 \<le> img_ftell f"
      "nat (img_ftell f) \<le> mem_size v - load_addr"
  using assms
  by (auto simp: load_guest_image_def Let_def image_size_check split: if_splits)

text \<open>
  C17. Identity mapping: for every memory size the command line admits (a multiple of 2 MiB,
  at most 8 MiB) and either page size, once \<open>setup_long_mode\<close> has written the tables into
  zeroed memory and the image has been loaded, the walk from \<open>cr3\<close> maps each guest address
  below the memory size to itself, writable and accessible, and maps no other canonical
  low-half address. It stays so for every later memory that differs only from
  \<open>GUEST_START_ADDR\<close> on.
\<close>

theorem long_mode_identity_map:
  assumes "2 ^ 21 dvd mem_size v" and "mem_size v \<le> 8 * 2 ^ 20" and "0 < mem_size v"
    and "\<forall>x\<in>{0x1000..<0x4000}. mem v x = 0"
    and "setup_long_mode v sregs page_size = (v1, sregs1)"
    and "load_guest_image v1 f GUEST_START_ADDR = (rc, v2, streams)" and "img_ftell f < 2 ^ 63"
    and "\<forall>x<GUEST_START_ADDR. m x = mem v2 x" and "va < 2 ^ 48"
  shows "walk m (cr3 sregs1) va = (if va < mem_size v then Some (va, True, True) else None)"
proof -
  obtain n where n: "mem_size v = 2 ^ 21 * n" "0 < n" using assms(1,3) by (auto elim!: dvdE)
  then have four: "mem_size v div 2097152 \<le> 4" and nv: "mem_size v div 2097152 = n"
    using assms(2) by simp_all
  have v1: "mem v1 = tables (mem_size v) page_size (mem v)" "mem_size v1 = mem_size v"
    using mem_setup_long_mode [of v sregs page_size] mem_size_setup(3) [of v sregs page_size] assms(5)
    by (simp_all add: tables_def)
  have "GUEST_START_ADDR \<le> mem_size v1" "mem_size v1 < 2 ^ 64"
    using n assms(2) v1 by (simp_all add: GUEST_START_ADDR_def)
  moreover obtain opened closed where "streams = (opened, closed)" by (cases streams)
  ultimately have "mem v2 x = mem v1 x" if "x < GUEST_START_ADDR" for x
    using load_guest_image_cases [of v1 f GUEST_START_ADDR rc v2 opened closed "mem v2 x = mem v1 x"] assms(6,7) that by auto
  then have low: "agrees_low m (tables (mem_size v) page_size (mem v))"
    using assms(8) v1 by (simp add: agrees_low_def GUEST_START_ADDR_def)
  have cr3: "cr3 sregs1 = 0x1000"
    using assms(5) by (auto simp: setup_long_mode_def setup_segments_64_def Let_def)
  show ?thesis
  proof (cases "va div 2 ^ 21 < mem_size v div 2097152")
    case True
    moreover from this have "va < mem_size v" using n nv by (simp add: div_less_iff_less_mult mult.commute)
    ultimately show ?thesis
      unfolding cr3 using walk_tables_4k [OF four] walk_tables_2m [OF four low] low
      by (cases "page_size = 4096") auto
  next
    case False
    moreover from this have "\<not> va < mem_size v" using n nv by (simp add: div_less_iff_less_mult mult.commute)
    ultimately show ?thesis
      unfolding cr3 using walk_tables_above [OF four low assms(4,9)] by simp
  qed
qed

definition tiny_image :: image_file where
  "tiny_image = \<lparr>img_opens = True, img_fseek = 0, img_ftell = 3, img_bytes = [0xf4, 0xeb, 0xfd]\<rparr>"

lemma collapse_triple: "x = (fst x, fst (snd x), snd (snd x))"
  by simp

theorem long_mode_identity_map_witness:
  "walk (mem (fst (snd (load_guest_image (fst (setup_long_mode (blank_vm (4 * 2 ^ 20)) blank_sregs 4096))
       tiny_image GUEST_START_ADDR))))
     (cr3 (snd (setup_long_mode (blank_vm (4 * 2 ^ 20)) blank_sregs 4096))) 0x3fffff =
   Some (0x3fffff, True, True)"
  by (subst long_mode_identity_map
        [where v = "blank_vm (4 * 2 ^ 20)" and sregs = blank_sregs and page_size = 4096
           and f = tiny_image, OF _ _ _ _ prod.collapse [symmetric] collapse_triple])
    (simp_all add: blank_vm_def tiny_image_def)

text \<open>
  C33. Memory safety of the tables: \<open>setup_long_mode\<close> writes only bytes of
  \<open>[0x1000, GUEST_START_ADDR)\<close>, inside guest memory and below the loaded image.
\<close>

theorem setup_long_mode_confined:
  assumes "0 < mem_size v" and "2 ^ 21 dvd mem_size v" and "mem_size v \<le> 8 * 2 ^ 20"
    and "mem (fst (setup_long_mode v sregs page_size)) x \<noteq> mem v x"
  shows "0x1000 \<le> x \<and> x < GUEST_START_ADDR \<and> x < mem_size v"
proof -
  have four: "mem_size v div 2097152 \<le> 4" using assms(3) by simp
  have "0x1000 \<le> x \<and> x < 0x8000"
  proof (rule ccontr)
    assume "\<not> (0x1000 \<le> x \<and> x < 0x8000)"
    then have "\<forall>(a, e)\<in>set (table_writes (mem_size v) page_size). x < a \<or> a + 8 \<le> x"
      using table_writes_range [OF four] by fastforce
    then show False using assms(4) by (simp add: mem_setup_long_mode mem64.store_all_outside)
  qed
  moreover have "2097152 \<le> mem_size v" using assms(1,2) dvd_imp_le by fastforce
  ultimately show ?thesis by (simp add: GUEST_START_ADDR_def)
qed

theorem setup_long_mode_confined_witness:
  "mem (fst (setup_long_mode (blank_vm (2 * 2 ^ 20)) blank_sregs 4096)) 0x1000 \<noteq> mem (blank_vm (2 * 2 ^ 20)) 0x1000
   \<and> 0x1000 < GUEST_START_ADDR"
proof -
  let ?v = "blank_vm (2 * 2 ^ 20)"
  have "load64 (mem (fst (setup_long_mode ?v blank_sregs 4096))) 0x1000 = of_nat (4096 * 2) OR flags_4k"
    using load_tables_root(1) [of "2 * 2 ^ 20" 4096 "mem ?v"]
    by (simp add: mem_setup_long_mode tables_def blank_vm_def)
  then have "bit (load64 (mem (fst (setup_long_mode ?v blank_sregs 4096))) 0x1000) 0"
    using root_entries(2) by (simp add: present_def)
  then have "bit (mem (fst (setup_long_mode ?v blank_sregs 4096)) 0x1000) 0"
    by (simp add: load64_def bit_le_word)
  then have ne: "mem (fst (setup_long_mode ?v blank_sregs 4096)) 0x1000 \<noteq> mem ?v 0x1000"
    by (auto simp: blank_vm_def)
  then show ?thesis
    using setup_long_mode_confined [OF _ _ _ ne] by (simp add: blank_vm_def)
qed

text \<open>
  C34. Loading the image never touches memory outside \<open>[load_addr, mem_size)\<close>, whatever the
  file system answers; it returns 0 exactly when the file opens, its size fits behind the
  load address and all of it is read, and then memory holds the image at the load address. The
  stream it opened is closed on every path.
\<close>

theorem load_guest_image_safe:
  assumes "load_guest_image v f load_addr = (rc, v', opened, closed)" and "load_addr \<le> mem_size v"
    and "mem_size v < 2 ^ 64" and "img_ftell f < 2 ^ 63"
  shows "(\<forall>x. x < load_addr \<or> mem_size v \<le> x \<longrightarrow> mem v' x = mem v x) \<and>
    (rc = 0 \<longleftrightarrow> img_opens f \<and> 0 \<le> img_fseek f \<and> 0 \<le> img_ftell f \<and>
       nat (img_ftell f) \<le> mem_size v - load_addr \<and> nat (img_ftell f) \<le> length (img_bytes f)) \<and>
    (rc = 0 \<longrightarrow> load_bytes (mem v') load_addr (nat (img_ftell f)) = take (nat (img_ftell f)) (img_bytes f)) \<and> closed = opened"
proof -
  have iff: "rc = 0 \<longleftrightarrow> img_opens f \<and> 0 \<le> img_fseek f \<and> 0 \<le> img_ftell f \<and>
       nat (img_ftell f) \<le> mem_size v - load_addr \<and> nat (img_ftell f) \<le> length (img_bytes f)"
    using assms by (auto simp: load_guest_image_def Let_def image_size_check split: if_splits)
  show ?thesis
    by (rule load_guest_image_cases [OF assms]) (use iff load_guest_image_closes [OF assms(1)] in \<open>auto simp: min_def\<close>)
qed

theorem load_guest_image_safe_witness:
  "load_bytes (mem (fst (snd (load_guest_image (blank_vm 0x10000) tiny_image GUEST_START_ADDR)))) GUEST_START_ADDR 3 =
     [0xf4, 0xeb, 0xfd]"
  using load_guest_image_safe [of "blank_vm 0x10000" tiny_image GUEST_START_ADDR 0
      "fst (snd (load_guest_image (blank_vm 0x10000) tiny_image GUEST_START_ADDR))" "[Stream]" "[Stream]"]
  by (simp add: load_guest_image_def tiny_image_def blank_vm_def GUEST_START_ADDR_def Let_def)

end
