(* ===== verification/Hv_State.thy ===== *)
theory Hv_State
  imports Kvm_Vm
begin

text \<open>
  The data the host components share: \<^verbatim>\<open>host/inc/file_io.hpp\<close>,
  \<^verbatim>\<open>host/inc/shared_buffer.hpp\<close> and \<^verbatim>\<open>host/inc/vm_runner.hpp\<close>. A mutex has no
  field: the steps of \<open>Shared_Buffer\<close> are what one thread does between acquiring the mutex and
  releasing it. A condition variable is the set of the machines whose threads sleep on it. \<open>std::size_t\<close> counters that the code keeps below a
  bound are \<open>nat\<close>; generations, flags and descriptors keep their width.
\<close>

subsection \<open>Open files of one guest\<close>

text \<open>The \<open>unordered_map\<close> is an association list: its order is an arbitrary iteration order.\<close>

record OpenFile =
  hostDescriptor :: int
  flags :: i32
  name :: string
  hostPath :: string
  shared :: bool

record FileState =
  openFiles :: "(i32 \<times> OpenFile) list"
  pendingResults :: "i32 list"
  nextDescriptor :: i32

definition initial_FileState :: FileState where
  "initial_FileState = \<lparr>openFiles = [], pendingResults = [], nextDescriptor = 3\<rparr>"

subsection \<open>The shared buffer and one machine's part in it\<close>

definition BUFFER_SIZE :: nat where "BUFFER_SIZE = 256"
definition SHARED_BUFFER_PORT :: u16 where "SHARED_BUFFER_PORT = 0x0510"
definition SHARED_BUFFER_STATUS_PORT :: u16 where "SHARED_BUFFER_STATUS_PORT = 0x0520"
definition VM_MODE_READER :: u8 where "VM_MODE_READER = 0"
definition VM_MODE_WRITER :: u8 where "VM_MODE_WRITER = 1"

lemmas shared_buffer_consts [hv_consts] =
  BUFFER_SIZE_def SHARED_BUFFER_PORT_def SHARED_BUFFER_STATUS_PORT_def VM_MODE_READER_def VM_MODE_WRITER_def

record SharedBufferState =
  sb_data :: "u8 list"
  sb_size :: nat
  expectedBytes :: nat
  receivedBytes :: nat
  readerCount :: nat
  completedReaders :: nat
  generation :: u64
  dataReady :: bool
  roundInProgress :: bool
  stopped :: bool
  condition :: "nat set"    \<comment> \<open>who sleeps on the condition variable\<close>

definition initial_SharedBufferState :: SharedBufferState where
  "initial_SharedBufferState = \<lparr>sb_data = replicate BUFFER_SIZE 0, sb_size = 0, expectedBytes = 0,
     receivedBytes = 0, readerCount = 0, completedReaders = 0, generation = 0, dataReady = False,
     roundInProgress = False, stopped = False, condition = {}\<rparr>"

record SharedBufferVmState =
  sb_mode :: u8
  readOffset :: nat
  lastReadGeneration :: u64
  activeReadGeneration :: u64
  writeGeneration :: u64
  modeDelivered :: bool
  readCompleted :: bool
  transferCompleted :: bool

definition initial_SharedBufferVmState :: SharedBufferVmState where
  "initial_SharedBufferVmState = \<lparr>sb_mode = VM_MODE_READER, readOffset = 0, lastReadGeneration = 0,
     activeReadGeneration = 0, writeGeneration = 0, modeDelivered = False, readCompleted = False,
     transferCompleted = False\<rparr>"

subsection \<open>State shared by all machines, and one machine's context\<close>

record SharedState =
  sharedFiles :: "string \<rightharpoonup> string"
  buffer_state :: SharedBufferState

definition initial_SharedState :: SharedState where
  "initial_SharedState = \<lparr>sharedFiles = Map.empty, buffer_state = initial_SharedBufferState\<rparr>"

text \<open>The pointer \<open>sharedState\<close> is passed as an argument of its own.\<close>

record GuestContext =
  gid :: nat
  memorySize :: nat
  pageSize :: nat
  imagePath :: string
  serialOutputBuffer :: string
  fileState :: FileState
  sharedBuffer :: SharedBufferVmState
  completedSuccessfully :: bool

definition initial_GuestContext :: GuestContext where
  "initial_GuestContext = \<lparr>gid = 0, memorySize = 0, pageSize = 0, imagePath = [],
     serialOutputBuffer = [], fileState = initial_FileState,
     sharedBuffer = initial_SharedBufferVmState, completedSuccessfully = False\<rparr>"

subsection \<open>Sizes of the I/O data area\<close>

text \<open>
  \<^verbatim>\<open>static_cast<std::size_t>\<close> of the mapping's size. The data of an exit lies at
  \<open>data_offset\<close>; the handlers use it only when it lies inside the mapping.
\<close>

definition mapping_size :: "vm \<Rightarrow> nat" where
  "mapping_size v = unat (word_of_int (run_mmap_size v) :: u64)"

definition data_in_mapping :: "vm \<Rightarrow> nat \<Rightarrow> bool" where
  "data_in_mapping v n \<longleftrightarrow>
     \<not> (unat (io_data_offset (io (run v))) > mapping_size v \<or>
        n > mapping_size v - unat (io_data_offset (io (run v))))"

lemma data_in_mapping_iff:
  "data_in_mapping v n \<longleftrightarrow> unat (io_data_offset (io (run v))) + n \<le> mapping_size v"
  by (auto simp: data_in_mapping_def)

text \<open>Storing into the I/O data area, and guest memory.\<close>

abbreviation set_run_data :: "vm \<Rightarrow> memory \<Rightarrow> vm" where
  "set_run_data v m \<equiv> v\<lparr>run := (run v)\<lparr>run_data := m\<rparr>\<rparr>"

end
