(* ===== verification/Host_Files.thy ===== *)
theory Host_Files
  imports Hv_Prelude "HOL-Library.Sublist"
begin

text \<open>
  The part of the standard library the file component calls: POSIX \<^verbatim>\<open>open\<close>, \<^verbatim>\<open>close\<close>,
  \<^verbatim>\<open>read\<close>, \<^verbatim>\<open>write\<close> and \<^verbatim>\<open>lseek\<close> on regular files, and the functions of
  \<^verbatim>\<open>std::filesystem\<close>. A host state holds a name space, inodes with their bytes, and the
  process's descriptor table. Each call may fail, or transfer less than asked, when the
  state's fault script says so; theorems quantify over every script, so they hold for
  every pattern of failures. Nothing here models a file of the repository.
\<close>

subsection \<open>State\<close>

type_synonym path = string

datatype access = O_RDONLY | O_WRONLY | O_RDWR

record host_flags =
  hf_access :: access
  hf_creat :: bool

record open_host =
  oh_inode :: nat
  oh_access :: access
  oh_offset :: nat

datatype fault = No_Fault | Fail | Short nat

record host =
  h_names :: "path \<rightharpoonup> nat"
  h_dirs :: "path \<Rightarrow> bool"
  h_data :: "nat \<Rightarrow> u8 list"
  h_owner_write :: "nat \<Rightarrow> bool"
  h_next :: nat                    \<comment> \<open>inodes from here on are unused\<close>
  h_fds :: "(nat \<times> open_host) list"
  h_faults :: "fault list"

definition take_fault :: "host \<Rightarrow> fault \<times> host" where
  "take_fault h = (case h_faults h of [] \<Rightarrow> (No_Fault, h) | f # fs \<Rightarrow> (f, h\<lparr>h_faults := fs\<rparr>))"

text \<open>POSIX: the lowest descriptor that is not open.\<close>

definition lowest_free :: "nat list \<Rightarrow> nat" where
  "lowest_free ds = (case find (\<lambda>d. d \<notin> set ds) [0..<Suc (length ds)] of Some d \<Rightarrow> d | None \<Rightarrow> 0)"

lemma lowest_free_fresh: "lowest_free ds \<notin> set ds"
proof -
  have "\<exists>d<Suc (length ds). d \<notin> set ds"
  proof (rule ccontr)
    assume "\<not> ?thesis"
    then have "{..<Suc (length ds)} \<subseteq> set ds" by auto
    then have "card {..<Suc (length ds)} \<le> card (set ds)" by (intro card_mono) auto
    then show False using card_length [of ds] by simp
  qed
  then have "find (\<lambda>d. d \<notin> set ds) [0..<Suc (length ds)] \<noteq> None"
    by (auto simp: find_None_iff simp del: upt_Suc)
  then obtain d where d: "find (\<lambda>d. d \<notin> set ds) [0..<Suc (length ds)] = Some d" by blast
  then have "d \<notin> set ds" by (auto simp: find_Some_iff simp del: upt_Suc)
  then show ?thesis unfolding lowest_free_def d by simp
qed

definition fd_lookup :: "host \<Rightarrow> int \<Rightarrow> open_host option" where
  "fd_lookup h d = (if d < 0 then None else map_of (h_fds h) (nat d))"

definition fd_update :: "host \<Rightarrow> int \<Rightarrow> open_host \<Rightarrow> host" where
  "fd_update h d f = h\<lparr>h_fds := map (\<lambda>(k, g). if int k = d then (k, f) else (k, g)) (h_fds h)\<rparr>"

definition fd_install :: "host \<Rightarrow> open_host \<Rightarrow> int \<times> host" where
  "fd_install h f = (let d = lowest_free (map fst (h_fds h)) in (int d, h\<lparr>h_fds := (d, f) # h_fds h\<rparr>))"

definition fd_remove :: "host \<Rightarrow> int \<Rightarrow> host" where
  "fd_remove h d = h\<lparr>h_fds := filter (\<lambda>(k, _). int k \<noteq> d) (h_fds h)\<rparr>"

definition parent_path :: "path \<Rightarrow> path" where
  "parent_path p = rev (tl (dropWhile (\<lambda>c. c \<noteq> CHR ''/'') (rev p)))"

definition file_name :: "path \<Rightarrow> string" where
  "file_name p = rev (takeWhile (\<lambda>c. c \<noteq> CHR ''/'') (rev p))"

subsection \<open>POSIX calls\<close>

definition os_open :: "host \<Rightarrow> path \<Rightarrow> host_flags \<Rightarrow> int \<times> host" where
  "os_open h p fl =
     (let (f, h) = take_fault h in
      if f = Fail then (-1, h) else
      case h_names h p of
        Some i \<Rightarrow>
          if hf_access fl \<noteq> O_RDONLY \<and> \<not> h_owner_write h i then (-1, h)
          else fd_install h \<lparr>oh_inode = i, oh_access = hf_access fl, oh_offset = 0\<rparr>
      | None \<Rightarrow>
          if \<not> hf_creat fl \<or> h_dirs h p \<or> \<not> h_dirs h (parent_path p) then (-1, h)
          else fd_install
                 (h\<lparr>h_names := (h_names h)(p \<mapsto> h_next h), h_data := (h_data h)(h_next h := []),
                    h_owner_write := (h_owner_write h)(h_next h := True), h_next := Suc (h_next h)\<rparr>)
                 \<lparr>oh_inode = h_next h, oh_access = hf_access fl, oh_offset = 0\<rparr>)"

text \<open>A failing \<^verbatim>\<open>close\<close> releases the descriptor nevertheless, as on Linux.\<close>

definition os_close :: "host \<Rightarrow> int \<Rightarrow> int \<times> host" where
  "os_close h d =
     (let (f, h) = take_fault h in
      if fd_lookup h d = None then (-1, h)
      else ((if f = Fail then -1 else 0), fd_remove h d))"

text \<open>\<open>None\<close> is the result -1. A short transfer moves at least one byte.\<close>

definition transfer :: "fault \<Rightarrow> nat \<Rightarrow> nat" where
  "transfer f n = (case f of Short k \<Rightarrow> min n (max 1 k) | _ \<Rightarrow> n)"

definition os_read :: "host \<Rightarrow> int \<Rightarrow> nat \<Rightarrow> u8 list option \<times> host" where
  "os_read h d n =
     (let (f, h) = take_fault h in
      case fd_lookup h d of None \<Rightarrow> (None, h) | Some g \<Rightarrow>
      if f = Fail \<or> oh_access g = O_WRONLY then (None, h)
      else let bytes = take (transfer f n) (drop (oh_offset g) (h_data h (oh_inode g)))
           in (Some bytes, fd_update h d (g\<lparr>oh_offset := oh_offset g + length bytes\<rparr>)))"

text \<open>Writing behind the end fills the gap with zeros.\<close>

definition patch :: "u8 list \<Rightarrow> nat \<Rightarrow> u8 list \<Rightarrow> u8 list" where
  "patch file off bs =
     take off (file @ replicate (off - length file) 0) @ bs @ drop (off + length bs) file"

definition os_write :: "host \<Rightarrow> int \<Rightarrow> u8 list \<Rightarrow> int \<times> host" where
  "os_write h d bs =
     (let (f, h) = take_fault h in
      case fd_lookup h d of None \<Rightarrow> (-1, h) | Some g \<Rightarrow>
      if f = Fail \<or> oh_access g = O_RDONLY then (-1, h)
      else let bs = take (transfer f (length bs)) bs;
               h = h\<lparr>h_data := (h_data h)(oh_inode g := patch (h_data h (oh_inode g)) (oh_offset g) bs)\<rparr>
           in (int (length bs), fd_update h d (g\<lparr>oh_offset := oh_offset g + length bs\<rparr>)))"

datatype whence = W_SET | W_CUR | W_END

definition os_lseek :: "host \<Rightarrow> int \<Rightarrow> int \<Rightarrow> whence \<Rightarrow> int \<times> host" where
  "os_lseek h d off w =
     (let (f, h) = take_fault h in
      case fd_lookup h d of None \<Rightarrow> (-1, h) | Some g \<Rightarrow>
      let base = (case w of W_SET \<Rightarrow> 0 | W_CUR \<Rightarrow> int (oh_offset g) | W_END \<Rightarrow> int (length (h_data h (oh_inode g))))
      in if f = Fail \<or> base + off < 0 then (-1, h)
         else (base + off, fd_update h d (g\<lparr>oh_offset := nat (base + off)\<rparr>)))"

subsection \<open>\<^verbatim>\<open>std::filesystem\<close>\<close>

text \<open>\<open>exists(p, error) && !error\<close>.\<close>

definition fs_exists :: "host \<Rightarrow> path \<Rightarrow> bool \<times> host" where
  "fs_exists h p =
     (let (f, h) = take_fault h in (f \<noteq> Fail \<and> (h_names h p \<noteq> None \<or> h_dirs h p), h))"

text \<open>The first component of the remaining results tells whether \<open>error\<close> was set.\<close>

definition ancestors :: "path \<Rightarrow> path list" where
  "ancestors p = p # map (\<lambda>i. take i p) (filter (\<lambda>i. p ! i = CHR ''/'') [0..<length p])"

definition fs_create_directories :: "host \<Rightarrow> path \<Rightarrow> bool \<times> host" where
  "fs_create_directories h p =
     (let (f, h) = take_fault h in
      if f = Fail \<or> (\<exists>q\<in>set (ancestors p). h_names h q \<noteq> None) then (True, h)
      else (False, h\<lparr>h_dirs := (\<lambda>q. h_dirs h q \<or> q \<in> set (ancestors p))\<rparr>))"

text \<open>
  \<^verbatim>\<open>copy_file\<close> without options: the target must not exist; permissions are copied. A copy
  that is cut short leaves a partial target behind and reports an error.
\<close>

definition fs_copy_file :: "host \<Rightarrow> path \<Rightarrow> path \<Rightarrow> bool \<times> host" where
  "fs_copy_file h src dst =
     (let (f, h) = take_fault h in
      case h_names h src of None \<Rightarrow> (True, h) | Some i \<Rightarrow>
      if f = Fail \<or> h_names h dst \<noteq> None \<or> h_dirs h dst \<or> \<not> h_dirs h (parent_path dst) then (True, h)
      else ((case f of Short k \<Rightarrow> True | _ \<Rightarrow> False),
            h\<lparr>h_names := (h_names h)(dst \<mapsto> h_next h),
              h_data := (h_data h)(h_next h := (case f of Short k \<Rightarrow> take k (h_data h i) | _ \<Rightarrow> h_data h i)),
              h_owner_write := (h_owner_write h)(h_next h := h_owner_write h i),
              h_next := Suc (h_next h)\<rparr>))"

definition fs_remove :: "host \<Rightarrow> path \<Rightarrow> host" where
  "fs_remove h p =
     (let (f, h) = take_fault h in
      if f = Fail then h else h\<lparr>h_names := (h_names h)(p := None)\<rparr>)"

text \<open>\<open>permissions(p, owner_write, add, error)\<close>.\<close>

definition fs_add_owner_write :: "host \<Rightarrow> path \<Rightarrow> bool \<times> host" where
  "fs_add_owner_write h p =
     (let (f, h) = take_fault h in
      case h_names h p of None \<Rightarrow> (True, h) | Some i \<Rightarrow>
      if f = Fail then (True, h)
      else (False, h\<lparr>h_owner_write := (h_owner_write h)(i := True)\<rparr>))"

subsection \<open>Basic facts\<close>

lemma take_fault_fields [simp]:
  "h_names (snd (take_fault h)) = h_names h" "h_dirs (snd (take_fault h)) = h_dirs h"
  "h_data (snd (take_fault h)) = h_data h" "h_owner_write (snd (take_fault h)) = h_owner_write h"
  "h_next (snd (take_fault h)) = h_next h" "h_fds (snd (take_fault h)) = h_fds h"
  "fd_lookup (snd (take_fault h)) d = fd_lookup h d"
  by (simp_all add: take_fault_def fd_lookup_def split: list.split)

lemma take_fault_none: "h_faults h = [] \<Longrightarrow> take_fault h = (No_Fault, h)"
  by (simp add: take_fault_def)

lemma length_patch: "length (patch file off bs) = max (length file) (off + length bs)"
  by (auto simp: patch_def max_def min_def)

lemma patch_read_back: "take (length bs) (drop off (patch file off bs)) = bs"
  by (simp add: patch_def)

lemma patch_before: "off \<le> length file \<Longrightarrow> take off (patch file off bs) = take off file"
  by (simp add: patch_def)

lemma patch_after: "off + length bs \<le> n \<Longrightarrow> drop n (patch file off bs) = drop n file"
proof -
  assume "off + length bs \<le> n"
  then obtain k where "n = off + length bs + k" by (metis le_add_diff_inverse)
  moreover have "length (take off (file @ replicate (off - length file) 0)) = off" by simp
  ultimately show ?thesis unfolding patch_def by (simp add: add.commute add.left_commute del: length_take)
qed

lemma file_name_local: "CHR ''/'' \<notin> set n \<Longrightarrow> file_name (d @ ''/'' @ n) = n"
  by (simp add: file_name_def takeWhile_append)

lemma file_name_no_slash: "CHR ''/'' \<notin> set (file_name p)"
  unfolding file_name_def by (metis (mono_tags, lifting) set_rev set_takeWhileD)

lemma parent_path_local: "CHR ''/'' \<notin> set n \<Longrightarrow> parent_path (d @ ''/'' @ n) = d"
  by (simp add: parent_path_def dropWhile_append)

subsection \<open>The descriptor table\<close>

lemma fd_lookup_negative [simp]: "d < 0 \<Longrightarrow> fd_lookup h d = None"
  by (simp add: fd_lookup_def)

lemma fd_lookup_update [simp]:
  "fd_lookup (fd_update h d f) e = (if e = d then map_option (\<lambda>_. f) (fd_lookup h d) else fd_lookup h e)"
proof -
  have "map_of (map (\<lambda>(k, g). if int k = d then (k, f) else (k, g)) xs) n =
      (if int n = d then map_option (\<lambda>_. f) (map_of xs n) else map_of xs n)" for xs n
    by (induction xs) (auto split: if_splits)
  then show ?thesis by (auto simp: fd_lookup_def fd_update_def)
qed

lemma fd_lookup_remove [simp]:
  "fd_lookup (fd_remove h d) e = (if e = d then None else fd_lookup h e)"
proof -
  have "map_of (filter (\<lambda>(k, _). int k \<noteq> d) xs) n = (if int n = d then None else map_of xs n)" for xs :: "(nat \<times> open_host) list" and n
    by (induction xs) auto
  then show ?thesis by (auto simp: fd_lookup_def fd_remove_def)
qed

lemma fd_install_fresh: "fd_lookup h (fst (fd_install h f)) = None"
  using lowest_free_fresh [of "map fst (h_fds h)"]
  by (simp add: fd_install_def fd_lookup_def Let_def map_of_eq_None_iff image_image)

lemma fd_install_nonneg: "0 \<le> fst (fd_install h f)"
  by (simp add: fd_install_def Let_def)

lemma fd_lookup_install:
  "fd_lookup (snd (fd_install h f)) e = (if e = fst (fd_install h f) then Some f else fd_lookup h e)"
  by (auto simp: fd_install_def fd_lookup_def Let_def)

lemma fd_ops_fields [simp]:
  "h_names (fd_update h d f) = h_names h" "h_names (fd_remove h d) = h_names h"
  "h_names (snd (fd_install h f)) = h_names h"
  "h_data (fd_update h d f) = h_data h" "h_data (fd_remove h d) = h_data h"
  "h_data (snd (fd_install h f)) = h_data h"
  "h_next (fd_update h d f) = h_next h" "h_next (fd_remove h d) = h_next h"
  "h_next (snd (fd_install h f)) = h_next h"
  "h_dirs (fd_update h d f) = h_dirs h" "h_dirs (fd_remove h d) = h_dirs h"
  "h_dirs (snd (fd_install h f)) = h_dirs h"
  "h_owner_write (fd_update h d f) = h_owner_write h" "h_owner_write (fd_remove h d) = h_owner_write h"
  "h_owner_write (snd (fd_install h f)) = h_owner_write h"
  "h_faults (fd_update h d f) = h_faults h" "h_faults (fd_remove h d) = h_faults h"
  "h_faults (snd (fd_install h f)) = h_faults h"
  by (simp_all add: fd_update_def fd_remove_def fd_install_def Let_def)

lemma fd_lookup_fields [simp]:
  "fd_lookup (h\<lparr>h_names := a\<rparr>) d = fd_lookup h d" "fd_lookup (h\<lparr>h_data := b\<rparr>) d = fd_lookup h d"
  "fd_lookup (h\<lparr>h_owner_write := c\<rparr>) d = fd_lookup h d" "fd_lookup (h\<lparr>h_next := n\<rparr>) d = fd_lookup h d"
  "fd_lookup (h\<lparr>h_dirs := e\<rparr>) d = fd_lookup h d" "fd_lookup (h\<lparr>h_faults := fs\<rparr>) d = fd_lookup h d"
  by (simp_all add: fd_lookup_def)

end
