(* ===== verification/File_Protocol.thy ===== *)
theory File_Protocol
  imports Guest_Memory
begin

text \<open>
  \<^verbatim>\<open>common/file_protocol.h\<close>: the request that guest and host exchange through guest memory,
  its binary layout, and the flag tests of \<^verbatim>\<open>host/src/file_io.cpp\<close> that interpret it.
\<close>

subsection \<open>Constants\<close>

definition FILE_IO_PORT :: u16 where "FILE_IO_PORT = 0x0278"
definition FILE_NAME_MAX :: nat where "FILE_NAME_MAX = 255"
definition FILE_OPERATION_OPEN :: u32 where "FILE_OPERATION_OPEN = 1"
definition FILE_OPERATION_CLOSE :: u32 where "FILE_OPERATION_CLOSE = 2"
definition FILE_OPERATION_READ :: u32 where "FILE_OPERATION_READ = 3"
definition FILE_OPERATION_WRITE :: u32 where "FILE_OPERATION_WRITE = 4"
definition FILE_OPERATION_LSEEK :: u32 where "FILE_OPERATION_LSEEK = 5"
definition FILE_OPEN_READ :: i32 where "FILE_OPEN_READ = 1"
definition FILE_OPEN_WRITE :: i32 where "FILE_OPEN_WRITE = 2"
definition FILE_OPEN_READ_WRITE :: i32 where "FILE_OPEN_READ_WRITE = 4"
definition FILE_OPEN_CREATE :: i32 where "FILE_OPEN_CREATE = 8"
definition FILE_SEEK_SET :: i32 where "FILE_SEEK_SET = 1"
definition FILE_SEEK_END :: i32 where "FILE_SEEK_END = 2"

lemmas file_operations [hv_consts] =
  FILE_OPERATION_OPEN_def FILE_OPERATION_CLOSE_def FILE_OPERATION_READ_def
  FILE_OPERATION_WRITE_def FILE_OPERATION_LSEEK_def

lemmas open_flags [hv_consts] =
  FILE_OPEN_READ_def FILE_OPEN_WRITE_def FILE_OPEN_READ_WRITE_def FILE_OPEN_CREATE_def

lemmas file_consts [hv_consts] =
  FILE_IO_PORT_def FILE_NAME_MAX_def FILE_SEEK_SET_def FILE_SEEK_END_def

subsection \<open>The request and its layout\<close>

record file_request =
  req_operation :: u32
  req_descriptor :: i32
  req_buffer :: u32
  req_count :: i32
  req_offset :: i32
  req_flags :: i32

definition file_request_size :: nat where "file_request_size = 24"

text \<open>What the guest leaves in memory, and what the host's \<^verbatim>\<open>memcpy\<close> reads.\<close>

definition encode_request :: "file_request \<Rightarrow> u8 list" where
  "encode_request r =
     le_bytes 4 (req_operation r) @ le_bytes 4 (req_descriptor r) @ le_bytes 4 (req_buffer r) @
     le_bytes 4 (req_count r) @ le_bytes 4 (req_offset r) @ le_bytes 4 (req_flags r)"

definition decode_request :: "memory \<Rightarrow> nat \<Rightarrow> file_request" where
  "decode_request m a =
     \<lparr>req_operation = load32 m a, req_descriptor = load32 m (a + 4), req_buffer = load32 m (a + 8),
      req_count = load32 m (a + 12), req_offset = load32 m (a + 16), req_flags = load32 m (a + 20)\<rparr>"

lemma length_encode_request [simp]: "length (encode_request r) = file_request_size"
  by (simp add: encode_request_def file_request_size_def)

lemma load32_take_drop:
  "i + 4 \<le> length bs \<Longrightarrow> load32 (store_bytes m a bs) (a + i) = le_word (take 4 (drop i bs))"
  unfolding load32_def by (rule arg_cong [where f = le_word], rule nth_equalityI)
    (auto simp: store_bytes_def)

lemma decode_encode:
  "decode_request (store_bytes m a (encode_request r)) a = r"
proof -
  let ?bs = "encode_request r"
  have l: "i + 4 \<le> length ?bs" if "i \<le> 20" for i using that by (simp add: file_request_size_def)
  note ld = load32_take_drop [OF l, of _ m a]
  have "load32 (store_bytes m a ?bs) a = req_operation r"
    using ld [of 0] by (simp add: encode_request_def)
  moreover have "load32 (store_bytes m a ?bs) (a + 4) = req_descriptor r"
    using ld [of 4] by (simp add: encode_request_def)
  moreover have "load32 (store_bytes m a ?bs) (a + 8) = req_buffer r"
    using ld [of 8] by (simp add: encode_request_def)
  moreover have "load32 (store_bytes m a ?bs) (a + 12) = req_count r"
    using ld [of 12] by (simp add: encode_request_def)
  moreover have "load32 (store_bytes m a ?bs) (a + 16) = req_offset r"
    using ld [of 16] by (simp add: encode_request_def)
  moreover have "load32 (store_bytes m a ?bs) (a + 20) = req_flags r"
    using ld [of 20] by (simp add: encode_request_def)
  ultimately show ?thesis by (simp add: decode_request_def)
qed

lemma encode_decode: "encode_request (decode_request m a) = load_bytes m a file_request_size"
proof -
  have word: "le_bytes 4 (load32 m b) = load_bytes m b 4" for b
    using le_bytes_le_word [of "load_bytes m b 4", where 'a = 32] by (simp add: load32_def)
  have "load_bytes m a 24 = load_bytes m a 4 @ load_bytes m (a + 4) 4 @ load_bytes m (a + 8) 4 @ load_bytes m (a + 12) 4 @
      load_bytes m (a + 16) 4 @ load_bytes m (a + 20) 4"
    using load_bytes_append [of m a 4 20] load_bytes_append [of m "a + 4" 4 16] load_bytes_append [of m "a + 8" 4 12]
      load_bytes_append [of m "a + 12" 4 8] load_bytes_append [of m "a + 16" 4 4] by (simp add: add.commute)
  then show ?thesis by (simp add: encode_request_def decode_request_def word file_request_size_def)
qed

subsection \<open>File names and open flags\<close>

definition isLetter :: "char \<Rightarrow> bool" where
  "isLetter c \<longleftrightarrow> (of_char c \<ge> (of_char CHR ''a'' :: nat) \<and> of_char c \<le> (of_char CHR ''z'' :: nat)) \<or>
                  (of_char c \<ge> (of_char CHR ''A'' :: nat) \<and> of_char c \<le> (of_char CHR ''Z'' :: nat))"

definition isDigit :: "char \<Rightarrow> bool" where
  "isDigit c \<longleftrightarrow> of_char c \<ge> (of_char CHR ''0'' :: nat) \<and> of_char c \<le> (of_char CHR ''9'' :: nat)"

fun all_name_characters :: "string \<Rightarrow> bool" where
  "all_name_characters [] = True"
| "all_name_characters (c # cs) =
     (if \<not> isLetter c \<and> \<not> isDigit c \<and> c \<noteq> CHR ''.'' then False else all_name_characters cs)"

definition isValidGuestFileName :: "string \<Rightarrow> bool" where
  "isValidGuestFileName n = (if n = [] \<or> \<not> isLetter (hd n) then False else all_name_characters n)"

definition access_mode :: "i32 \<Rightarrow> i32" where
  "access_mode fl = fl AND (FILE_OPEN_READ OR FILE_OPEN_WRITE OR FILE_OPEN_READ_WRITE)"

definition hasReadAccess :: "i32 \<Rightarrow> bool" where
  "hasReadAccess fl \<longleftrightarrow> access_mode fl = FILE_OPEN_READ \<or> access_mode fl = FILE_OPEN_READ_WRITE"

definition hasWriteAccess :: "i32 \<Rightarrow> bool" where
  "hasWriteAccess fl \<longleftrightarrow> access_mode fl = FILE_OPEN_WRITE \<or> access_mode fl = FILE_OPEN_READ_WRITE"

definition areValidOpenFlags :: "i32 \<Rightarrow> bool" where
  "areValidOpenFlags fl =
     (let accessMask = FILE_OPEN_READ OR FILE_OPEN_WRITE OR FILE_OPEN_READ_WRITE;
          allowedMask = accessMask OR FILE_OPEN_CREATE
      in if fl AND NOT allowedMask \<noteq> 0 then False
         else let accessMode = fl AND accessMask
              in accessMode = FILE_OPEN_READ \<or> accessMode = FILE_OPEN_WRITE \<or> accessMode = FILE_OPEN_READ_WRITE)"

lemma all_name_characters_iff:
  "all_name_characters n \<longleftrightarrow> (\<forall>c\<in>set n. isLetter c \<or> isDigit c \<or> c = CHR ''.'')"
  by (induction n) auto

lemma valid_name_no_slash: "isValidGuestFileName n \<Longrightarrow> CHR ''/'' \<notin> set n"
  unfolding isValidGuestFileName_def all_name_characters_iff
  by (auto split: if_splits) (auto simp: isLetter_def isDigit_def)

lemma and_single_bit: "(x :: 'a::len word) AND push_bit k 1 = (if bit x k then push_bit k 1 else 0)"
  by (rule bit_word_eqI) (auto simp: bit_simps)

lemma areValidOpenFlags_iff:
  "areValidOpenFlags fl \<longleftrightarrow> fl \<in> {1, 2, 4, 9, 10, 12}"
proof
  assume "areValidOpenFlags fl"
  then have z: "fl AND NOT 15 = 0" and a: "fl AND 7 \<in> {1, 2, 4}"
    by (auto simp: areValidOpenFlags_def open_flags Let_def split: if_splits)
  have "fl = (fl AND 7) OR (fl AND 8)"
  proof -
    have "fl = (fl AND NOT 15) OR (fl AND 15)" by (simp add: bit.conj_disj_distrib [symmetric] ac_simps flip: bit.conj_disj_distrib)
    then have "fl = fl AND 15" using z by simp
    also have "\<dots> = fl AND (7 OR 8)" by simp
    finally show ?thesis by (simp only: bit.conj_disj_distrib)
  qed
  moreover have "fl AND 8 = 0 \<or> fl AND 8 = 8"
    using and_single_bit [of fl 3] by (simp split: if_splits)
  ultimately show "fl \<in> {1, 2, 4, 9, 10, 12}" using a by auto
qed (auto simp: areValidOpenFlags_def open_flags Let_def)

end
