(* ===== verification/File_Io.thy ===== *)
theory File_Io
  imports Hv_State Host_Files File_Protocol
begin

text \<open>
  \<^verbatim>\<open>host/src/file_io.cpp\<close>: the guest's file requests. Each function takes the guest's
  context, the virtual machine and the host state and returns those it changes. A request
  is handled as one step: the machines' threads meet here only in the host's name space,
  where each writes below its own directory.
\<close>

subsection \<open>Guest memory and names\<close>

definition getGuestMemory :: "vm \<Rightarrow> u32 \<Rightarrow> nat \<Rightarrow> nat option" where
  "getGuestMemory v address n =
     (let guestAddress = unat address in
      if guestAddress > mem_size v \<or> n > mem_size v - guestAddress then None
      else Some guestAddress)"

function scan_name :: "memory \<Rightarrow> nat \<Rightarrow> nat \<Rightarrow> nat \<Rightarrow> string option" where
  "scan_name m start available len =
     (if len \<le> FILE_NAME_MAX \<and> len < available then
        if m (start + len) = 0 then
          let n = map (\<lambda>b. char_of (unat b)) (load_bytes m start len)
          in if isValidGuestFileName n then Some n else None
        else scan_name m start available (Suc len)
      else None)"
  by pat_completeness auto
termination
  by (relation "measure (\<lambda>(m, start, available, len). available - len)") auto

declare scan_name.simps [simp del]

definition readGuestFileName :: "vm \<Rightarrow> u32 \<Rightarrow> string option" where
  "readGuestFileName v address =
     (case getGuestMemory v address 1 of None \<Rightarrow> None
      | Some start \<Rightarrow> scan_name (mem v) start (mem_size v - unat address) 0)"

subsection \<open>Paths and flags\<close>

definition toHostOpenFlags :: "i32 \<Rightarrow> host_flags" where
  "toHostOpenFlags fl =
     \<lparr>hf_access = (if access_mode fl = FILE_OPEN_READ then O_RDONLY
                   else if access_mode fl = FILE_OPEN_WRITE then O_WRONLY else O_RDWR),
      hf_creat = (fl AND FILE_OPEN_CREATE \<noteq> 0)\<rparr>"

definition local_path :: "nat \<Rightarrow> string \<Rightarrow> path" where
  "local_path vm_id n = (''vm_files/vm_'' @ show_nat vm_id) @ ''/'' @ n"

record ResolvedFile =
  rf_path :: path
  rf_shared :: bool

definition resolveFile :: "GuestContext \<Rightarrow> SharedState \<Rightarrow> host \<Rightarrow> string \<Rightarrow> ResolvedFile \<times> host" where
  "resolveFile c ss h n =
     (let localPath = local_path (gid c) n; (there, h) = fs_exists h localPath in
      if there then (\<lparr>rf_path = localPath, rf_shared = False\<rparr>, h)
      else case sharedFiles ss n of
             Some p \<Rightarrow> (\<lparr>rf_path = p, rf_shared = True\<rparr>, h)
           | None \<Rightarrow> (\<lparr>rf_path = localPath, rf_shared = False\<rparr>, h))"

subsection \<open>Copy on write\<close>

text \<open>A \<open>ReopenedFile\<close>: the key of the table entry and the new host descriptor.\<close>

type_synonym reopened = "i32 \<times> int"

fun closeReopenedFiles :: "reopened list \<Rightarrow> host \<Rightarrow> host" where
  "closeReopenedFiles [] h = h"
| "closeReopenedFiles ((k, d) # rs) h = closeReopenedFiles rs (snd (os_close h d))"

text \<open>The first loop of \<open>reopenSharedFiles\<close>; \<open>None\<close> is an early \<^verbatim>\<open>return false\<close>.\<close>

fun reopen_scan ::
  "string \<Rightarrow> path \<Rightarrow> (i32 \<times> OpenFile) list \<Rightarrow> reopened list \<Rightarrow> host \<Rightarrow> reopened list option \<times> host" where
  "reopen_scan n localPath [] rs h = (Some rs, h)"
| "reopen_scan n localPath ((k, f) # fs) rs h =
     (if \<not> shared f \<or> name f \<noteq> n then reopen_scan n localPath fs rs h else
      let (off, h) = os_lseek h (hostDescriptor f) 0 W_CUR in
      if off < 0 then (None, closeReopenedFiles rs h) else
      let (d, h) = os_open h localPath (toHostOpenFlags (flags f)) in
      if d < 0 then (None, closeReopenedFiles rs h) else
      let (pos, h) = os_lseek h d off W_SET in
      if pos < 0 then (None, closeReopenedFiles rs (snd (os_close h d)))
      else reopen_scan n localPath fs (rs @ [(k, d)]) h)"

definition update_entry :: "i32 \<Rightarrow> (OpenFile \<Rightarrow> OpenFile) \<Rightarrow> (i32 \<times> OpenFile) list \<Rightarrow> (i32 \<times> OpenFile) list" where
  "update_entry k g t = map (\<lambda>(k', f). if k' = k then (k', g f) else (k', f)) t"

text \<open>The second loop: every matching entry moves to its new descriptor.\<close>

fun reopen_commit ::
  "path \<Rightarrow> reopened list \<Rightarrow> (i32 \<times> OpenFile) list \<Rightarrow> host \<Rightarrow> (i32 \<times> OpenFile) list \<times> host" where
  "reopen_commit localPath [] t h = (t, h)"
| "reopen_commit localPath ((k, d) # rs) t h =
     (let h = (case map_of t k of None \<Rightarrow> h | Some f \<Rightarrow> snd (os_close h (hostDescriptor f)));
          t = update_entry k (\<lambda>f. f\<lparr>hostDescriptor := d, hostPath := localPath, shared := False\<rparr>) t
      in reopen_commit localPath rs t h)"

definition set_openFiles :: "GuestContext \<Rightarrow> (i32 \<times> OpenFile) list \<Rightarrow> GuestContext" where
  "set_openFiles c t = c\<lparr>fileState := (fileState c)\<lparr>openFiles := t\<rparr>\<rparr>"

definition reopenSharedFiles :: "GuestContext \<Rightarrow> host \<Rightarrow> string \<Rightarrow> path \<Rightarrow> bool \<times> GuestContext \<times> host" where
  "reopenSharedFiles c h n localPath =
     (case reopen_scan n localPath (openFiles (fileState c)) [] h of
        (None, h) \<Rightarrow> (False, c, h)
      | (Some rs, h) \<Rightarrow>
          let (t, h) = reopen_commit localPath rs (openFiles (fileState c)) h
          in (rs \<noteq> [], set_openFiles c t, h))"

definition prepareFileForWrite :: "GuestContext \<Rightarrow> host \<Rightarrow> OpenFile \<Rightarrow> bool \<times> GuestContext \<times> host" where
  "prepareFileForWrite c h f =
     (if \<not> shared f then (True, c, h) else
      let localPath = local_path (gid c) (name f);
          (err, h) = fs_create_directories h (parent_path localPath) in
      if err then (False, c, h) else
      let (err, h) = fs_copy_file h (hostPath f) localPath in
      if err then (False, c, fs_remove h localPath) else
      let (err, h) = fs_add_owner_write h localPath in
      if err then (False, c, fs_remove h localPath) else
      let (ok, c, h) = reopenSharedFiles c h (name f) localPath in
      if \<not> ok then (False, c, fs_remove h localPath)
      else (True, c, h))"

subsection \<open>The five operations\<close>

definition emplace :: "i32 \<Rightarrow> OpenFile \<Rightarrow> (i32 \<times> OpenFile) list \<Rightarrow> (i32 \<times> OpenFile) list" where
  "emplace k f t = (if map_of t k = None then (k, f) # t else t)"

definition erase :: "i32 \<Rightarrow> (i32 \<times> OpenFile) list \<Rightarrow> (i32 \<times> OpenFile) list" where
  "erase k t = filter (\<lambda>(k', _). k' \<noteq> k) t"

definition openFile ::
  "GuestContext \<Rightarrow> SharedState \<Rightarrow> vm \<Rightarrow> host \<Rightarrow> file_request \<Rightarrow> int \<times> GuestContext \<times> host" where
  "openFile c ss v h r =
     (if \<not> areValidOpenFlags (req_flags r) then (-1, c, h) else
      case readGuestFileName v (req_buffer r) of None \<Rightarrow> (-1, c, h) | Some n \<Rightarrow>
      let (rf, h) = resolveFile c ss h n;
          (err, h) = (if \<not> rf_shared rf \<and> req_flags r AND FILE_OPEN_CREATE \<noteq> 0
                      then fs_create_directories h (parent_path (rf_path rf)) else (False, h))
      in if err then (-1, c, h) else
      let hostFlags = (if rf_shared rf then \<lparr>hf_access = O_RDONLY, hf_creat = False\<rparr>
                       else toHostOpenFlags (req_flags r));
          (d, h) = os_open h (rf_path rf) hostFlags
      in if d < 0 then (-1, c, h) else
      let descriptor = nextDescriptor (fileState c);
          c = c\<lparr>fileState := (fileState c)\<lparr>nextDescriptor := descriptor + 1\<rparr>\<rparr>;
          c = set_openFiles c (emplace descriptor
                \<lparr>hostDescriptor = d, flags = req_flags r, name = n, hostPath = rf_path rf, shared = rf_shared rf\<rparr>
                (openFiles (fileState c)))
      in (sint descriptor, c, h))"

definition closeFile :: "GuestContext \<Rightarrow> host \<Rightarrow> i32 \<Rightarrow> int \<times> GuestContext \<times> host" where
  "closeFile c h descriptor =
     (case map_of (openFiles (fileState c)) descriptor of None \<Rightarrow> (-1, c, h) | Some f \<Rightarrow>
      let (result, h) = os_close h (hostDescriptor f);
          c = set_openFiles c (erase descriptor (openFiles (fileState c)))
      in ((if result = 0 then 0 else -1), c, h))"

definition readFile :: "GuestContext \<Rightarrow> vm \<Rightarrow> host \<Rightarrow> file_request \<Rightarrow> int \<times> vm \<times> host" where
  "readFile c v h r =
     (case map_of (openFiles (fileState c)) (req_descriptor r) of None \<Rightarrow> (-1, v, h) | Some f \<Rightarrow>
      if \<not> hasReadAccess (flags f) \<or> sint (req_count r) < 0 then (-1, v, h) else
      if sint (req_count r) = 0 then (0, v, h) else
      case getGuestMemory v (req_buffer r) (nat (sint (req_count r))) of None \<Rightarrow> (-1, v, h) | Some buf \<Rightarrow>
      case os_read h (hostDescriptor f) (nat (sint (req_count r))) of
        (None, h) \<Rightarrow> (-1, v, h)
      | (Some bytes, h) \<Rightarrow> (int (length bytes), v\<lparr>mem := store_bytes (mem v) buf bytes\<rparr>, h))"

definition writeFile ::
  "GuestContext \<Rightarrow> vm \<Rightarrow> host \<Rightarrow> file_request \<Rightarrow> int \<times> GuestContext \<times> host" where
  "writeFile c v h r =
     (case map_of (openFiles (fileState c)) (req_descriptor r) of None \<Rightarrow> (-1, c, h) | Some f \<Rightarrow>
      if \<not> hasWriteAccess (flags f) \<or> sint (req_count r) < 0 then (-1, c, h) else
      let (ok, c, h) = prepareFileForWrite c h f in
      if \<not> ok then (-1, c, h) else
      if sint (req_count r) = 0 then (0, c, h) else
      case getGuestMemory v (req_buffer r) (nat (sint (req_count r))) of None \<Rightarrow> (-1, c, h) | Some buf \<Rightarrow>
      case map_of (openFiles (fileState c)) (req_descriptor r) of None \<Rightarrow> (-1, c, h) | Some f \<Rightarrow>
      let (result, h) = os_write h (hostDescriptor f) (load_bytes (mem v) buf (nat (sint (req_count r))))
      in ((if result < 0 then -1 else result), c, h))"

definition seekFile :: "GuestContext \<Rightarrow> host \<Rightarrow> file_request \<Rightarrow> int \<times> host" where
  "seekFile c h r =
     (case map_of (openFiles (fileState c)) (req_descriptor r) of None \<Rightarrow> (-1, h) | Some f \<Rightarrow>
      let target = (if req_flags r = FILE_SEEK_SET then Some (W_SET, sint (req_offset r))
                    else if req_flags r = FILE_SEEK_END then Some (W_END, 0) else None)
      in case target of None \<Rightarrow> (-1, h) | Some (hostWhence, off) \<Rightarrow>
      let (result, h) = os_lseek h (hostDescriptor f) off hostWhence
      in if result < 0 \<or> result > 2 ^ 31 - 1 then (-1, h) else (result, h))"

definition processFileRequest ::
  "GuestContext \<Rightarrow> SharedState \<Rightarrow> vm \<Rightarrow> host \<Rightarrow> file_request \<Rightarrow> int \<times> GuestContext \<times> vm \<times> host" where
  "processFileRequest c ss v h r =
     (if req_operation r = FILE_OPERATION_OPEN then
        let (x, c, h) = openFile c ss v h r in (x, c, v, h)
      else if req_operation r = FILE_OPERATION_CLOSE then
        let (x, c, h) = closeFile c h (req_descriptor r) in (x, c, v, h)
      else if req_operation r = FILE_OPERATION_READ then
        let (x, v, h) = readFile c v h r in (x, c, v, h)
      else if req_operation r = FILE_OPERATION_WRITE then
        let (x, c, h) = writeFile c v h r in (x, c, v, h)
      else if req_operation r = FILE_OPERATION_LSEEK then
        let (x, h) = seekFile c h r in (x, c, v, h)
      else (-1, c, v, h))"

subsection \<open>The port handler\<close>

definition push_result :: "GuestContext \<Rightarrow> int \<Rightarrow> GuestContext" where
  "push_result c x =
     c\<lparr>fileState := (fileState c)\<lparr>pendingResults := pendingResults (fileState c) @ [word_of_int x]\<rparr>\<rparr>"

definition handleFileIo ::
  "GuestContext \<Rightarrow> SharedState \<Rightarrow> vm \<Rightarrow> host \<Rightarrow> bool \<times> GuestContext \<times> vm \<times> host" where
  "handleFileIo c ss v h =
     (let i = io (run v) in
      if io_port i \<noteq> FILE_IO_PORT \<or> io_size i \<noteq> 4 \<or> io_count i \<noteq> 1 then (False, c, v, h) else
      if \<not> data_in_mapping v 4 then (False, c, v, h) else
      let data = unat (io_data_offset i) in
      case io_direction i of
        KVM_EXIT_IO_OUT \<Rightarrow>
          let requestAddress = load32 (run_data (run v)) data;
              (result, c, v, h) =
                (case getGuestMemory v requestAddress file_request_size of
                   None \<Rightarrow> (-1, c, v, h)
                 | Some a \<Rightarrow> processFileRequest c ss v h (decode_request (mem v) a))
          in (True, push_result c result, v, h)
      | KVM_EXIT_IO_IN \<Rightarrow>
          let pending = pendingResults (fileState c);
              (result, c) =
                (if pending \<noteq> []
                 then (last pending, c\<lparr>fileState := (fileState c)\<lparr>pendingResults := butlast pending\<rparr>\<rparr>)
                 else (-1, c))
          in (True, c, set_run_data v (store32 (run_data (run v)) data result), h)
      | Direction_Other \<Rightarrow> (False, c, v, h))"

fun close_all :: "(i32 \<times> OpenFile) list \<Rightarrow> host \<Rightarrow> host" where
  "close_all [] h = h"
| "close_all ((k, f) # fs) h = close_all fs (snd (os_close h (hostDescriptor f)))"

definition closeGuestFiles :: "GuestContext \<Rightarrow> host \<Rightarrow> GuestContext \<times> host" where
  "closeGuestFiles c h = (set_openFiles c [], close_all (openFiles (fileState c)) h)"

end
