(* ===== verification/Shared_Buffer.thy ===== *)
theory Shared_Buffer
  imports Hv_State
begin

text \<open>
  \<^verbatim>\<open>host/src/shared_buffer.cpp\<close>: the broadcast buffer between the writer machine and the
  reader machines. A handler runs under \<^verbatim>\<open>state.mutex\<close>, so it is one atomic step. Where the
  code waits on the condition variable, nothing has been changed yet: the outcome
  \<open>Blocked\<close> says that the waited-for predicate is false, and the step is tried again later.
  \<^verbatim>\<open>notify_all\<close> wakes all who sleep on the condition variable; who falls asleep and that no
  wake-up is lost is the matter of \<open>Shared_Waiting\<close>.
\<close>

subsection \<open>Outcomes\<close>

datatype 'a outcome = Blocked | Done 'a

text \<open>A handler's result, the machine's part, the shared buffer and the I/O data area.\<close>

type_synonym handled = "bool \<times> SharedBufferVmState \<times> SharedBufferState \<times> memory"

text \<open>\<^verbatim>\<open>std::condition_variable::notify_all\<close>.\<close>

definition notify_all :: "SharedBufferState \<Rightarrow> SharedBufferState" where
  "notify_all b = b\<lparr>condition := {}\<rparr>"

lemma notify_all_fields [simp]:
  "sb_data (notify_all b) = sb_data b" "sb_size (notify_all b) = sb_size b" "expectedBytes (notify_all b) = expectedBytes b"
  "receivedBytes (notify_all b) = receivedBytes b" "readerCount (notify_all b) = readerCount b"
  "completedReaders (notify_all b) = completedReaders b" "generation (notify_all b) = generation b"
  "dataReady (notify_all b) = dataReady b" "roundInProgress (notify_all b) = roundInProgress b"
  "stopped (notify_all b) = stopped b" "condition (notify_all b) = {}"
  by (simp_all add: notify_all_def)

subsection \<open>Access to the I/O data\<close>

definition getIoData :: "vm \<Rightarrow> nat option" where
  "getIoData v =
     (if io_count (io (run v)) \<noteq> 1 \<or> (io_size (io (run v)) \<noteq> 1 \<and> io_size (io (run v)) \<noteq> 4) then None
      else if \<not> data_in_mapping v (unat (io_size (io (run v)))) then None
      else Some (unat (io_data_offset (io (run v)))))"

definition readUint32 :: "memory \<Rightarrow> nat \<Rightarrow> u32" where
  "readUint32 m data = load32 m data"

definition writeUint32 :: "memory \<Rightarrow> nat \<Rightarrow> u32 \<Rightarrow> memory" where
  "writeUint32 m data x = store32 m data x"

subsection \<open>The operations\<close>

definition finishWriterData ::
  "SharedBufferVmState \<Rightarrow> SharedBufferState \<Rightarrow> SharedBufferVmState \<times> SharedBufferState" where
  "finishWriterData g b =
     (let b = b\<lparr>dataReady := True\<rparr>; b = b\<lparr>generation := generation b + 1\<rparr>
      in (g\<lparr>writeGeneration := generation b\<rparr>, notify_all b))"

definition deliverMode ::
  "SharedBufferVmState \<Rightarrow> kvm_io \<Rightarrow> memory \<Rightarrow> nat \<Rightarrow> bool \<times> SharedBufferVmState \<times> memory" where
  "deliverMode g i m data =
     (if io_port i \<noteq> SHARED_BUFFER_PORT \<or> io_direction i \<noteq> KVM_EXIT_IO_IN \<or> io_size i \<noteq> 1 then (False, g, m)
      else (True, g\<lparr>modeDelivered := True\<rparr>, m(data := sb_mode g)))"

definition beginWriterRound ::
  "SharedBufferVmState \<Rightarrow> SharedBufferState \<Rightarrow> memory \<Rightarrow> nat \<Rightarrow> handled outcome" where
  "beginWriterRound g b m data =
     (let requestedBytes = unat (readUint32 m data) in
      if \<not> (stopped b \<or> \<not> roundInProgress b) then Blocked else
      if stopped b then Done (False, g, b, m) else
      let b = b\<lparr>expectedBytes := requestedBytes, receivedBytes := 0, sb_size := min requestedBytes BUFFER_SIZE,
                completedReaders := 0, dataReady := False, roundInProgress := True\<rparr>;
          g = g\<lparr>writeGeneration := 0\<rparr>;
          (g, b) = (if requestedBytes = 0 then finishWriterData g b else (g, b))
      in Done (True, g, b, m))"

definition writeSharedByte ::
  "SharedBufferVmState \<Rightarrow> SharedBufferState \<Rightarrow> u8 \<Rightarrow> memory \<Rightarrow> handled outcome" where
  "writeSharedByte g b value m =
     (if stopped b \<or> \<not> roundInProgress b \<or> dataReady b \<or> receivedBytes b \<ge> expectedBytes b
      then Done (False, g, b, m) else
      let b = (if receivedBytes b < BUFFER_SIZE then b\<lparr>sb_data := (sb_data b)[receivedBytes b := value]\<rparr> else b);
          b = b\<lparr>receivedBytes := receivedBytes b + 1\<rparr>;
          (g, b) = (if receivedBytes b = expectedBytes b then finishWriterData g b else (g, b))
      in Done (True, g, b, m))"

definition finishWriterRound ::
  "SharedBufferVmState \<Rightarrow> SharedBufferState \<Rightarrow> memory \<Rightarrow> nat \<Rightarrow> handled outcome" where
  "finishWriterRound g b m data =
     (let gen = writeGeneration g in
      if gen = 0 then Done (False, g, b, m) else
      if \<not> (stopped b \<or> dataReady b \<and> generation b = gen \<and> completedReaders b = readerCount b) then Blocked else
      if stopped b then Done (False, g, b, m) else
      let m = writeUint32 m data (of_nat (sb_size b));
          b = b\<lparr>roundInProgress := False\<rparr>;
          g = g\<lparr>writeGeneration := 0, transferCompleted := True\<rparr>
      in Done (True, g, notify_all b, m))"

definition beginReaderRound ::
  "SharedBufferVmState \<Rightarrow> SharedBufferState \<Rightarrow> memory \<Rightarrow> nat \<Rightarrow> handled outcome" where
  "beginReaderRound g b m data =
     (if activeReadGeneration g > lastReadGeneration g \<and> \<not> readCompleted g then Done (False, g, b, m) else
      if \<not> (stopped b \<or> dataReady b \<and> generation b > lastReadGeneration g) then Blocked else
      if stopped b then Done (False, g, b, m) else
      let g = g\<lparr>readOffset := 0, activeReadGeneration := generation b, readCompleted := False\<rparr>
      in Done (True, g, b, writeUint32 m data (of_nat (sb_size b))))"

definition readSharedByte ::
  "SharedBufferVmState \<Rightarrow> SharedBufferState \<Rightarrow> memory \<Rightarrow> nat \<Rightarrow> handled outcome" where
  "readSharedByte g b m data =
     (if stopped b \<or> activeReadGeneration g \<noteq> generation b \<or> readOffset g \<ge> sb_size b
      then Done (False, g, b, m)
      else Done (True, g\<lparr>readOffset := readOffset g + 1\<rparr>, b, m(data := sb_data b ! readOffset g)))"

definition finishReaderRound ::
  "SharedBufferVmState \<Rightarrow> SharedBufferState \<Rightarrow> memory \<Rightarrow> nat \<Rightarrow> handled outcome" where
  "finishReaderRound g b m data =
     (let reportedBytes = unat (readUint32 m data) in
      if stopped b \<or> readCompleted g \<or> activeReadGeneration g \<noteq> generation b \<or> readOffset g \<noteq> sb_size b \<or>
         reportedBytes \<noteq> sb_size b \<or> completedReaders b \<ge> readerCount b
      then Done (False, g, b, m) else
      let g = g\<lparr>readCompleted := True\<rparr>;
          g = g\<lparr>lastReadGeneration := activeReadGeneration g\<rparr>;
          g = g\<lparr>transferCompleted := True\<rparr>;
          b = b\<lparr>completedReaders := completedReaders b + 1\<rparr>
      in Done (True, g, notify_all b, m))"

subsection \<open>The port handler\<close>

definition sharedBufferIo ::
  "SharedBufferVmState \<Rightarrow> SharedBufferState \<Rightarrow> kvm_io \<Rightarrow> memory \<Rightarrow> nat \<Rightarrow> handled outcome" where
  "sharedBufferIo g b i m data =
     (if \<not> modeDelivered g then let (ok, g, m) = deliverMode g i m data in Done (ok, g, b, m)
      else if io_port i = SHARED_BUFFER_PORT \<and> sb_mode g = VM_MODE_WRITER then
        if io_direction i = KVM_EXIT_IO_OUT \<and> io_size i = 4 then beginWriterRound g b m data
        else if io_direction i = KVM_EXIT_IO_OUT \<and> io_size i = 1 then writeSharedByte g b (m data) m
        else Done (False, g, b, m)
      else if io_port i = SHARED_BUFFER_PORT \<and> sb_mode g = VM_MODE_READER then
        if io_direction i = KVM_EXIT_IO_IN \<and> io_size i = 4 then beginReaderRound g b m data
        else if io_direction i = KVM_EXIT_IO_IN \<and> io_size i = 1 then readSharedByte g b m data
        else Done (False, g, b, m)
      else if io_port i = SHARED_BUFFER_STATUS_PORT \<and> sb_mode g = VM_MODE_WRITER \<and>
              io_direction i = KVM_EXIT_IO_IN \<and> io_size i = 4 then finishWriterRound g b m data
      else if io_port i = SHARED_BUFFER_STATUS_PORT \<and> sb_mode g = VM_MODE_READER \<and>
              io_direction i = KVM_EXIT_IO_OUT \<and> io_size i = 4 then finishReaderRound g b m data
      else Done (False, g, b, m))"

definition handleSharedBufferIo ::
  "GuestContext \<Rightarrow> SharedBufferState \<Rightarrow> vm \<Rightarrow> (bool \<times> GuestContext \<times> SharedBufferState \<times> vm) outcome" where
  "handleSharedBufferIo c b v =
     (let i = io (run v) in
      if io_port i \<noteq> SHARED_BUFFER_PORT \<and> io_port i \<noteq> SHARED_BUFFER_STATUS_PORT then Done (False, c, b, v) else
      case getIoData v of None \<Rightarrow> Done (False, c, b, v) | Some data \<Rightarrow>
      case sharedBufferIo (sharedBuffer c) b i (run_data (run v)) data of Blocked \<Rightarrow> Blocked
      | Done (ok, g, b, m) \<Rightarrow> Done (ok, c\<lparr>sharedBuffer := g\<rparr>, b, set_run_data v m))"

definition abortSharedBuffer :: "SharedBufferState \<Rightarrow> SharedBufferState" where
  "abortSharedBuffer b = notify_all (b\<lparr>stopped := True\<rparr>)"

subsection \<open>Which call succeeded\<close>

text \<open>The seven successful calls, with their guards and effects.\<close>

lemma finishWriterData_simps [simp]:
  "finishWriterData g b = (g\<lparr>writeGeneration := generation b + 1\<rparr>, notify_all (b\<lparr>dataReady := True, generation := generation b + 1\<rparr>))"
  by (simp add: finishWriterData_def Let_def)

definition beginWriter_state :: "SharedBufferState \<Rightarrow> nat \<Rightarrow> SharedBufferState" where
  "beginWriter_state b n = b\<lparr>expectedBytes := n, receivedBytes := 0, sb_size := min n BUFFER_SIZE,
     completedReaders := 0, dataReady := False, roundInProgress := True\<rparr>"

lemma beginWriterRound_cases:
  assumes "beginWriterRound g b m data = Done (True, g', b', m')"
  shows "\<not> stopped b \<and> \<not> roundInProgress b \<and> m' = m \<and>
    (unat (load32 m data) = 0 \<and> g' = g\<lparr>writeGeneration := generation b + 1\<rparr> \<and>
       b' = notify_all ((beginWriter_state b 0)\<lparr>dataReady := True, generation := generation b + 1\<rparr>) \<or>
     0 < unat (load32 m data) \<and> g' = g\<lparr>writeGeneration := 0\<rparr> \<and>
       b' = beginWriter_state b (unat (load32 m data)))"
  using assms
  by (cases "unat (load32 m data) = 0")
    (auto simp: beginWriterRound_def readUint32_def beginWriter_state_def Let_def split: if_splits)

lemma writeSharedByte_cases:
  assumes "writeSharedByte g b x m = Done (True, g', b', m')"
  shows "\<not> stopped b \<and> roundInProgress b \<and> \<not> dataReady b \<and> m' = m \<and>
    (\<exists>d. d = (if receivedBytes b < BUFFER_SIZE then (sb_data b)[receivedBytes b := x] else sb_data b) \<and>
      (receivedBytes b + 1 < expectedBytes b \<and> g' = g \<and>
         b' = b\<lparr>sb_data := d, receivedBytes := receivedBytes b + 1\<rparr> \<or>
       receivedBytes b + 1 = expectedBytes b \<and> g' = g\<lparr>writeGeneration := generation b + 1\<rparr> \<and>
         b' = notify_all (b\<lparr>sb_data := d, receivedBytes := receivedBytes b + 1, dataReady := True,
               generation := generation b + 1\<rparr>)))"
  using assms by (simp add: writeSharedByte_def Let_def split: if_splits)

lemma sharedBufferIo_cases:
  assumes "sharedBufferIo g b i m data = Done (True, g', b', m')"
  obtains (mode) "\<not> modeDelivered g" "io_port i = SHARED_BUFFER_PORT" "io_direction i = KVM_EXIT_IO_IN" "io_size i = 1"
      "g' = g\<lparr>modeDelivered := True\<rparr>" "b' = b" "m' = m(data := sb_mode g)"
  | (begin_empty) "modeDelivered g" "io_port i = SHARED_BUFFER_PORT" "sb_mode g = VM_MODE_WRITER"
      "io_direction i = KVM_EXIT_IO_OUT" "io_size i = 4" "\<not> stopped b" "\<not> roundInProgress b"
      "unat (load32 m data) = 0" "g' = g\<lparr>writeGeneration := generation b + 1\<rparr>"
      "b' = notify_all ((beginWriter_state b 0)\<lparr>dataReady := True, generation := generation b + 1\<rparr>)" "m' = m"
  | (begin_write) n where "modeDelivered g" "io_port i = SHARED_BUFFER_PORT" "sb_mode g = VM_MODE_WRITER"
      "io_direction i = KVM_EXIT_IO_OUT" "io_size i = 4" "\<not> stopped b" "\<not> roundInProgress b"
      "unat (load32 m data) = n" "0 < n" "g' = g\<lparr>writeGeneration := 0\<rparr>" "b' = beginWriter_state b n" "m' = m"
  | (put) d where "modeDelivered g" "io_port i = SHARED_BUFFER_PORT" "sb_mode g = VM_MODE_WRITER"
      "io_direction i = KVM_EXIT_IO_OUT" "io_size i = 1" "\<not> stopped b" "roundInProgress b" "\<not> dataReady b"
      "receivedBytes b + 1 < expectedBytes b"
      "d = (if receivedBytes b < BUFFER_SIZE then (sb_data b)[receivedBytes b := m data] else sb_data b)"
      "g' = g" "b' = b\<lparr>sb_data := d, receivedBytes := receivedBytes b + 1\<rparr>" "m' = m"
  | (put_last) d where "modeDelivered g" "io_port i = SHARED_BUFFER_PORT" "sb_mode g = VM_MODE_WRITER"
      "io_direction i = KVM_EXIT_IO_OUT" "io_size i = 1" "\<not> stopped b" "roundInProgress b" "\<not> dataReady b"
      "receivedBytes b + 1 = expectedBytes b"
      "d = (if receivedBytes b < BUFFER_SIZE then (sb_data b)[receivedBytes b := m data] else sb_data b)"
      "g' = g\<lparr>writeGeneration := generation b + 1\<rparr>"
      "b' = notify_all (b\<lparr>sb_data := d, receivedBytes := receivedBytes b + 1, dataReady := True, generation := generation b + 1\<rparr>)"
      "m' = m"
  | (finish_write) "modeDelivered g" "io_port i = SHARED_BUFFER_STATUS_PORT" "sb_mode g = VM_MODE_WRITER"
      "io_direction i = KVM_EXIT_IO_IN" "io_size i = 4" "\<not> stopped b"
      "writeGeneration g \<noteq> 0" "dataReady b" "generation b = writeGeneration g" "completedReaders b = readerCount b"
      "g' = g\<lparr>writeGeneration := 0, transferCompleted := True\<rparr>" "b' = notify_all (b\<lparr>roundInProgress := False\<rparr>)"
      "m' = store32 m data (of_nat (sb_size b))"
  | (begin_read) "modeDelivered g" "io_port i = SHARED_BUFFER_PORT" "sb_mode g = VM_MODE_READER"
      "io_direction i = KVM_EXIT_IO_IN" "io_size i = 4" "\<not> stopped b"
      "dataReady b" "lastReadGeneration g < generation b"
      "\<not> (lastReadGeneration g < activeReadGeneration g \<and> \<not> readCompleted g)"
      "g' = g\<lparr>readOffset := 0, activeReadGeneration := generation b, readCompleted := False\<rparr>" "b' = b"
      "m' = store32 m data (of_nat (sb_size b))"
  | (get) "modeDelivered g" "io_port i = SHARED_BUFFER_PORT" "sb_mode g = VM_MODE_READER"
      "io_direction i = KVM_EXIT_IO_IN" "io_size i = 1" "\<not> stopped b"
      "activeReadGeneration g = generation b" "readOffset g < sb_size b"
      "g' = g\<lparr>readOffset := readOffset g + 1\<rparr>" "b' = b" "m' = m(data := sb_data b ! readOffset g)"
  | (finish_read) "modeDelivered g" "io_port i = SHARED_BUFFER_STATUS_PORT" "sb_mode g = VM_MODE_READER"
      "io_direction i = KVM_EXIT_IO_OUT" "io_size i = 4" "\<not> stopped b" "\<not> readCompleted g"
      "activeReadGeneration g = generation b" "readOffset g = sb_size b" "unat (load32 m data) = sb_size b"
      "completedReaders b < readerCount b"
      "g' = g\<lparr>readCompleted := True, lastReadGeneration := generation b, transferCompleted := True\<rparr>"
      "b' = notify_all (b\<lparr>completedReaders := completedReaders b + 1\<rparr>)" "m' = m"
proof -
  note defs = sharedBufferIo_def shared_buffer_consts
  consider (m) "\<not> modeDelivered g" | (bw) "modeDelivered g" "io_port i = SHARED_BUFFER_PORT" "sb_mode g = VM_MODE_WRITER"
      "io_direction i = KVM_EXIT_IO_OUT" "io_size i = 4" "beginWriterRound g b m data = Done (True, g', b', m')"
    | (wb) "modeDelivered g" "io_port i = SHARED_BUFFER_PORT" "sb_mode g = VM_MODE_WRITER"
      "io_direction i = KVM_EXIT_IO_OUT" "io_size i = 1" "writeSharedByte g b (m data) m = Done (True, g', b', m')"
    | (br) "modeDelivered g" "io_port i = SHARED_BUFFER_PORT" "sb_mode g = VM_MODE_READER"
      "io_direction i = KVM_EXIT_IO_IN" "io_size i = 4" "beginReaderRound g b m data = Done (True, g', b', m')"
    | (rb) "modeDelivered g" "io_port i = SHARED_BUFFER_PORT" "sb_mode g = VM_MODE_READER"
      "io_direction i = KVM_EXIT_IO_IN" "io_size i = 1" "readSharedByte g b m data = Done (True, g', b', m')"
    | (fw) "modeDelivered g" "io_port i = SHARED_BUFFER_STATUS_PORT" "sb_mode g = VM_MODE_WRITER"
      "io_direction i = KVM_EXIT_IO_IN" "io_size i = 4" "finishWriterRound g b m data = Done (True, g', b', m')"
    | (fr) "modeDelivered g" "io_port i = SHARED_BUFFER_STATUS_PORT" "sb_mode g = VM_MODE_READER"
      "io_direction i = KVM_EXIT_IO_OUT" "io_size i = 4" "finishReaderRound g b m data = Done (True, g', b', m')"
    using assms by (simp add: sharedBufferIo_def split: if_splits)
  then show thesis
  proof cases
    case m
    then show thesis
      using assms by (intro mode) (simp_all add: sharedBufferIo_def deliverMode_def split: if_splits)
  next
    case bw
    from beginWriterRound_cases [OF bw(6)] show thesis
    proof (elim disjE conjE)
      assume "\<not> stopped b" "\<not> roundInProgress b" "m' = m" "unat (load32 m data) = 0"
        "g' = g\<lparr>writeGeneration := generation b + 1\<rparr>"
        "b' = notify_all ((beginWriter_state b 0)\<lparr>dataReady := True, generation := generation b + 1\<rparr>)"
      then show thesis by (intro begin_empty bw)
    next
      assume "\<not> stopped b" "\<not> roundInProgress b" "m' = m" "0 < unat (load32 m data)"
        "g' = g\<lparr>writeGeneration := 0\<rparr>" "b' = beginWriter_state b (unat (load32 m data))"
      then show thesis by (intro begin_write [where n = "unat (load32 m data)"] bw refl)
    qed
  next
    case wb
    note w = writeSharedByte_cases [OF wb(6)]
    then obtain d where d: "d = (if receivedBytes b < BUFFER_SIZE then (sb_data b)[receivedBytes b := m data] else sb_data b)"
      and "receivedBytes b + 1 < expectedBytes b \<and> g' = g \<and>
         b' = b\<lparr>sb_data := d, receivedBytes := receivedBytes b + 1\<rparr> \<or>
       receivedBytes b + 1 = expectedBytes b \<and> g' = g\<lparr>writeGeneration := generation b + 1\<rparr> \<and>
         b' = notify_all (b\<lparr>sb_data := d, receivedBytes := receivedBytes b + 1, dataReady := True,
               generation := generation b + 1\<rparr>)" by blast
    then show thesis
    proof (elim disjE conjE)
      assume a: "receivedBytes b + 1 < expectedBytes b" "g' = g"
        "b' = b\<lparr>sb_data := d, receivedBytes := receivedBytes b + 1\<rparr>"
      show thesis by (rule put [OF wb(1-5)]) (use a w in \<open>simp_all add: d\<close>)
    next
      assume a: "receivedBytes b + 1 = expectedBytes b" "g' = g\<lparr>writeGeneration := generation b + 1\<rparr>"
        "b' = notify_all (b\<lparr>sb_data := d, receivedBytes := receivedBytes b + 1, dataReady := True, generation := generation b + 1\<rparr>)"
      show thesis by (rule put_last [OF wb(1-5)]) (use a w in \<open>simp_all add: d\<close>)
    qed
  next
    case br
    then show thesis
      by (intro begin_read) (auto simp: beginReaderRound_def writeUint32_def split: if_splits)
  next
    case rb
    then show thesis by (intro get) (auto simp: readSharedByte_def split: if_splits)
  next
    case fw
    then show thesis
      by (intro finish_write) (auto simp: finishWriterRound_def writeUint32_def Let_def split: if_splits)
  next
    case fr
    then show thesis
      by (intro finish_read) (auto simp: finishReaderRound_def readUint32_def Let_def split: if_splits)
  qed
qed

subsection \<open>Rejection and abort\<close>

lemma sharedBufferIo_rejected:
  "sharedBufferIo g b i m data = Done (False, g', b', m') \<Longrightarrow> g' = g \<and> b' = b \<and> m' = m"
  by (auto simp: sharedBufferIo_def deliverMode_def beginWriterRound_def writeSharedByte_def finishWriterRound_def
      beginReaderRound_def readSharedByte_def finishReaderRound_def Let_def split: if_splits)

lemma sharedBufferIo_stopped:
  "stopped b \<Longrightarrow> modeDelivered g \<Longrightarrow> sharedBufferIo g b i m data = Done (False, g, b, m)"
  by (simp add: sharedBufferIo_def beginWriterRound_def writeSharedByte_def finishWriterRound_def
      beginReaderRound_def readSharedByte_def finishReaderRound_def Let_def)

text \<open>
  C39. A rejected access has no effect: when \<open>handleSharedBufferIo\<close> returns false (unknown
  port, wrong size, direction or mode, bad data offset, a call out of protocol order, a
  stopped transfer), the machine's state, the shared buffer and the machine's memory are
  exactly what they were.
\<close>

theorem rejected_access_unchanged:
  assumes "handleSharedBufferIo c b v = Done (False, c', b', v')"
  shows "c' = c \<and> b' = b \<and> v' = v"
  using assms sharedBufferIo_rejected
  by (force simp: handleSharedBufferIo_def Let_def split: if_splits option.splits outcome.splits prod.splits)

theorem rejected_access_unchanged_witness:
  "handleSharedBufferIo initial_GuestContext initial_SharedBufferState (blank_vm 0) =
     Done (False, initial_GuestContext, initial_SharedBufferState, blank_vm 0)"
proof -
  have "handleSharedBufferIo initial_GuestContext initial_SharedBufferState (blank_vm 0) = Done (False, c', b', v') \<Longrightarrow>
      c' = initial_GuestContext \<and> b' = initial_SharedBufferState \<and> v' = blank_vm 0" for c' b' v'
    by (rule rejected_access_unchanged)
  moreover have "\<exists>c' b' v'. handleSharedBufferIo initial_GuestContext initial_SharedBufferState (blank_vm 0) = Done (False, c', b', v')"
    by (simp add: handleSharedBufferIo_def blank_vm_def zero_run_def shared_buffer_consts)
  ultimately show ?thesis by blast
qed

text \<open>
  An abort releases every waiting machine: after \<open>abortSharedBuffer\<close> no access of any
  machine blocks, the buffer is not changed any more, and nothing but the delivery of a mode
  succeeds.
\<close>

lemma abort_releases_everyone:
  "\<exists>ok c' v'. handleSharedBufferIo c (abortSharedBuffer b) v = Done (ok, c', abortSharedBuffer b, v') \<and>
     (modeDelivered (sharedBuffer c) \<longrightarrow> \<not> ok \<and> c' = c \<and> v' = v)"
proof -
  have stop: "stopped (abortSharedBuffer b)" by (simp add: abortSharedBuffer_def)
  show ?thesis
  proof (cases "modeDelivered (sharedBuffer c)")
    case True
    then show ?thesis
      by (auto simp: handleSharedBufferIo_def Let_def sharedBufferIo_stopped [OF stop True] split: option.split)
  next
    case False
    then show ?thesis
      by (auto simp: handleSharedBufferIo_def Let_def sharedBufferIo_def split: option.split prod.split)
  qed
qed

definition served_reader :: GuestContext where
  "served_reader = initial_GuestContext\<lparr>sharedBuffer := initial_SharedBufferVmState\<lparr>modeDelivered := True\<rparr>\<rparr>"

lemma abort_releases_everyone_witness:
  "handleSharedBufferIo served_reader (abortSharedBuffer initial_SharedBufferState) (blank_vm 0) =
     Done (False, served_reader, abortSharedBuffer initial_SharedBufferState, blank_vm 0)"
proof -
  have "modeDelivered (sharedBuffer served_reader)" by (simp add: served_reader_def)
  then show ?thesis
    using abort_releases_everyone [of served_reader initial_SharedBufferState "blank_vm 0"] by auto
qed

end
