(* ===== verification/Vm_Runner.thy ===== *)
theory Vm_Runner
  imports File_Io Shared_Buffer
begin

text \<open>
  \<^verbatim>\<open>host/src/vm_runner.cpp\<close>: one machine's thread. The console streams, the host's files and
  the shared buffer are the world the threads share; what KVM and the kernel answer is an
  event. One pass of the loop in \<^verbatim>\<open>runVirtualMachine\<close> is \<open>run_event\<close>; between two passes the
  other threads may have changed the world in any way.
\<close>

subsection \<open>The world of a thread\<close>

record console =
  con_out :: string
  con_err :: string
  con_in :: string      \<comment> \<open>what \<^verbatim>\<open>std::cin\<close> will deliver; empty is end of file\<close>

record world =
  w_shared :: SharedState
  w_host :: host
  w_console :: console

fun show_hex :: "nat \<Rightarrow> string" where
  "show_hex n = (if n < 16 then [''0123456789abcdef'' ! n] else show_hex (n div 16) @ [''0123456789abcdef'' ! (n mod 16)])"

declare show_hex.simps [simp del]

text \<open>The values of \<^verbatim>\<open><linux/kvm.h>\<close> that are printed.\<close>

fun exit_code :: "exit_reason \<Rightarrow> nat" where
  "exit_code KVM_EXIT_IO = 2"
| "exit_code KVM_EXIT_HLT = 5"
| "exit_code KVM_EXIT_IRQ_WINDOW_OPEN = 7"
| "exit_code KVM_EXIT_SHUTDOWN = 8"
| "exit_code (Exit_Other n) = n"

definition newline :: string where "newline = [char_of (10 :: nat)]"

definition vm_prefix :: "GuestContext \<Rightarrow> string" where
  "vm_prefix c = ''[VM '' @ show_nat (gid c) @ ''] ''"

definition to_err :: "string \<Rightarrow> console \<Rightarrow> console" where
  "to_err s con = con\<lparr>con_err := con_err con @ s\<rparr>"

definition to_out :: "string \<Rightarrow> console \<Rightarrow> console" where
  "to_out s con = con\<lparr>con_out := con_out con @ s\<rparr>"

definition printError :: "GuestContext \<Rightarrow> string \<Rightarrow> console \<Rightarrow> console" where
  "printError c message = to_err (vm_prefix c @ message @ newline)"

text \<open>\<open>strerror\<close> is the C library's table of messages.\<close>

definition printSystemError ::
  "(nat \<Rightarrow> string) \<Rightarrow> GuestContext \<Rightarrow> string \<Rightarrow> nat \<Rightarrow> console \<Rightarrow> console" where
  "printSystemError strerror c operation errorNumber =
     to_err (vm_prefix c @ operation @ '' failed: '' @ strerror errorNumber @ '' (errno '' @
       show_nat errorNumber @ '')'' @ newline)"

definition printUnexpectedExit :: "GuestContext \<Rightarrow> exit_reason \<Rightarrow> console \<Rightarrow> console" where
  "printUnexpectedExit c r =
     to_out (vm_prefix c @ ''Unexpected VM exit. Exit code: '' @ show_nat (exit_code r) @ newline)"

definition printHalt :: "GuestContext \<Rightarrow> console \<Rightarrow> console" where
  "printHalt c = to_out (vm_prefix c @ ''KVM_EXIT_HLT'' @ newline)"

definition flushSerialOutput :: "GuestContext \<Rightarrow> bool \<Rightarrow> console \<Rightarrow> GuestContext \<times> console" where
  "flushSerialOutput c finishLine con =
     (if serialOutputBuffer c = [] then (c, con) else
      let con = to_out (vm_prefix c @ serialOutputBuffer c) con;
          con = (if finishLine \<and> last (serialOutputBuffer c) \<noteq> char_of (10 :: nat) then to_out newline con else con)
      in (c\<lparr>serialOutputBuffer := []\<rparr>, con))"

subsection \<open>The serial port\<close>

definition handleSerialIo :: "GuestContext \<Rightarrow> vm \<Rightarrow> console \<Rightarrow> bool \<times> GuestContext \<times> vm \<times> console" where
  "handleSerialIo c v con =
     (let i = io (run v) in
      if io_port i \<noteq> 0xE9 \<or> io_size i \<noteq> 1 \<or> io_count i \<noteq> 1 then
        (False, c, v, to_err (vm_prefix c @ ''Unexpected I/O exit. Exit code: '' @ show_nat (exit_code (exit_reason (run v))) @
           '', port: 0x'' @ show_hex (unat (io_port i)) @ '', size: '' @ show_nat (unat (io_size i)) @
           '', count: '' @ show_nat (unat (io_count i)) @ newline) con)
      else let dataOffset = unat (io_data_offset i) in
      if dataOffset \<ge> mapping_size v then
        (False, c, v, printError c ''I/O data offset is outside the KVM run mapping'' con)
      else case io_direction i of
        KVM_EXIT_IO_OUT \<Rightarrow>
          let output = char_of (unat (run_data (run v) dataOffset));
              c = c\<lparr>serialOutputBuffer := serialOutputBuffer c @ [output]\<rparr>;
              (c, con) = (if output = char_of (10 :: nat) then flushSerialOutput c False con else (c, con))
          in (True, c, v, con)
      | KVM_EXIT_IO_IN \<Rightarrow>
          let (c, con) = flushSerialOutput c True con in
          (case con_in con of
             [] \<Rightarrow> (False, c, v, printError c ''Failed to read serial input'' con)
           | input # rest \<Rightarrow>
               (True, c, set_run_data v ((run_data (run v))(dataOffset := of_nat (of_char input))),
                con\<lparr>con_in := rest\<rparr>))
      | Direction_Other \<Rightarrow> (False, c, v, printError c ''Unexpected I/O direction'' con))"

subsection \<open>The devices\<close>

type_synonym device_result = "(bool \<times> (GuestContext \<times> world) \<times> vm) outcome"

definition file_device :: "GuestContext \<times> world \<Rightarrow> vm \<Rightarrow> device_result" where
  "file_device d v = (case d of (c, w) \<Rightarrow>
     let (ok, c, v, h) = handleFileIo c (w_shared w) v (w_host w) in Done (ok, (c, w\<lparr>w_host := h\<rparr>), v))"

definition set_buffer :: "world \<Rightarrow> SharedBufferState \<Rightarrow> world" where
  "set_buffer w b = w\<lparr>w_shared := (w_shared w)\<lparr>buffer_state := b\<rparr>\<rparr>"

definition shared_buffer_device :: "GuestContext \<times> world \<Rightarrow> vm \<Rightarrow> device_result" where
  "shared_buffer_device d v = (case d of (c, w) \<Rightarrow>
     case handleSharedBufferIo c (buffer_state (w_shared w)) v of Blocked \<Rightarrow> Blocked
     | Done (ok, c, b, v) \<Rightarrow> Done (ok, (c, set_buffer w b), v))"

definition serial_device :: "GuestContext \<times> world \<Rightarrow> vm \<Rightarrow> device_result" where
  "serial_device d v = (case d of (c, w) \<Rightarrow>
     let (ok, c, v, con) = handleSerialIo c v (w_console w) in Done (ok, (c, w\<lparr>w_console := con\<rparr>), v))"

text \<open>The dispatch of the case \<^verbatim>\<open>KVM_EXIT_IO\<close>.\<close>

definition port_device :: "GuestContext \<times> world \<Rightarrow> vm \<Rightarrow> device_result" where
  "port_device d v =
     (let port = io_port (io (run v)) in
      if port = FILE_IO_PORT then file_device d v
      else if port = SHARED_BUFFER_PORT \<or> port = SHARED_BUFFER_STATUS_PORT then shared_buffer_device d v
      else serial_device d v)"

subsection \<open>The interface of a device\<close>

text \<open>
  What every device promises to the thread: it changes of the machine only bytes of guest
  memory and the bytes of the exit's data inside the mapping. In particular the descriptors,
  the mappings and their sizes stay what \<open>vm_init\<close> made them.
\<close>

definition confined :: "vm \<Rightarrow> vm \<Rightarrow> bool" where
  "confined v v' \<longleftrightarrow>
     v' = v\<lparr>mem := mem v', run := (run v)\<lparr>run_data := run_data (run v')\<rparr>\<rparr> \<and>
     (\<forall>a. mem_size v \<le> a \<longrightarrow> mem v' a = mem v a) \<and>
     (\<forall>a. a < unat (io_data_offset (io (run v))) \<or>
        unat (io_data_offset (io (run v))) + unat (io_size (io (run v))) \<le> a \<or> mapping_size v \<le> a \<longrightarrow>
        run_data (run v') a = run_data (run v) a)"

lemma confined_refl [simp]: "confined v v"
  by (simp add: confined_def)

lemma confined_run_data:
  assumes "\<And>a. a < unat (io_data_offset (io (run v))) \<or>
        unat (io_data_offset (io (run v))) + unat (io_size (io (run v))) \<le> a \<or> mapping_size v \<le> a \<Longrightarrow> m a = run_data (run v) a"
  shows "confined v (set_run_data v m)"
  using assms by (simp add: confined_def)

lemma confined_mem: "(\<And>a. mem_size v \<le> a \<Longrightarrow> m a = mem v a) \<Longrightarrow> confined v (v\<lparr>mem := m\<rparr>)"
  by (simp add: confined_def)

locale io_device =
  fixes handle :: "'d \<Rightarrow> vm \<Rightarrow> (bool \<times> 'd \<times> vm) outcome"
  assumes device_confined: "handle d v = Done (ok, d', v') \<Longrightarrow> confined v v'"
begin

lemma keeps_resources:
  assumes "handle d v = Done (ok, d', v')"
  shows "snd (vm_destroy v') = snd (vm_destroy v)"
proof -
  have v': "v' = v\<lparr>mem := mem v', run := (run v)\<lparr>run_data := run_data (run v')\<rparr>\<rparr>"
    using device_confined [OF assms] by (simp add: confined_def)
  have "snd (vm_destroy (v\<lparr>mem := m, run := r\<rparr>)) = snd (vm_destroy v)" for m r
    by (simp add: vm_destroy_def Let_def)
  then show ?thesis by (subst v')
qed

lemma keeps_geometry:
  assumes "handle d v = Done (ok, d', v')"
  shows "mem_size v' = mem_size v" and "mapping_size v' = mapping_size v" and "io (run v') = io (run v)"
proof -
  have v': "v' = v\<lparr>mem := mem v', run := (run v)\<lparr>run_data := run_data (run v')\<rparr>\<rparr>"
    using device_confined [OF assms] by (simp add: confined_def)
  show "mem_size v' = mem_size v" by (subst v') simp
  show "mapping_size v' = mapping_size v" by (subst v') (simp add: mapping_size_def)
  show "io (run v') = io (run v)" by (subst v') simp
qed

lemma memory_safe:
  "handle d v = Done (ok, d', v') \<Longrightarrow> mem_size v \<le> a \<Longrightarrow> mem v' a = mem v a"
  using device_confined by (simp add: confined_def)

end

text \<open>The three devices provide it.\<close>

lemma getGuestMemory_bounds: "getGuestMemory v a n = Some s \<Longrightarrow> s + n \<le> mem_size v \<and> s = unat a"
  by (auto simp: getGuestMemory_def Let_def split: if_splits)

lemma os_read_length: "os_read h d n = (Some bs, h') \<Longrightarrow> length bs \<le> n"
  by (auto simp: os_read_def Let_def transfer_def case_prod_beta split: option.splits if_splits fault.splits)

lemma readFile_confined: "readFile c v h r = (x, v', h') \<Longrightarrow> confined v v'"
  by (auto simp: readFile_def split: option.splits if_splits prod.splits
      intro!: confined_mem dest!: os_read_length getGuestMemory_bounds)

lemma processFileRequest_confined: "processFileRequest c ss v h r = (x, c', v', h') \<Longrightarrow> confined v v'"
  by (auto simp: processFileRequest_def split: if_splits prod.splits dest: readFile_confined)

lemma handleFileIo_confined:
  assumes "handleFileIo c ss v h = (ok, c', v', h')"
  shows "confined v v'"
proof (cases "io_port (io (run v)) \<noteq> FILE_IO_PORT \<or> io_size (io (run v)) \<noteq> 4 \<or> io_count (io (run v)) \<noteq> 1 \<or> \<not> data_in_mapping v 4")
  case True
  then show ?thesis using assms by (auto simp: handleFileIo_def Let_def split: if_splits)
next
  case False
  then have f: "io_port (io (run v)) = FILE_IO_PORT" "io_size (io (run v)) = 4" "io_count (io (run v)) = 1" "data_in_mapping v 4" by auto
  have "confined v (set_run_data v (store32 (run_data (run v)) (unat (io_data_offset (io (run v)))) x))" for x
    by (rule confined_run_data) (use f in \<open>auto simp: data_in_mapping_iff mem32.st_outside\<close>)
  then show ?thesis
    using assms f
    by (auto simp: handleFileIo_def Let_def split: io_direction.splits option.splits prod.splits
        dest: processFileRequest_confined)
qed

lemma sharedBufferIo_confined:
  assumes "handleSharedBufferIo c b v = Done (ok, c', b', v')"
  shows "confined v v'"
proof (cases ok)
  case False
  then have "v' = v" using assms sharedBufferIo_rejected
    by (force simp: handleSharedBufferIo_def Let_def split: if_splits option.splits outcome.splits prod.splits)
  then show ?thesis by simp
next
  case True
  let ?i = "io (run v)" and ?off = "unat (io_data_offset (io (run v)))"
  obtain g' m' where io: "sharedBufferIo (sharedBuffer c) b ?i (run_data (run v)) ?off = Done (True, g', b', m')"
    and v': "v' = set_run_data v m'" and data: "getIoData v = Some ?off"
    using assms True
    by (auto simp: handleSharedBufferIo_def Let_def getIoData_def split: if_splits option.splits outcome.splits prod.splits)
  have "data_in_mapping v (unat (io_size ?i))" using data by (simp add: getIoData_def split: if_splits)
  then have bound: "?off + unat (io_size ?i) \<le> mapping_size v" by (simp add: data_in_mapping_iff)
  have byte: "confined v (set_run_data v ((run_data (run v))(?off := x)))" if "io_size ?i = 1" for x
    by (rule confined_run_data) (use that bound in auto)
  have word: "confined v (set_run_data v (store32 (run_data (run v)) ?off x))" if "io_size ?i = 4" for x
    by (rule confined_run_data) (use that bound in \<open>auto simp: mem32.st_outside\<close>)
  have "set_run_data v (run_data (run v)) = v" by simp
  from io show ?thesis
    unfolding v' by (cases rule: sharedBufferIo_cases) (auto simp: byte word)
qed

lemma handleSerialIo_confined:
  assumes "handleSerialIo c v con = (ok, c', v', con')"
  shows "confined v v'"
proof -
  have "confined v (set_run_data v ((run_data (run v))(unat (io_data_offset (io (run v))) := x)))"
    if "io_size (io (run v)) = 1" "unat (io_data_offset (io (run v))) < mapping_size v" for x
    by (rule confined_run_data) (use that in auto)
  then show ?thesis
    using assms
    by (auto simp: handleSerialIo_def Let_def split: if_splits io_direction.splits list.splits prod.splits)
qed

interpretation file_port: io_device file_device
  by unfold_locales (auto simp: file_device_def split: prod.splits dest: handleFileIo_confined)

interpretation shared_buffer_port: io_device shared_buffer_device
  by unfold_locales (auto simp: shared_buffer_device_def split: prod.splits outcome.splits dest: sharedBufferIo_confined)

interpretation serial_port: io_device serial_device
  by unfold_locales (auto simp: serial_device_def split: prod.splits dest: handleSerialIo_confined)

interpretation io_ports: io_device port_device
  by unfold_locales
    (auto simp: port_device_def Let_def split: if_splits
      intro: file_port.device_confined shared_buffer_port.device_confined serial_port.device_confined)

subsection \<open>Starting a machine\<close>

record kvm_regs =
  rflags :: u64
  rip :: u64
  rsp :: u64

text \<open>What the kernel answers while a machine is set up; a call's last component is its \<^verbatim>\<open>errno\<close>.\<close>

record boot_answers =
  ba_kernel :: kvm_kernel
  ba_get_sregs :: "int \<times> kvm_sregs \<times> nat"
  ba_set_sregs :: "int \<times> nat"
  ba_image :: image_file
  ba_set_regs :: "int \<times> nat"

text \<open>The thread in its loop with \<^verbatim>\<open>interruptCount\<close>, or what it returned and released.\<close>

datatype thread = Running vm int | Returned bool "resource list"

abbreviation on_console :: "(console \<Rightarrow> console) \<Rightarrow> world \<Rightarrow> world" where
  "on_console f w \<equiv> w\<lparr>w_console := f (w_console w)\<rparr>"

record boot_result =
  br_thread :: thread
  br_world :: world
  br_acquired :: "resource list"   \<comment> \<open>by \<open>vm_init\<close> and \<open>load_guest_image\<close>\<close>
  br_released :: "resource list"   \<comment> \<open>by \<open>load_guest_image\<close>\<close>
  br_vcpu :: "(kvm_sregs \<times> kvm_regs) option"   \<comment> \<open>the registers the guest starts with\<close>

definition boot_failed :: "vm \<Rightarrow> world \<Rightarrow> resource list \<Rightarrow> resource list \<Rightarrow> boot_result" where
  "boot_failed v w acq closed =
     \<lparr>br_thread = Returned False (snd (vm_destroy v)), br_world = w, br_acquired = acq, br_released = closed, br_vcpu = None\<rparr>"

definition set_window :: "vm \<Rightarrow> bool \<Rightarrow> vm" where
  "set_window v x = v\<lparr>run := (run v)\<lparr>request_interrupt_window := x\<rparr>\<rparr>"

text \<open>\<^verbatim>\<open>runVirtualMachine\<close> up to its loop.\<close>

definition boot_machine :: "(nat \<Rightarrow> string) \<Rightarrow> GuestContext \<Rightarrow> boot_answers \<Rightarrow> world \<Rightarrow> boot_result" where
  "boot_machine strerror c a w =
     (let interruptCount = IRQ_COUNT; (rc, v, acq) = vm_init (ba_kernel a) (memorySize c) in
      if rc \<noteq> 0 then boot_failed v (on_console (printError c ''Failed to initialize the virtual machine'') w) acq [] else
      let (result, sregs, errorNumber) = ba_get_sregs a in
      if result < 0 then boot_failed v (on_console (printSystemError strerror c ''KVM_GET_SREGS'' errorNumber) w) acq [] else
      let (v, sregs) = setup_long_mode v sregs (pageSize c); (result, errorNumber) = ba_set_sregs a in
      if result < 0 then boot_failed v (on_console (printSystemError strerror c ''KVM_SET_SREGS'' errorNumber) w) acq [] else
      let (result, v, opened, closed) = load_guest_image v (ba_image a) GUEST_START_ADDR; acq = acq @ opened in
      if result < 0 then boot_failed v (on_console (printError c ''Failed to load guest image'') w) acq closed else
      let registers = \<lparr>rflags = 2, rip = of_nat GUEST_START_ADDR, rsp = of_nat (mem_size v)\<rparr>;
          (result, errorNumber) = ba_set_regs a in
      if result < 0 then boot_failed v (on_console (printSystemError strerror c ''KVM_SET_REGS'' errorNumber) w) acq closed else
      \<lparr>br_thread = Running (set_window v (interruptCount > 0)) interruptCount, br_world = w, br_acquired = acq,
        br_released = closed, br_vcpu = Some (sregs, registers)\<rparr>)"

subsection \<open>The loop\<close>

text \<open>
  What \<^verbatim>\<open>KVM_RUN\<close> brings: a failure, or an exit with its reason, its I/O description and
  data and the guest's memory, and the kernel's answer to an injection, if one follows.
\<close>

datatype kvm_event =
    Run_Failed bool nat       \<comment> \<open>\<^verbatim>\<open>EINTR\<close> or another \<^verbatim>\<open>errno\<close>\<close>
  | Exited exit_reason kvm_io memory memory int

definition exited :: "vm \<Rightarrow> exit_reason \<Rightarrow> kvm_io \<Rightarrow> memory \<Rightarrow> memory \<Rightarrow> vm" where
  "exited v r i d m = v\<lparr>mem := m, run := (run v)\<lparr>exit_reason := r, io := i, run_data := d\<rparr>\<rparr>"

datatype progress =
    Waiting
  | Looping GuestContext vm int world
  | Finished bool GuestContext world "resource list"

definition flush :: "GuestContext \<times> world \<Rightarrow> GuestContext \<times> world" where
  "flush d = (case d of (c, w) \<Rightarrow> let (c, con) = flushSerialOutput c True (w_console w) in (c, w\<lparr>w_console := con\<rparr>))"

definition run_event :: "(nat \<Rightarrow> string) \<Rightarrow> GuestContext \<Rightarrow> vm \<Rightarrow> int \<Rightarrow> world \<Rightarrow> kvm_event \<Rightarrow> progress" where
  "run_event strerror c v interruptCount w e =
     (case e of
        Run_Failed eintr errorNumber \<Rightarrow>
          if eintr then Looping c v interruptCount w
          else Finished False c (on_console (printSystemError strerror c ''KVM_RUN'' errorNumber) w) (snd (vm_destroy v))
      | Exited reason i d m answer \<Rightarrow>
          let v = exited v reason i d m in
          (case reason of
             KVM_EXIT_IO \<Rightarrow>
               (case port_device (c, w) v of Blocked \<Rightarrow> Waiting
                | Done (handled, cw, v) \<Rightarrow>
                    if \<not> handled then
                      let (c, w) = flush cw
                      in Finished False c (on_console (printError c ''Failed to handle an I/O exit'') w) (snd (vm_destroy v))
                    else Looping (fst cw) v interruptCount (snd cw))
           | KVM_EXIT_IRQ_WINDOW_OPEN \<Rightarrow>
               let (failed, v, interruptCount) =
                 (if interruptCount > 0 then
                    let (result, v) = inject_irq v IRQ_NUM (\<lambda>_. answer) in (result < 0, v, interruptCount - 1)
                  else (False, v, interruptCount))
               in if failed then
                 Finished False c (on_console (printError c ''Failed to inject an interrupt'') w) (snd (vm_destroy v))
               else Looping c (set_window v (interruptCount > 0)) interruptCount w
           | KVM_EXIT_HLT \<Rightarrow>
               let (c, w) = flush (c, w) in
               if \<not> transferCompleted (sharedBuffer c) then
                 Finished False c (on_console (printError c ''VM halted before completing the shared buffer transfer'') w)
                   (snd (vm_destroy v))
               else Finished True c (on_console (printHalt c) w) (snd (vm_destroy v))
           | _ \<Rightarrow>
               let (c, w) = flush (c, w)
               in Finished False c (on_console (printUnexpectedExit c (exit_reason (run v))) w) (snd (vm_destroy v))))"

text \<open>The rest of \<^verbatim>\<open>runGuest\<close> after \<^verbatim>\<open>runVirtualMachine\<close> has returned.\<close>

definition finish_guest :: "bool \<Rightarrow> GuestContext \<Rightarrow> world \<Rightarrow> GuestContext \<times> world" where
  "finish_guest ok c w =
     (let c = c\<lparr>completedSuccessfully := ok\<rparr>;
          w = (if \<not> completedSuccessfully c then set_buffer w (abortSharedBuffer (buffer_state (w_shared w))) else w);
          (c, h) = closeGuestFiles c (w_host w)
      in (c, w\<lparr>w_host := h\<rparr>))"

subsection \<open>A thread among others\<close>

text \<open>
  Each step sees some world \<open>w\<close>: what the other threads do between two steps is arbitrary. A
  blocked access is no step.
\<close>

inductive thread_step :: "(nat \<Rightarrow> string) \<Rightarrow> GuestContext \<times> thread \<Rightarrow> GuestContext \<times> thread \<Rightarrow> bool"
  for strerror where
  loops: "run_event strerror c v n w e = Looping c' v' n' w' \<Longrightarrow> thread_step strerror (c, Running v n) (c', Running v' n')"
| returns: "run_event strerror c v n w e = Finished ok c' w' rel \<Longrightarrow>
     thread_step strerror (c, Running v n) (c', Returned ok rel)"

inductive_cases thread_stepE: "thread_step strerror (c, t) (c', t')"

lemma thread_step_cases:
  assumes "thread_step strerror (c, t) (c', t')"
  obtains (loop) v n w e v' n' w' where "t = Running v n" "t' = Running v' n'"
      "run_event strerror c v n w e = Looping c' v' n' w'"
  | (return) v n w e ok w' rel where "t = Running v n" "t' = Returned ok rel"
      "run_event strerror c v n w e = Finished ok c' w' rel"
  using assms by (rule thread_stepE) (auto intro: that)

subsection \<open>Invariant of a thread\<close>

text \<open>The machine holds \<open>H\<close>, and the interrupts accepted so far and those left make up the budget.\<close>

definition interrupts_ok :: "vm \<Rightarrow> int \<Rightarrow> bool" where
  "interrupts_ok v n \<longleftrightarrow> 0 \<le> n \<and> n \<le> IRQ_COUNT \<and> request_interrupt_window (run v) = (n > 0) \<and>
     injected v = replicate (nat (IRQ_COUNT - n)) IRQ_NUM"

fun thread_inv :: "nat \<Rightarrow> resource multiset \<Rightarrow> GuestContext \<times> thread \<Rightarrow> bool" where
  "thread_inv sz H (c, Running v n) \<longleftrightarrow> mset (snd (vm_destroy v)) = H \<and> mem_size v = sz \<and> interrupts_ok v n"
| "thread_inv sz H (c, Returned ok rel) \<longleftrightarrow> mset rel = H \<and> (ok \<longrightarrow> transferCompleted (sharedBuffer c))"

lemma setup_long_mode_only_mem: "fst (setup_long_mode v s p) = v\<lparr>mem := mem (fst (setup_long_mode v s p))\<rparr>"
  by (simp add: setup_long_mode_def setup_page_tables_4k_def setup_page_tables_2m_def Let_def)

lemma load_guest_image_only_mem:
  "fst (snd (load_guest_image v f a)) = v\<lparr>mem := mem (fst (snd (load_guest_image v f a)))\<rparr>"
  by (simp add: load_guest_image_def Let_def)

lemma destroy_setup [simp]:
  "snd (vm_destroy (fst (setup_long_mode v s p))) = snd (vm_destroy v)"
  "snd (vm_destroy (fst (snd (load_guest_image v f a)))) = snd (vm_destroy v)"
  "snd (vm_destroy (set_window v x)) = snd (vm_destroy v)"
  "snd (vm_destroy (exited v r i d m)) = snd (vm_destroy v)"
proof -
  show "snd (vm_destroy (fst (setup_long_mode v s p))) = snd (vm_destroy v)"
    by (subst setup_long_mode_only_mem) (rule vm_destroy_mem_run)
  show "snd (vm_destroy (fst (snd (load_guest_image v f a)))) = snd (vm_destroy v)"
    by (subst load_guest_image_only_mem) (rule vm_destroy_mem_run)
qed (simp_all add: set_window_def exited_def vm_destroy_mem_run)

lemma mem_size_boot [simp]:
  "mem_size (fst (setup_long_mode v s p)) = mem_size v" "mem_size (fst (snd (load_guest_image v f a))) = mem_size v"
  "mem_size (set_window v x) = mem_size v" "mem_size (exited v r i d m) = mem_size v"
proof -
  show "mem_size (fst (setup_long_mode v s p)) = mem_size v" by (subst setup_long_mode_only_mem) simp
  show "mem_size (fst (snd (load_guest_image v f a))) = mem_size v" by (subst load_guest_image_only_mem) simp
qed (simp_all add: set_window_def exited_def)

lemma injected_boot [simp]:
  "injected (fst (setup_long_mode v s p)) = injected v" "injected (fst (snd (load_guest_image v f a))) = injected v"
  "injected (set_window v x) = injected v" "injected (exited v r i d m) = injected v"
proof -
  show "injected (fst (setup_long_mode v s p)) = injected v" by (subst setup_long_mode_only_mem) simp
  show "injected (fst (snd (load_guest_image v f a))) = injected v" by (subst load_guest_image_only_mem) simp
qed (simp_all add: set_window_def exited_def)

lemma vm_init_injected: "injected (fst (snd (vm_init k msize))) = []"
  by (auto simp: vm_init_def Let_def split: option.split)

lemma thread_inv_boot:
  "\<exists>H. mset (br_acquired (boot_machine strerror c a w)) = H + mset (br_released (boot_machine strerror c a w)) \<and>
     thread_inv (memorySize c) H (c, br_thread (boot_machine strerror c a w))"
proof -
  obtain rc v acq where i: "vm_init (ba_kernel a) (memorySize c) = (rc, v, acq)" by (cases "vm_init (ba_kernel a) (memorySize c)") auto
  have v: "mset (snd (vm_destroy v)) = mset acq" "mem_size v = memorySize c" "injected v = []"
    using vm_init_destroy [OF i] vm_init_mem_size [of "ba_kernel a" "memorySize c"] vm_init_injected [of "ba_kernel a" "memorySize c"] i
    by simp_all
  let ?v = "fst (setup_long_mode v (fst (snd (ba_get_sregs a))) (pageSize c))"
  obtain r v2 opened closed where l: "load_guest_image ?v (ba_image a) GUEST_START_ADDR = (r, v2, opened, closed)"
    by (cases "load_guest_image ?v (ba_image a) GUEST_START_ADDR") auto
  have v2: "v2 = fst (snd (load_guest_image ?v (ba_image a) GUEST_START_ADDR))" by (simp add: l)
  have m2: "snd (vm_destroy v2) = snd (vm_destroy v)" "mem_size v2 = memorySize c" "injected v2 = []" unfolding v2 using v by simp_all
  have window: "request_interrupt_window (run (set_window u x)) = x" for u x by (simp add: set_window_def)
  show ?thesis
    using v m2 load_guest_image_closes [OF l]
    by (auto simp: boot_machine_def i l Let_def case_prod_beta boot_failed_def interrupts_ok_def window IRQ_COUNT_def)
qed

lemma port_device_window:
  assumes "port_device d v = Done (ok, d', v')"
  shows "request_interrupt_window (run v') = request_interrupt_window (run v)" and "injected v' = injected v"
proof -
  have v': "v' = v\<lparr>mem := mem v', run := (run v)\<lparr>run_data := run_data (run v')\<rparr>\<rparr>"
    using io_ports.device_confined [OF assms] by (simp add: confined_def)
  show "request_interrupt_window (run v') = request_interrupt_window (run v)" by (subst v') simp
  show "injected v' = injected v" by (subst v') simp
qed

lemma flush_fields [simp]:
  "sharedBuffer (fst (flush d)) = sharedBuffer (fst d)"
  by (simp add: flush_def flushSerialOutput_def Let_def case_prod_beta)

text \<open>An open window uses up one interrupt if one is left, and the kernel accepts it.\<close>

lemma run_event_window:
  "run_event strerror c v n w (Exited KVM_EXIT_IRQ_WINDOW_OPEN i d m answer) =
     (let u = exited v KVM_EXIT_IRQ_WINDOW_OPEN i d m in
      if n \<le> 0 then Looping c (set_window u False) n w
      else if answer < 0 then Finished False c (on_console (printError c ''Failed to inject an interrupt'') w) (snd (vm_destroy u))
      else Looping c (set_window (u\<lparr>injected := injected u @ [IRQ_NUM]\<rparr>) (n > 1)) (n - 1) w)"
  by (simp add: run_event_def inject_irq_def Let_def)

lemma vm_destroy_injected [simp]: "snd (vm_destroy (v\<lparr>injected := xs\<rparr>)) = snd (vm_destroy v)"
  by (simp add: vm_destroy_def Let_def)

lemma interrupts_ok_inject:
  "interrupts_ok v n \<Longrightarrow> 0 < n \<Longrightarrow> injected u = injected v \<Longrightarrow>
     interrupts_ok (set_window (u\<lparr>injected := injected u @ [IRQ_NUM]\<rparr>) (n > 1)) (n - 1)"
proof -
  assume a: "interrupts_ok v n" "0 < n" "injected u = injected v"
  then have "n \<le> 2" by (simp add: interrupts_ok_def IRQ_COUNT_def)
  then have "nat (IRQ_COUNT - (n - 1)) = Suc (nat (IRQ_COUNT - n))" unfolding IRQ_COUNT_def by arith
  then have "injected u @ [IRQ_NUM] = replicate (nat (IRQ_COUNT - (n - 1))) IRQ_NUM"
    using a by (simp add: interrupts_ok_def replicate_append_same)
  then show ?thesis using a by (simp add: interrupts_ok_def set_window_def)
qed

lemma thread_inv_step:
  assumes "thread_step strerror (c, t) (c', t')" and "thread_inv sz H (c, t)"
  shows "thread_inv sz H (c', t')"
  using assms(1)
proof (cases rule: thread_step_cases)
  case 1: (loop v n w e v' n' w')
  have inv: "mset (snd (vm_destroy v)) = H" "mem_size v = sz" "interrupts_ok v n" using assms(2) 1(1) by simp_all
  have port: "mset (snd (vm_destroy u)) = H \<and> mem_size u = sz \<and> interrupts_ok u n"
    if "port_device (c, w) (exited v r i d m) = Done (ok, d', u)" for r i d m ok d' u
    using io_ports.keeps_resources [OF that] io_ports.keeps_geometry(1) [OF that] port_device_window [OF that] inv
    by (simp add: interrupts_ok_def) (simp add: exited_def)
  show ?thesis
  proof (cases e)
    case (Run_Failed eintr err)
    then show ?thesis using 1 inv by (simp add: run_event_def split: if_splits)
  next
    case (Exited r i d m answer)
    show ?thesis
    proof (cases r)
      case KVM_EXIT_IO
      then obtain cw where "port_device (c, w) (exited v r i d m) = Done (True, cw, v')" "n' = n"
        using 1(3) Exited by (auto simp: run_event_def Let_def case_prod_beta split: outcome.splits if_splits)
      then show ?thesis using port inv 1(2) by simp
    next
      case KVM_EXIT_IRQ_WINDOW_OPEN
      show ?thesis
      proof (cases "n \<le> 0")
        case True
        then have "v' = set_window (exited v r i d m) False" "n' = n"
          using 1(3) by (simp_all add: Exited KVM_EXIT_IRQ_WINDOW_OPEN run_event_window Let_def)
        then show ?thesis using inv 1(2) True by (simp add: interrupts_ok_def) (simp add: set_window_def)
      next
        case False
        let ?u = "exited v r i d m"
        have "v' = set_window (?u\<lparr>injected := injected ?u @ [IRQ_NUM]\<rparr>) (n > 1)" "n' = n - 1"
          using 1(3) False by (simp_all add: Exited KVM_EXIT_IRQ_WINDOW_OPEN run_event_window Let_def split: if_splits)
        then show ?thesis using inv 1(2) interrupts_ok_inject [OF inv(3), of ?u] False by simp
      qed
    qed (use 1(3) Exited in \<open>auto simp: run_event_def Let_def case_prod_beta split: if_splits\<close>)
  qed
next
  case 2: (return v n w e ok w' rel)
  have inv: "mset (snd (vm_destroy v)) = H" using assms(2) 2(1) by simp
  have port: "mset (snd (vm_destroy u)) = H" if "port_device (c, w) (exited v r i d m) = Done (ok, d', u)" for r i d m ok d' u
    using io_ports.keeps_resources [OF that] inv by simp
  show ?thesis
  proof (cases e)
    case (Run_Failed eintr err)
    then show ?thesis using 2 inv by (simp add: run_event_def split: if_splits)
  next
    case (Exited r i d m answer)
    show ?thesis
    proof (cases r)
      case KVM_EXIT_IRQ_WINDOW_OPEN
      then show ?thesis using 2(2,3) inv by (auto simp: Exited run_event_window Let_def split: if_splits)
    qed (use 2(2,3) inv port Exited in \<open>auto simp: run_event_def Let_def case_prod_beta split: outcome.splits if_splits\<close>)
  qed
qed

lemma thread_inv_run:
  "(thread_step strerror)\<^sup>*\<^sup>* (c, t) (c', t') \<Longrightarrow> thread_inv sz H (c, t) \<Longrightarrow> thread_inv sz H (c', t')"
  by (induction rule: rtranclp_induct2) (auto intro: thread_inv_step)

subsection \<open>Properties\<close>

text \<open>
  C30. A port access is confined: whatever the guest asks of the file, shared-buffer and serial
  ports, the host writes no byte behind the end of guest memory and none of the run area
  outside the access's own data, and the machine's descriptors, mappings and sizes are
  untouched.
\<close>

theorem port_access_confined:
  assumes "port_device (c, w) v = Done (ok, cw', v')"
  shows "confined v v' \<and> snd (vm_destroy v') = snd (vm_destroy v)"
  using io_ports.device_confined [OF assms] io_ports.keeps_resources [OF assms] by blast

definition quiet_world :: world where
  "quiet_world = \<lparr>w_shared = initial_SharedState,
     w_host = \<lparr>h_names = Map.empty, h_dirs = (\<lambda>_. False), h_data = (\<lambda>_. []), h_owner_write = (\<lambda>_. True),
       h_next = 0, h_fds = [], h_faults = []\<rparr>,
     w_console = \<lparr>con_out = [], con_err = [], con_in = ''x''\<rparr>\<rparr>"

definition serial_exit :: "io_direction \<Rightarrow> u8 \<Rightarrow> vm" where
  "serial_exit dir x = (blank_vm 64)\<lparr>run := zero_run\<lparr>exit_reason := KVM_EXIT_IO,
     io := \<lparr>io_direction = dir, io_size = 1, io_port = 0xE9, io_count = 1, io_data_offset = 1024\<rparr>,
     run_data := (\<lambda>_. 0)(1024 := x)\<rparr>\<rparr>"

theorem port_access_confined_witness:
  "\<exists>cw' v'. port_device (initial_GuestContext, quiet_world) (serial_exit KVM_EXIT_IO_IN 0) = Done (True, cw', v') \<and>
     confined (serial_exit KVM_EXIT_IO_IN 0) v'"
proof -
  have "\<exists>cw' v'. port_device (initial_GuestContext, quiet_world) (serial_exit KVM_EXIT_IO_IN 0) = Done (True, cw', v')"
    by (simp add: port_device_def serial_device_def handleSerialIo_def serial_exit_def blank_vm_def quiet_world_def
        flushSerialOutput_def initial_GuestContext_def mapping_size_def FILE_IO_PORT_def shared_buffer_consts)
  then show ?thesis using port_access_confined by blast
qed

text \<open>
  C18. A thread's life: however the other threads interfere and whatever the guest and the
  kernel do, when \<open>runVirtualMachine\<close> returns, \<open>vm_destroy\<close> and the closing of the image's stream
  together have released exactly what setting up the machine acquired (the descriptors and
  mappings of \<open>vm_init\<close> and the stream \<open>load_guest_image\<close> opens), also on every failure path; and
  it returns success only for a guest that halted after completing a transfer.
\<close>

theorem machine_returns_clean:
  assumes "(thread_step strerror)\<^sup>*\<^sup>* (c, br_thread (boot_machine strerror c a w)) (c', Returned ok rel)"
  shows "mset rel + mset (br_released (boot_machine strerror c a w)) = mset (br_acquired (boot_machine strerror c a w)) \<and>
    (ok \<longrightarrow> transferCompleted (sharedBuffer c'))"
proof -
  obtain H where H: "mset (br_acquired (boot_machine strerror c a w)) = H + mset (br_released (boot_machine strerror c a w))"
    "thread_inv (memorySize c) H (c, br_thread (boot_machine strerror c a w))" using thread_inv_boot by blast
  show ?thesis using thread_inv_run [OF assms H(2)] H(1) by simp
qed

definition no_messages :: "nat \<Rightarrow> string" where "no_messages n = ''error''"

definition early_halt :: kvm_event where
  "early_halt = Exited KVM_EXIT_HLT (io zero_run) (\<lambda>_. 0) (\<lambda>_. 0) 0"

definition good_boot :: boot_answers where
  "good_boot = \<lparr>ba_kernel = \<lparr>k_open = 3, k_api_version = 12, k_expected_api = 12, k_create_vm = 4,
       k_mmap_mem = Some (\<lambda>_. 0), k_set_memory_region = 0, k_create_vcpu = 5, k_vcpu_mmap_size = 4096,
       k_mmap_run = Some zero_run\<rparr>,
     ba_get_sregs = (0, blank_sregs, 0), ba_set_sregs = (0, 0),
     ba_image = \<lparr>img_opens = True, img_fseek = 0, img_ftell = 1, img_bytes = [0xF4]\<rparr>, ba_set_regs = (0, 0)\<rparr>"

lemma good_boot_runs:
  assumes "memorySize c = 2097152"
  shows "\<exists>v. br_thread (boot_machine strerror c good_boot w) = Running v 2"
    and "br_acquired (boot_machine strerror c good_boot w) = [Fd 3, Fd 4, Mem_Map 2097152, Fd 5, Run_Map 4096, Stream]"
    and "br_released (boot_machine strerror c good_boot w) = [Stream]"
proof -
  have "load_guest_image v (ba_image good_boot) GUEST_START_ADDR =
      (0, v\<lparr>mem := store_bytes (mem v) GUEST_START_ADDR [0xF4]\<rparr>, [Stream], [Stream])"
    if "mem_size v = 2097152" for v
    using that by (simp add: load_guest_image_def good_boot_def GUEST_START_ADDR_def)
  moreover have "\<exists>v. vm_init (ba_kernel good_boot) (memorySize c) = (0, v, [Fd 3, Fd 4, Mem_Map 2097152, Fd 5, Run_Map 4096]) \<and> mem_size v = 2097152"
    using assms by (simp add: vm_init_def good_boot_def)
  moreover have "ba_get_sregs good_boot = (0, blank_sregs, 0)" "ba_set_sregs good_boot = (0, 0)" "ba_set_regs good_boot = (0, 0)"
    by (simp_all add: good_boot_def)
  ultimately show "\<exists>v. br_thread (boot_machine strerror c good_boot w) = Running v 2"
    "br_acquired (boot_machine strerror c good_boot w) = [Fd 3, Fd 4, Mem_Map 2097152, Fd 5, Run_Map 4096, Stream]"
    "br_released (boot_machine strerror c good_boot w) = [Stream]"
    by (auto simp: boot_machine_def Let_def case_prod_beta IRQ_COUNT_def)
qed

theorem machine_returns_clean_witness:
  "\<exists>c' rel. (thread_step no_messages)\<^sup>*\<^sup>* (initial_GuestContext\<lparr>memorySize := 2097152\<rparr>,
       br_thread (boot_machine no_messages (initial_GuestContext\<lparr>memorySize := 2097152\<rparr>) good_boot quiet_world))
     (c', Returned False rel) \<and> mset rel = {#Fd 3, Fd 4, Fd 5, Mem_Map 2097152, Run_Map 4096#}"
proof -
  let ?c = "initial_GuestContext\<lparr>memorySize := 2097152\<rparr>"
  let ?r = "boot_machine no_messages ?c good_boot quiet_world"
  have m: "memorySize ?c = 2097152" by simp
  obtain v where v: "br_thread ?r = Running v 2" using good_boot_runs(1) [OF m] by blast
  have "\<exists>w' rel. run_event no_messages ?c v 2 quiet_world early_halt = Finished False ?c w' rel"
    by (simp add: run_event_def early_halt_def flush_def flushSerialOutput_def initial_GuestContext_def
        initial_SharedBufferVmState_def)
  then obtain w' rel where "run_event no_messages ?c v 2 quiet_world early_halt = Finished False ?c w' rel" by blast
  then have s: "(thread_step no_messages)\<^sup>*\<^sup>* (?c, br_thread ?r) (?c, Returned False rel)"
    unfolding v by (intro r_into_rtranclp thread_step.returns)
  then show ?thesis
    using machine_returns_clean [OF s] good_boot_runs(2,3) [OF m] by (auto simp: add_mset_commute)
qed

text \<open>
  C35. Interrupts: of the two interrupts a machine gets, the kernel has accepted exactly those
  its counter says are used up, each with the guest's vector, and the machine asks for the
  interrupt window exactly while one is left; when the window opens, the next one is injected
  and counted if one is left, and none otherwise.
\<close>

theorem interrupt_budget:
  assumes "(thread_step strerror)\<^sup>*\<^sup>* (c, br_thread (boot_machine strerror c a w)) (c', Running v n)"
  shows "0 \<le> n \<and> n \<le> 2 \<and> injected v = replicate (nat (2 - n)) IRQ_NUM \<and> request_interrupt_window (run v) = (n > 0) \<and>
    (\<exists>v' k. run_event strerror c' v n w' (Exited KVM_EXIT_IRQ_WINDOW_OPEN i d m 0) = Looping c' v' k w' \<and>
       k = (if n > 0 then n - 1 else 0) \<and> injected v' = (if n > 0 then injected v @ [IRQ_NUM] else injected v))"
proof -
  obtain H where "thread_inv (memorySize c) H (c, br_thread (boot_machine strerror c a w))" using thread_inv_boot by blast
  from thread_inv_run [OF assms this] show ?thesis by (auto simp: run_event_window Let_def interrupts_ok_def IRQ_COUNT_def)
qed

definition window_open :: "kvm_event" where
  "window_open = Exited KVM_EXIT_IRQ_WINDOW_OPEN (io zero_run) (\<lambda>_. 0) (\<lambda>_. 0) 0"

theorem interrupt_budget_witness:
  "\<exists>v. (thread_step no_messages)\<^sup>*\<^sup>* (initial_GuestContext\<lparr>memorySize := 2097152\<rparr>,
       br_thread (boot_machine no_messages (initial_GuestContext\<lparr>memorySize := 2097152\<rparr>) good_boot quiet_world))
     (initial_GuestContext\<lparr>memorySize := 2097152\<rparr>, Running v 1) \<and> request_interrupt_window (run v) \<and> injected v = [32]"
proof -
  let ?c = "initial_GuestContext\<lparr>memorySize := 2097152\<rparr>"
  let ?r = "boot_machine no_messages ?c good_boot quiet_world"
  have m: "memorySize ?c = 2097152" by simp
  obtain v where v: "br_thread ?r = Running v 2" using good_boot_runs(1) [OF m] by blast
  have "\<exists>v'. run_event no_messages ?c v 2 quiet_world window_open = Looping ?c v' 1 quiet_world"
    by (simp add: run_event_window window_open_def Let_def)
  then obtain v' where "run_event no_messages ?c v 2 quiet_world window_open = Looping ?c v' 1 quiet_world" by blast
  then have s: "(thread_step no_messages)\<^sup>*\<^sup>* (?c, br_thread ?r) (?c, Running v' 1)"
    unfolding v by (intro r_into_rtranclp thread_step.loops)
  then show ?thesis using interrupt_budget [OF s] by (auto simp: IRQ_NUM_def)
qed

text \<open>A guest that writes characters to port 0xE9 (\<^verbatim>\<open>serial_write\<close> in \<^verbatim>\<open>guest/src/interrupts.c\<close>).\<close>

fun serial_write :: "GuestContext \<Rightarrow> u8 list \<Rightarrow> console \<Rightarrow> GuestContext \<times> console" where
  "serial_write c [] con = (c, con)"
| "serial_write c (x # xs) con =
     (let (ok, c, v, con) = handleSerialIo c (serial_exit KVM_EXIT_IO_OUT x) con in serial_write c xs con)"

definition text_of :: "u8 list \<Rightarrow> string" where
  "text_of xs = map (\<lambda>x. char_of (unat x)) xs"

lemma newline_byte: "unat (x :: u8) mod 256 = 10 \<longleftrightarrow> x = 10"
proof -
  have "unat x < 256" using unsigned_less [of x, where 'a = nat] by simp
  moreover have "unat (10 :: u8) = 10" by simp
  ultimately show ?thesis by (metis mod_less word_unat_eq_iff)
qed

lemma handleSerialIo_out:
  "handleSerialIo c (serial_exit KVM_EXIT_IO_OUT x) con =
     (let c = c\<lparr>serialOutputBuffer := serialOutputBuffer c @ [char_of (unat x)]\<rparr>;
          (c, con) = (if x = 10 then flushSerialOutput c False con else (c, con))
      in (True, c, serial_exit KVM_EXIT_IO_OUT x, con))"
  by (simp add: handleSerialIo_def serial_exit_def blank_vm_def mapping_size_def Let_def newline_byte)

lemma serial_write_plain:
  "10 \<notin> set xs \<Longrightarrow> serial_write c xs con = (c\<lparr>serialOutputBuffer := serialOutputBuffer c @ text_of xs\<rparr>, con)"
proof (induction xs arbitrary: c)
  case (Cons x xs)
  then show ?case by (simp add: handleSerialIo_out Let_def text_of_def)
qed (simp add: text_of_def)

lemma serial_write_append:
  "serial_write c (xs @ ys) con = (case serial_write c xs con of (c, con) \<Rightarrow> serial_write c ys con)"
  by (induction xs arbitrary: c con) (auto simp: Let_def split: prod.split)

text \<open>
  C38. Lines of the console stay whole: nothing a guest prints appears before its newline, and
  then the whole line is written at once behind the machine's tag. Because each write happens
  under the console's mutex, lines of different machines do not mix.
\<close>

theorem serial_line_is_atomic:
  assumes "10 \<notin> set xs" and "serialOutputBuffer c = []"
  shows "snd (serial_write c xs con) = con \<and>
    serial_write c (xs @ [10]) con = (c, con\<lparr>con_out := con_out con @ ''[VM '' @ show_nat (gid c) @ ''] '' @ text_of (xs @ [10])\<rparr>)"
proof -
  have "c\<lparr>serialOutputBuffer := []\<rparr> = c" using assms(2) by simp
  then show ?thesis
    using assms
    by (simp add: serial_write_plain serial_write_append handleSerialIo_out Let_def flushSerialOutput_def to_out_def
        vm_prefix_def text_of_def)
qed

theorem serial_line_is_atomic_witness:
  "con_out (snd (serial_write initial_GuestContext [72, 105, 10] (w_console quiet_world))) =
     ''[VM 0] '' @ text_of [72, 105, 10]"
proof -
  have tag: "show_nat 0 = ''0''" by code_simp
  have "gid initial_GuestContext = 0" "serialOutputBuffer initial_GuestContext = []" "con_out (w_console quiet_world) = []"
    by (simp_all add: initial_GuestContext_def quiet_world_def)
  then show ?thesis
    using serial_line_is_atomic [of "[72, 105]" initial_GuestContext "w_console quiet_world"]
    by (simp add: tag del: serial_write.simps)
qed

end
