(* ===== verification/Host_Frame.thy ===== *)
theory Host_Frame
  imports Host_Files "HOL-Library.Multiset"
begin

text \<open>
  Reasoning about sequences of host calls made on behalf of one machine. \<open>owned\<close> lists the
  host descriptors the machine owns, each with a flag that says whether it stands for a
  shared file; \<open>P\<close> is a set of inodes the machine must leave alone. \<open>host_step\<close> says that a
  sequence of calls keeps the ownership invariant, changes nothing in \<open>P\<close> and no name
  outside the machine's own names, and accounts for every descriptor: it closed what it
  no longer owns, and what it owns newly was free. It is reflexive and transitive, so the
  operations of the file component compose it call by call.
\<close>

type_synonym owned = "(int \<times> bool) list"

subsection \<open>The ownership invariant\<close>

definition inode_of :: "host \<Rightarrow> int \<Rightarrow> nat option" where
  "inode_of h d = map_option oh_inode (fd_lookup h d)"

definition host_ok :: "host \<Rightarrow> bool" where
  "host_ok h \<longleftrightarrow> (\<forall>p i. h_names h p = Some i \<longrightarrow> i < h_next h) \<and>
     (\<forall>d i. inode_of h d = Some i \<longrightarrow> i < h_next h)"

text \<open>\<open>mine\<close> are the names the machine may create, change and remove.\<close>

definition own_inv :: "nat set \<Rightarrow> path set \<Rightarrow> owned \<Rightarrow> host \<Rightarrow> bool" where
  "own_inv P mine L h \<longleftrightarrow>
     host_ok h \<and> distinct (map fst L) \<and>
     (\<forall>(d, s)\<in>set L. \<exists>i. inode_of h d = Some i \<and> (\<not> s \<longrightarrow> i \<notin> P)) \<and>
     (\<forall>p\<in>mine. \<forall>i. h_names h p = Some i \<longrightarrow> i \<notin> P) \<and>
     (\<forall>i\<in>P. i < h_next h)"

definition host_frame :: "nat set \<Rightarrow> path set \<Rightarrow> host \<Rightarrow> host \<Rightarrow> bool" where
  "host_frame P mine h h' \<longleftrightarrow>
     (\<forall>i\<in>P. h_data h' i = h_data h i) \<and> (\<forall>p. p \<notin> mine \<longrightarrow> h_names h' p = h_names h p) \<and>
     h_next h \<le> h_next h'"

definition accounted :: "int set \<Rightarrow> host \<Rightarrow> int set \<Rightarrow> host \<Rightarrow> bool" where
  "accounted O1 h O2 h' \<longleftrightarrow>
     (\<forall>d. d \<notin> O1 \<union> O2 \<longrightarrow> fd_lookup h' d = fd_lookup h d) \<and>
     (\<forall>d\<in>O2 - O1. fd_lookup h d = None) \<and> (\<forall>d\<in>O1 - O2. fd_lookup h' d = None)"

definition host_step :: "nat set \<Rightarrow> path set \<Rightarrow> owned \<Rightarrow> host \<Rightarrow> owned \<Rightarrow> host \<Rightarrow> bool" where
  "host_step P mine L h L' h' \<longleftrightarrow>
     (own_inv P mine L h \<longrightarrow>
        own_inv P mine L' h' \<and> host_frame P mine h h' \<and> accounted (fst ` set L) h (fst ` set L') h')"

lemma accounted_trans: "accounted O1 h1 O2 h2 \<Longrightarrow> accounted O2 h2 O3 h3 \<Longrightarrow> accounted O1 h1 O3 h3"
  unfolding accounted_def by (auto; metis DiffI)

lemma host_step_refl [simp]: "host_step P mine L h L h"
  by (simp add: host_step_def host_frame_def accounted_def)

lemma host_step_trans:
  "host_step P mine L1 h1 L2 h2 \<Longrightarrow> host_step P mine L2 h2 L3 h3 \<Longrightarrow> host_step P mine L1 h1 L3 h3"
  unfolding host_step_def
  by (auto intro: accounted_trans) (auto simp: host_frame_def)

lemma host_step_perm: "mset L = mset L' \<Longrightarrow> host_step P mine L h L' h"
proof -
  assume m: "mset L = mset L'"
  then have "set L = set L'" by (metis set_mset_mset)
  moreover have "distinct (map fst L) = distinct (map fst L')"
    using m by (metis mset_eq_imp_distinct_iff mset_map)
  ultimately show ?thesis
    by (auto simp: host_step_def own_inv_def host_frame_def accounted_def)
qed

lemma own_inv_cong:
  assumes "h_names h' = h_names h" and "h_next h' = h_next h" and "inode_of h' = inode_of h"
  shows "own_inv P mine L h' = own_inv P mine L h"
  by (simp add: own_inv_def host_ok_def assms)

text \<open>A call that keeps names, inodes and open descriptors is a step if it spares \<open>P\<close>.\<close>

lemma host_step_same:
  assumes "h_names h' = h_names h" and "h_next h' = h_next h" and "inode_of h' = inode_of h"
    and "\<And>d. d \<notin> fst ` set L \<Longrightarrow> fd_lookup h' d = fd_lookup h d"
    and "\<And>i. own_inv P mine L h \<Longrightarrow> i \<in> P \<Longrightarrow> h_data h' i = h_data h i"
  shows "host_step P mine L h L h'"
  unfolding host_step_def host_frame_def accounted_def own_inv_cong [OF assms(1-3)]
  using assms by auto

lemma host_step_take_fault [simp]: "host_step P mine L h L (snd (take_fault h))"
  by (rule host_step_same) (auto simp: inode_of_def)

lemma host_step_then_fault:
  "host_step P mine L (snd (take_fault h)) L' h' \<Longrightarrow> host_step P mine L h L' h'"
  by (rule host_step_trans [OF host_step_take_fault])

lemma host_step_offset:
  assumes "fd_lookup h d = Some g" and "d \<in> fst ` set L"
  shows "host_step P mine L h L (fd_update h d (g\<lparr>oh_offset := n\<rparr>))"
  by (rule host_step_same) (use assms in \<open>auto simp: inode_of_def\<close>)

subsection \<open>One lemma per call\<close>

lemma host_step_lseek:
  assumes "os_lseek h d off w = (x, h')" and "d \<in> fst ` set L"
  shows "host_step P mine L h L h'"
proof (cases "fd_lookup h d")
  case None
  then show ?thesis using assms(1) by (auto simp: os_lseek_def Let_def case_prod_beta)
next
  case (Some g)
  have "host_step P mine L h L (fd_update (snd (take_fault h)) d (g\<lparr>oh_offset := k\<rparr>))" for k
    by (rule host_step_then_fault, rule host_step_offset) (simp_all add: Some assms(2))
  then show ?thesis
    using assms(1) Some by (auto simp: os_lseek_def Let_def case_prod_beta split: if_splits)
qed

lemma host_step_read:
  assumes "os_read h d n = (x, h')" and "d \<in> fst ` set L"
  shows "host_step P mine L h L h'"
proof (cases "fd_lookup h d")
  case None
  then show ?thesis using assms(1) by (auto simp: os_read_def Let_def case_prod_beta)
next
  case (Some g)
  have "host_step P mine L h L (fd_update (snd (take_fault h)) d (g\<lparr>oh_offset := k\<rparr>))" for k
    by (rule host_step_then_fault, rule host_step_offset) (simp_all add: Some assms(2))
  then show ?thesis
    using assms(1) Some by (auto simp: os_read_def Let_def case_prod_beta split: if_splits)
qed

lemma host_step_data:
  assumes "fd_lookup h d = Some g" and "(d, False) \<in> set L"
  shows "host_step P mine L h L (h\<lparr>h_data := (h_data h)(oh_inode g := bs)\<rparr>)"
proof (rule host_step_same)
  show "h_data (h\<lparr>h_data := (h_data h)(oh_inode g := bs)\<rparr>) i = h_data h i"
    if "own_inv P mine L h" "i \<in> P" for i
    using that assms by (force simp: own_inv_def inode_of_def)
qed (simp_all add: inode_of_def fun_eq_iff)

lemma host_step_write:
  assumes "os_write h d bs = (x, h')" and "(d, False) \<in> set L"
  shows "host_step P mine L h L h'"
proof (rule host_step_then_fault)
  let ?h = "snd (take_fault h)"
  have d: "d \<in> fst ` set L" using assms(2) by force
  have "host_step P mine L ?h L (fd_update (?h\<lparr>h_data := (h_data ?h)(oh_inode g := cs)\<rparr>) d (g\<lparr>oh_offset := n\<rparr>))"
    if "fd_lookup h d = Some g" for g cs n
    by (rule host_step_trans [OF host_step_data [OF _ assms(2)] host_step_offset [OF _ d]])
      (simp_all add: that)
  then show "host_step P mine L ?h L h'"
    using assms(1) by (auto simp: os_write_def Let_def case_prod_beta split: option.splits if_splits)
qed

lemma host_step_remove:
  assumes "d \<in> fst ` set L"
  shows "host_step P mine L h (filter (\<lambda>(e, s). e \<noteq> d) L) (fd_remove h d)"
proof -
  have i: "inode_of (fd_remove h d) e = (if e = d then None else inode_of h e)" for e
    by (simp add: inode_of_def)
  have f: "fst ` set (filter (\<lambda>(e, s). e \<noteq> d) L) = fst ` set L - {d}" by force
  have "distinct (map fst L) \<Longrightarrow> distinct (map fst (filter (\<lambda>(e, s). e \<noteq> d) L))"
    by (rule distinct_map_filter)
  then show ?thesis
    unfolding host_step_def own_inv_def host_ok_def accounted_def host_frame_def f
    using assms by (auto simp: i split: if_splits)
qed

lemma host_step_close:
  assumes "os_close h d = (x, h')" and "d \<in> fst ` set L"
  shows "host_step P mine L h (filter (\<lambda>(e, s). e \<noteq> d) L) h'"
proof (cases "fd_lookup h d")
  case None
  then have "\<not> own_inv P mine L h" using assms(2) unfolding own_inv_def inode_of_def by force
  then show ?thesis by (simp add: host_step_def)
next
  case (Some g)
  have "host_step P mine L h (filter (\<lambda>(e, s). e \<noteq> d) L) (fd_remove (snd (take_fault h)) d)"
    by (rule host_step_then_fault, rule host_step_remove [OF assms(2)])
  then show ?thesis
    using assms(1) Some by (auto simp: os_close_def Let_def case_prod_beta)
qed

lemma host_step_install:
  assumes "own_inv P mine L h \<Longrightarrow> oh_inode f < h_next h \<and> (s \<or> oh_inode f \<notin> P)"
  shows "host_step P mine L h (L @ [(fst (fd_install h f), s)]) (snd (fd_install h f))"
proof -
  let ?d = "fst (fd_install h f)" and ?h = "snd (fd_install h f)"
  have i: "inode_of ?h e = (if e = ?d then Some (oh_inode f) else inode_of h e)" for e
    by (simp add: inode_of_def fd_lookup_install)
  have fresh: "inode_of h ?d = None" by (simp add: inode_of_def fd_install_fresh)
  have new: "?d \<notin> fst ` set L" if "own_inv P mine L h"
    using that fresh by (force simp: own_inv_def)
  have entry: "\<exists>j. inode_of ?h e = Some j \<and> (\<not> t \<longrightarrow> j \<notin> P)"
    if inv: "own_inv P mine L h" and "(e, t) \<in> set (L @ [(?d, s)])" for e t
  proof (cases "(e, t) \<in> set L")
    case True
    then have "e \<noteq> ?d" using new [OF inv] by force
    then show ?thesis using True inv by (fastforce simp: i own_inv_def)
  next
    case False
    then show ?thesis using that(2) assms [OF inv] by (auto simp: i)
  qed
  have "own_inv P mine (L @ [(?d, s)]) ?h" if inv: "own_inv P mine L h"
  proof -
    have "host_ok ?h" using inv assms [OF inv] by (auto simp: own_inv_def host_ok_def i)
    moreover have "distinct (map fst (L @ [(?d, s)]))"
      using inv new [OF inv] by (auto simp: own_inv_def)
    ultimately show ?thesis
      using inv entry [OF inv] unfolding own_inv_def by auto
  qed
  moreover have "accounted (fst ` set L) h (fst ` set (L @ [(?d, s)])) ?h"
    using fd_install_fresh [of h f] by (auto simp: accounted_def fd_lookup_install)
  ultimately show ?thesis by (simp add: host_step_def host_frame_def)
qed

lemma host_step_installed:
  assumes "fd_install h f = (d, h')"
    and "own_inv P mine L h \<Longrightarrow> oh_inode f < h_next h \<and> (s \<or> oh_inode f \<notin> P)"
  shows "host_step P mine L h (if d < 0 then L else L @ [(d, s)]) h'"
  using host_step_install [OF assms(2)] fd_install_nonneg [of h f] by (auto simp: assms(1))

text \<open>A new inode under one of the machine's names.\<close>

lemma host_step_create:
  assumes "p \<in> mine"
  shows "host_step P mine L h L (h\<lparr>h_names := (h_names h)(p \<mapsto> h_next h), h_data := (h_data h)(h_next h := bs),
    h_owner_write := w, h_next := Suc (h_next h)\<rparr>)" (is "host_step P mine L h L ?h")
proof -
  have i: "inode_of ?h = inode_of h" by (rule ext) (simp add: inode_of_def)
  have l: "fd_lookup ?h d = fd_lookup h d" for d by simp
  show ?thesis
    unfolding host_step_def own_inv_def host_ok_def host_frame_def accounted_def i l
    using assms by (auto simp: less_Suc_eq split: if_splits)
qed

definition created :: "host \<Rightarrow> path \<Rightarrow> host" where
  "created h p = h\<lparr>h_names := (h_names h)(p \<mapsto> h_next h), h_data := (h_data h)(h_next h := []),
     h_owner_write := (h_owner_write h)(h_next h := True), h_next := Suc (h_next h)\<rparr>"

lemma os_open_cases:
  assumes "os_open h p fl = (d, h')"
  obtains "d = -1" "h' = snd (take_fault h)"
  | i where "h_names h p = Some i" "hf_access fl = O_RDONLY \<or> h_owner_write h i"
      "fd_install (snd (take_fault h)) \<lparr>oh_inode = i, oh_access = hf_access fl, oh_offset = 0\<rparr> = (d, h')"
  | "h_names h p = None" "hf_creat fl"
      "fd_install (created (snd (take_fault h)) p)
         \<lparr>oh_inode = h_next h, oh_access = hf_access fl, oh_offset = 0\<rparr> = (d, h')"
  using assms
  by (cases "h_names h p")
    (auto simp: os_open_def Let_def case_prod_beta created_def split: if_splits)

lemma host_step_open:
  assumes "os_open h p fl = (d, h')" and "p \<in> mine \<or> s \<and> \<not> hf_creat fl"
  shows "host_step P mine L h (if d < 0 then L else L @ [(d, s)]) h'"
  using assms(1)
proof (cases rule: os_open_cases)
  case 1
  then show ?thesis by simp
next
  case (2 i)
  show ?thesis
    by (rule host_step_then_fault, rule host_step_installed [OF 2(3)])
      (use 2(1) assms(2) in \<open>auto simp: own_inv_def host_ok_def\<close>)
next
  case 3
  let ?h = "snd (take_fault h)"
  show ?thesis
  proof (rule host_step_then_fault, rule host_step_trans)
    show "host_step P mine L ?h L (created ?h p)"
      using host_step_create [of p mine P L ?h] assms(2) 3(2) by (simp add: created_def)
    show "host_step P mine L (created ?h p) (if d < 0 then L else L @ [(d, s)]) h'"
      by (rule host_step_installed [OF 3(3)])
        (use 3 assms(2) in \<open>auto simp: own_inv_def host_ok_def created_def\<close>)
  qed
qed

lemma host_step_exists [simp]: "host_step P mine L h L (snd (fs_exists h p))"
  by (simp add: fs_exists_def case_prod_beta)

lemma host_step_dirs: "host_step P mine L h L (snd (fs_create_directories h p))"
proof (rule host_step_then_fault)
  show "host_step P mine L (snd (take_fault h)) L (snd (fs_create_directories h p))"
    by (rule host_step_same) (auto simp: fs_create_directories_def inode_of_def case_prod_beta)
qed

lemma host_step_owner_write: "host_step P mine L h L (snd (fs_add_owner_write h p))"
proof (rule host_step_then_fault)
  show "host_step P mine L (snd (take_fault h)) L (snd (fs_add_owner_write h p))"
    by (rule host_step_same) (auto simp: fs_add_owner_write_def inode_of_def case_prod_beta split: option.split)
qed

lemma host_step_fs_remove:
  assumes "p \<in> mine"
  shows "host_step P mine L h L (fs_remove h p)"
proof (rule host_step_then_fault)
  let ?h = "snd (take_fault h)"
  have "inode_of (?h\<lparr>h_names := m\<rparr>) = inode_of ?h" for m by (rule ext) (simp add: inode_of_def)
  then show "host_step P mine L ?h L (fs_remove h p)"
    using assms by (auto simp: fs_remove_def case_prod_beta host_step_def own_inv_def host_ok_def
        host_frame_def accounted_def)
qed

lemma host_step_copy:
  assumes "dst \<in> mine"
  shows "host_step P mine L h L (snd (fs_copy_file h src dst))"
proof (rule host_step_then_fault)
  show "host_step P mine L (snd (take_fault h)) L (snd (fs_copy_file h src dst))"
    using host_step_create [OF assms, of P L "snd (take_fault h)"]
    by (auto simp: fs_copy_file_def case_prod_beta Let_def split: option.split fault.split)
qed

end
