(* ===== verification/File_Isolation.thy ===== *)
theory File_Isolation
  imports File_Io Host_Frame
begin

text \<open>
  Every file operation of a guest is a \<open>host_step\<close> of that guest: it keeps the descriptor
  table consistent with the host's, leaves the inodes it does not own alone, changes names
  only below the guest's own directory and neither leaks nor steals a host descriptor,
  however the host's calls fail. Isolation between machines and the safety of the shared
  originals are instances.
\<close>

subsection \<open>Own names\<close>

definition own_names :: "nat \<Rightarrow> path set" where
  "own_names vm_id = range (local_path vm_id)"

lemma local_path_own [simp]: "local_path vm_id n \<in> own_names vm_id"
  by (simp add: own_names_def)

lemma local_path_inj: "local_path a m = local_path b n \<longleftrightarrow> a = b \<and> m = n"
proof
  assume "local_path a m = local_path b n"
  then have "show_nat a @ CHR ''/'' # m = show_nat b @ CHR ''/'' # n" by (simp add: local_path_def)
  then show "a = b \<and> m = n" using prefix_before_sep [of "show_nat a" "CHR ''/''" m "show_nat b" n] by auto
qed simp

lemma own_names_disjoint: "a \<noteq> b \<Longrightarrow> local_path a n \<notin> own_names b"
  by (auto simp: own_names_def local_path_inj)

subsection \<open>The guest's invariant and steps\<close>

definition owners :: "(i32 \<times> OpenFile) list \<Rightarrow> owned" where
  "owners t = map (\<lambda>(k, f). (hostDescriptor f, shared f)) t"

definition reopened_owned :: "reopened list \<Rightarrow> owned" where
  "reopened_owned rs = map (\<lambda>(k, d). (d, False)) rs"

definition table :: "GuestContext \<Rightarrow> (i32 \<times> OpenFile) list" where
  "table c = openFiles (fileState c)"

definition guest_inv :: "nat set \<Rightarrow> GuestContext \<Rightarrow> host \<Rightarrow> bool" where
  "guest_inv P c h \<longleftrightarrow> distinct (map fst (table c)) \<and> own_inv P (own_names (gid c)) (owners (table c)) h"

definition guest_step :: "nat set \<Rightarrow> GuestContext \<Rightarrow> host \<Rightarrow> GuestContext \<Rightarrow> host \<Rightarrow> bool" where
  "guest_step P c h c' h' \<longleftrightarrow> gid c' = gid c \<and>
     (distinct (map fst (table c)) \<longrightarrow> distinct (map fst (table c')) \<and>
        host_step P (own_names (gid c)) (owners (table c)) h (owners (table c')) h')"

lemma guest_step_refl [simp]: "guest_step P c h c h"
  by (simp add: guest_step_def)

lemma guest_step_trans: "guest_step P c h c1 h1 \<Longrightarrow> guest_step P c1 h1 c2 h2 \<Longrightarrow> guest_step P c h c2 h2"
  unfolding guest_step_def by (auto intro: host_step_trans)

lemma guest_step_same_table:
  "gid c' = gid c \<Longrightarrow> table c' = table c \<Longrightarrow>
     host_step P (own_names (gid c)) (owners (table c)) h (owners (table c)) h' \<Longrightarrow> guest_step P c h c' h'"
  by (simp add: guest_step_def)

lemma guest_stepD:
  assumes "guest_step P c h c' h'" and "guest_inv P c h"
  shows "guest_inv P c' h'" and "host_frame P (own_names (gid c)) h h'"
    and "accounted (hostDescriptor ` snd ` set (table c)) h (hostDescriptor ` snd ` set (table c')) h'"
  using assms
  by (auto simp: guest_step_def guest_inv_def host_step_def owners_def image_image case_prod_beta)

lemma fileState_fields [simp]:
  "gid (set_openFiles c t) = gid c" "table (set_openFiles c t) = t" "gid (push_result c x) = gid c"
  "table (push_result c x) = table c" "fileState (set_openFiles c t) = (fileState c)\<lparr>openFiles := t\<rparr>"
  by (simp_all add: set_openFiles_def push_result_def table_def)

lemma in_owners: "(k, f) \<in> set t \<Longrightarrow> hostDescriptor f \<in> fst ` set (owners t)"
  by (force simp: owners_def)

lemma map_of_in_owners: "map_of t k = Some f \<Longrightarrow> (hostDescriptor f, shared f) \<in> set (owners t)"
  by (force simp: owners_def dest: map_of_SomeD)

lemma owners_differ:
  assumes "distinct (map fst (owners t))" and "map_of t j = Some f" and "map_of t k = Some g" and "j \<noteq> k"
  shows "hostDescriptor f \<noteq> hostDescriptor g"
proof -
  have i: "inj_on (\<lambda>e. hostDescriptor (snd e)) (set t)"
    using assms(1) by (simp add: owners_def distinct_map comp_def case_prod_beta)
  have "(j, f) \<in> set t" "(k, g) \<in> set t" using assms(2,3) by (simp_all add: map_of_SomeD)
  then show ?thesis using inj_onD [OF i, of "(j, f)" "(k, g)"] assms(4) by auto
qed

lemma descriptors_differ:
  "guest_inv P c h \<Longrightarrow> map_of (table c) j = Some f \<Longrightarrow> map_of (table c) k = Some g \<Longrightarrow> j \<noteq> k \<Longrightarrow>
     hostDescriptor f \<noteq> hostDescriptor g"
  using owners_differ [of "table c"] by (simp add: guest_inv_def own_inv_def)

subsection \<open>Copy on write\<close>

lemma host_step_close_at:
  assumes "os_close h d = (x, h')"
  shows "host_step P mine (A @ (d, s) # B) h (A @ B) h'"
proof (cases "own_inv P mine (A @ (d, s) # B) h")
  case True
  then have "d \<notin> fst ` set A" "d \<notin> fst ` set B" by (auto simp: own_inv_def)
  then have "filter (\<lambda>(e, s). e \<noteq> d) A = A" "filter (\<lambda>(e, s). e \<noteq> d) B = B"
    by (auto intro!: filter_True simp: rev_image_eqI)
  then have "filter (\<lambda>(e, s). e \<noteq> d) (A @ (d, s) # B) = A @ B" by simp
  then show ?thesis using host_step_close [OF assms, of "A @ (d, s) # B" P mine] by simp
qed (simp add: host_step_def)

lemma host_step_closeReopened:
  "host_step P mine (L @ reopened_owned rs) h L (closeReopenedFiles rs h)"
proof (induction rs arbitrary: h)
  case (Cons r rs)
  obtain k d where r: "r = (k, d)" by (cases r)
  show ?case
    using host_step_trans [OF host_step_close_at [OF prod.collapse [symmetric], of P mine L d False "reopened_owned rs" h] Cons.IH]
    by (simp add: r reopened_owned_def)
qed (simp add: reopened_owned_def)

lemma reopen_scan_Cons:
  assumes "reopen_scan n p ((k, f) # t) rs h = (res, h')"
  obtains (skip) "\<not> shared f \<or> name f \<noteq> n" "reopen_scan n p t rs h = (res, h')"
  | (seek_fails) off h1 where "os_lseek h (hostDescriptor f) 0 W_CUR = (off, h1)"
      "res = None" "h' = closeReopenedFiles rs h1"
  | (open_fails) off h1 d h2 where "os_lseek h (hostDescriptor f) 0 W_CUR = (off, h1)"
      "os_open h1 p (toHostOpenFlags (flags f)) = (d, h2)" "d < 0"
      "res = None" "h' = closeReopenedFiles rs h2"
  | (position_fails) off h1 d h2 pos h3 where "os_lseek h (hostDescriptor f) 0 W_CUR = (off, h1)"
      "os_open h1 p (toHostOpenFlags (flags f)) = (d, h2)" "0 \<le> d"
      "os_lseek h2 d off W_SET = (pos, h3)"
      "res = None" "h' = closeReopenedFiles rs (snd (os_close h3 d))"
  | (reopened) off h1 d h2 pos h3 where "shared f" "name f = n"
      "os_lseek h (hostDescriptor f) 0 W_CUR = (off, h1)" "0 \<le> off"
      "os_open h1 p (toHostOpenFlags (flags f)) = (d, h2)" "0 \<le> d"
      "os_lseek h2 d off W_SET = (pos, h3)" "0 \<le> pos"
      "reopen_scan n p t (rs @ [(k, d)]) h3 = (res, h')"
proof -
  obtain off h1 where seek: "os_lseek h (hostDescriptor f) 0 W_CUR = (off, h1)" by fastforce
  obtain d h2 where opn: "os_open h1 p (toHostOpenFlags (flags f)) = (d, h2)" by fastforce
  obtain pos h3 where pos: "os_lseek h2 d off W_SET = (pos, h3)" by fastforce
  consider "\<not> shared f \<or> name f \<noteq> n" | "shared f" "name f = n" "off < 0"
    | "shared f" "name f = n" "0 \<le> off" "d < 0" | "shared f" "name f = n" "0 \<le> off" "0 \<le> d" "pos < 0"
    | "shared f" "name f = n" "0 \<le> off" "0 \<le> d" "0 \<le> pos" by linarith
  then show thesis
    by cases (use assms seek opn pos in \<open>auto intro: that\<close>)
qed

lemma host_step_reopen_scan:
  assumes "reopen_scan n p t rs h = (res, h')" and "p \<in> mine"
    and "\<And>k f. (k, f) \<in> set t \<Longrightarrow> hostDescriptor f \<in> fst ` set L"
  shows "host_step P mine (L @ reopened_owned rs) h
    (L @ (case res of None \<Rightarrow> [] | Some rs' \<Rightarrow> reopened_owned rs')) h'"
  using assms(1,3)
proof (induction t arbitrary: rs h)
  case Nil
  then show ?case by auto
next
  case (Cons e t)
  obtain k f where e: "e = (k, f)" by (cases e)
  have rest: "hostDescriptor f' \<in> fst ` set L" if "(k', f') \<in> set t" for k' f'
    using Cons.prems(2) that by (meson list.set_intros(2))
  let ?L = "L @ reopened_owned rs"
  have seek: "host_step P mine ?L h ?L h1" if "os_lseek h (hostDescriptor f) 0 W_CUR = (off, h1)" for off h1
    using Cons.prems(2) [of k f] e by (intro host_step_lseek [OF that]) auto
  have opn: "host_step P mine ?L h1 (if d < 0 then ?L else ?L @ [(d, False)]) h2"
    if "os_open h1 p fl = (d, h2)" for h1 fl d h2
    by (rule host_step_open [OF that]) (simp add: assms(2))
  have pos: "host_step P mine (?L @ [(d, False)]) h2 (?L @ [(d, False)]) h3"
    if "os_lseek h2 d off W_SET = (x, h3)" for d off x h2 h3
    by (rule host_step_lseek [OF that]) auto
  note close = host_step_closeReopened [of P mine L rs]
  show ?case
    using Cons.prems(1) [unfolded e]
  proof (cases rule: reopen_scan_Cons)
    case skip
    then show ?thesis using Cons.IH rest by blast
  next
    case (seek_fails off h1)
    then show ?thesis using host_step_trans [OF seek [OF seek_fails(1)] close] by simp
  next
    case (open_fails off h1 d h2)
    then show ?thesis
      using host_step_trans [OF seek [OF open_fails(1)] host_step_trans [OF opn [OF open_fails(2)]]] close by simp
  next
    case (position_fails off h1 d h2 q h3)
    have "host_step P mine (?L @ [(d, False)]) h3 L (closeReopenedFiles rs (snd (os_close h3 d)))"
      using host_step_trans [OF host_step_close_at [OF prod.collapse [symmetric], of P mine ?L d False "[]" h3, unfolded append_Nil2] close]
      by simp
    then show ?thesis
      using position_fails host_step_trans [OF seek [OF position_fails(1)]
          host_step_trans [OF opn [OF position_fails(2)]]] host_step_trans [OF pos [OF position_fails(4)]]
      by simp
  next
    case (reopened off h1 d h2 q h3)
    have "host_step P mine (L @ reopened_owned (rs @ [(k, d)])) h3
        (L @ (case res of None \<Rightarrow> [] | Some rs' \<Rightarrow> reopened_owned rs')) h'"
      by (rule Cons.IH [OF reopened(9) rest])
    then show ?thesis
      using reopened host_step_trans [OF seek [OF reopened(3)]
          host_step_trans [OF opn [OF reopened(5)]]] host_step_trans [OF pos [OF reopened(7)]]
      by (simp add: reopened_owned_def)
  qed
qed

lemma map_fst_update_entry [simp]: "map fst (update_entry k g t) = map fst t"
  by (simp add: update_entry_def case_prod_beta comp_def if_distrib)

lemma map_of_update_entry [simp]:
  "map_of (update_entry k g t) k' = (if k' = k then map_option g (map_of t k) else map_of t k')"
  by (induction t) (auto simp: update_entry_def)

lemma update_entry_other: "k \<notin> fst ` set t \<Longrightarrow> update_entry k g t = t"
  by (induction t) (auto simp: update_entry_def)

lemma host_step_reopen_commit:
  assumes "reopen_commit p rs t h = (t', h')" and "distinct (map fst t)"
    and "\<forall>k\<in>fst ` set rs. k \<in> fst ` set t"
  shows "map fst t' = map fst t \<and> host_step P mine (owners t @ reopened_owned rs) h (owners t') h'"
  using assms
proof (induction rs arbitrary: t h)
  case Nil
  then show ?case by (auto simp: reopened_owned_def)
next
  case (Cons r rs)
  obtain k d where r: "r = (k, d)" by (cases r)
  from Cons.prems(3) obtain f where f: "map_of t k = Some f"
    by (auto simp: r) (metis Cons.prems(2) fst_conv image_iff map_of_eq_None_iff option.exhaust)
  then obtain A B where t: "t = A @ (k, f) # B" by (meson map_of_SomeD split_list)
  let ?g = "\<lambda>f. f\<lparr>hostDescriptor := d, hostPath := p, shared := False\<rparr>"
  have upd: "update_entry k ?g t = A @ (k, ?g f) # B"
  proof -
    have "k \<notin> fst ` set A" "k \<notin> fst ` set B" using Cons.prems(2) by (auto simp: t)
    then show ?thesis
      using update_entry_other [of k A ?g] update_entry_other [of k B ?g]
      by (simp add: t update_entry_def)
  qed
  let ?h = "snd (os_close h (hostDescriptor f))"
  have "host_step P mine (owners t @ reopened_owned (r # rs)) h
      (owners A @ owners B @ reopened_owned (r # rs)) ?h"
    using host_step_close_at [OF prod.collapse [symmetric], of P mine "owners A" "hostDescriptor f"
        "shared f" "owners B @ reopened_owned (r # rs)" h]
    by (simp add: t owners_def)
  moreover have "mset (owners A @ owners B @ reopened_owned (r # rs)) =
      mset (owners (update_entry k ?g t) @ reopened_owned rs)"
    unfolding upd by (simp add: owners_def reopened_owned_def r)
  ultimately have s: "host_step P mine (owners t @ reopened_owned (r # rs)) h
      (owners (update_entry k ?g t) @ reopened_owned rs) ?h"
    by (metis host_step_perm host_step_trans)
  have "reopen_commit p rs (update_entry k ?g t) ?h = (t', h')"
    using Cons.prems(1) by (simp add: r f Let_def)
  moreover have "distinct (map fst (update_entry k ?g t))" using Cons.prems(2) by simp
  moreover have "\<forall>k'\<in>fst ` set rs. k' \<in> fst ` set (update_entry k ?g t)"
  proof -
    have "fst ` set (update_entry k ?g t) = fst ` set t"
      by (simp only: set_map [symmetric] map_fst_update_entry)
    then show ?thesis using Cons.prems(3) by simp
  qed
  ultimately have "map fst t' = map fst (update_entry k ?g t) \<and>
      host_step P mine (owners (update_entry k ?g t) @ reopened_owned rs) ?h (owners t') h'"
    by (rule Cons.IH)
  with s show ?case by (auto intro: host_step_trans)
qed

text \<open>Which entries the scan reopens, and what the commit makes of the table.\<close>

definition matching :: "string \<Rightarrow> (i32 \<times> OpenFile) list \<Rightarrow> (i32 \<times> OpenFile) list" where
  "matching n t = filter (\<lambda>(k, f). shared f \<and> name f = n) t"

lemma reopen_scan_keys:
  "reopen_scan n p t rs h = (Some rs', h') \<Longrightarrow> map fst rs' = map fst rs @ map fst (matching n t)"
proof (induction t arbitrary: rs h)
  case (Cons e t)
  obtain k f where e: "e = (k, f)" by (cases e)
  show ?case
    using Cons.prems [unfolded e]
  proof (cases rule: reopen_scan_Cons)
    case skip
    then show ?thesis using Cons.IH [OF skip(2)] by (auto simp: e matching_def)
  next
    case reopened
    then show ?thesis using Cons.IH [OF reopened(9)] by (auto simp: e matching_def)
  qed simp_all
qed (auto simp: matching_def)

lemma reopen_commit_table:
  "reopen_commit p rs t h = (t', h') \<Longrightarrow> distinct (map fst rs) \<Longrightarrow>
     map_of t' k = (case map_of rs k of None \<Rightarrow> map_of t k
       | Some d \<Rightarrow> map_option (\<lambda>f. f\<lparr>hostDescriptor := d, hostPath := p, shared := False\<rparr>) (map_of t k))"
proof (induction rs arbitrary: t h)
  case (Cons r rs)
  obtain j d where r: "r = (j, d)" by (cases r)
  then have "j \<notin> fst ` set rs" using Cons.prems(2) by simp
  then have "map_of rs j = None" by (simp add: map_of_eq_None_iff)
  then show ?case
    using Cons.IH [of "update_entry j (\<lambda>f. f\<lparr>hostDescriptor := d, hostPath := p, shared := False\<rparr>) t"] Cons.prems
    by (auto simp: r Let_def split: option.splits)
qed simp

lemma guest_step_reopen:
  assumes "reopenSharedFiles c h n (local_path (gid c) n') = (ok, c', h')"
  shows "guest_step P c h c' h'"
proof -
  let ?p = "local_path (gid c) n'"
  obtain res h1 where scan: "reopen_scan n ?p (table c) [] h = (res, h1)" by fastforce
  have s: "host_step P (own_names (gid c)) (owners (table c)) h
      (owners (table c) @ (case res of None \<Rightarrow> [] | Some rs' \<Rightarrow> reopened_owned rs')) h1"
    using host_step_reopen_scan [OF scan, of "own_names (gid c)" "owners (table c)" P] in_owners
    by (simp add: reopened_owned_def)
  show ?thesis
  proof (cases res)
    case None
    then show ?thesis
      using s assms scan by (auto simp: reopenSharedFiles_def table_def guest_step_def)
  next
    case (Some rs)
    obtain t h2 where commit: "reopen_commit ?p rs (table c) h1 = (t, h2)" by fastforce
    have keys: "\<forall>k\<in>fst ` set rs. k \<in> fst ` set (table c)"
    proof
      fix k assume "k \<in> fst ` set rs"
      then have "k \<in> set (map fst rs)" by simp
      then have "k \<in> set (map fst (matching n (table c)))"
        using reopen_scan_keys [of n ?p "table c" "[]" h rs h1] scan Some by (simp del: set_map)
      then show "k \<in> fst ` set (table c)" by (force simp: matching_def)
    qed
    have "c' = set_openFiles c t" "h' = h2"
      using assms scan Some commit by (auto simp: reopenSharedFiles_def table_def Let_def)
    moreover have "map fst t = map fst (table c) \<and>
        host_step P (own_names (gid c)) (owners (table c)) h (owners t) h2"
      if d: "distinct (map fst (table c))"
    proof -
      note c = host_step_reopen_commit [OF commit d keys, of P "own_names (gid c)"]
      show ?thesis
        by (rule conjI, rule conjunct1 [OF c], rule host_step_trans [OF _ conjunct2 [OF c]])
          (use s Some in simp)
    qed
    ultimately show ?thesis by (simp add: guest_step_def)
  qed
qed

lemma guest_step_prepare:
  assumes "prepareFileForWrite c h f = (ok, c', h')"
  shows "guest_step P c h c' h'"
proof -
  let ?p = "local_path (gid c) (name f)" and ?L = "owners (table c)" and ?m = "own_names (gid c)"
  obtain e1 h1 where dirs: "fs_create_directories h (parent_path ?p) = (e1, h1)" by fastforce
  obtain e2 h2 where copy: "fs_copy_file h1 (hostPath f) ?p = (e2, h2)" by fastforce
  obtain e3 h3 where perm: "fs_add_owner_write h2 ?p = (e3, h3)" by fastforce
  obtain ok4 c4 h4 where reopen: "reopenSharedFiles c h3 (name f) ?p = (ok4, c4, h4)"
    by (cases "reopenSharedFiles c h3 (name f) ?p") auto
  have s1: "host_step P ?m ?L h ?L h1"
    using host_step_dirs [of P ?m ?L h "parent_path ?p"] dirs by simp
  have s2: "host_step P ?m ?L h ?L h2"
    using host_step_trans [OF s1] host_step_copy [of ?p ?m P ?L h1 "hostPath f"] copy by simp
  have s3: "host_step P ?m ?L h ?L h3"
    using host_step_trans [OF s2] host_step_owner_write [of P ?m ?L h2 ?p] perm by simp
  have rm: "host_step P ?m ?L h ?L (fs_remove g ?p)" if "host_step P ?m ?L h ?L g" for g
    using host_step_trans [OF that] host_step_fs_remove by simp
  have g4: "guest_step P c h c4 h4"
    by (rule guest_step_trans [OF guest_step_same_table guest_step_reopen [OF reopen]])
      (simp_all add: s3)
  have "gid c4 = gid c" using g4 by (simp add: guest_step_def)
  then have g5: "guest_step P c h c4 (fs_remove h4 ?p)"
    by (intro guest_step_trans [OF g4] guest_step_same_table host_step_fs_remove) simp_all
  show ?thesis
    using assms g4 g5 s1 rm [OF s2] rm [OF s3]
    by (auto simp: prepareFileForWrite_def dirs copy perm reopen Let_def
        intro!: guest_step_same_table split: if_splits)
qed

lemma prepare_gid: "gid (fst (snd (prepareFileForWrite c h f))) = gid c"
  using guest_step_prepare [of c h f "fst (prepareFileForWrite c h f)" "fst (snd (prepareFileForWrite c h f))"
      "snd (snd (prepareFileForWrite c h f))" "{}"]
  by (simp add: guest_step_def)

lemma reopen_entry:
  assumes "reopenSharedFiles c h n p = (True, c', h')" and "distinct (map fst (table c))"
    and "map_of (table c) k = Some f" and "shared f" and "name f = n"
  obtains d where "map_of (table c') k = Some (f\<lparr>hostDescriptor := d, hostPath := p, shared := False\<rparr>)"
proof -
  obtain rs h1 where scan: "reopen_scan n p (table c) [] h = (Some rs, h1)"
    using assms(1) by (auto simp: reopenSharedFiles_def table_def split: prod.splits option.splits)
  obtain t where commit: "reopen_commit p rs (table c) h1 = (t, h')" and c': "table c' = t"
    using assms(1) scan by (auto simp: reopenSharedFiles_def table_def Let_def split: prod.splits)
  have keys: "map fst rs = map fst (matching n (table c))"
    using reopen_scan_keys [OF scan] by simp
  have "distinct (map fst rs)"
    unfolding keys matching_def using assms(2) by (rule distinct_map_filter)
  moreover have "k \<in> set (map fst rs)"
    unfolding keys using assms(3-5) by (force simp: matching_def dest: map_of_SomeD)
  then obtain d where "map_of rs k = Some d" by (auto simp: map_of_eq_None_iff dest: weak_map_of_SomeI)
  ultimately have "map_of (table c') k = Some (f\<lparr>hostDescriptor := d, hostPath := p, shared := False\<rparr>)"
    using reopen_commit_table [OF commit, of k] assms(3) c' by simp
  then show thesis by (rule that)
qed

lemma prepared_entry:
  assumes "prepareFileForWrite c h f = (True, c', h')" and "distinct (map fst (table c))"
    and "map_of (table c) k = Some f"
  obtains f' where "map_of (table c') k = Some f'" "\<not> shared f'" "name f' = name f" "flags f' = flags f"
proof (cases "shared f")
  case False
  then show thesis using assms that by (auto simp: prepareFileForWrite_def)
next
  case True
  then obtain h1 where "reopenSharedFiles c h1 (name f) (local_path (gid c) (name f)) = (True, c', h')"
    using assms(1) by (auto simp: prepareFileForWrite_def Let_def case_prod_beta prod_eq_iff split: if_splits)
  then obtain d where "map_of (table c') k =
      Some (f\<lparr>hostDescriptor := d, hostPath := local_path (gid c) (name f), shared := False\<rparr>)"
    by (rule reopen_entry [OF _ assms(2,3) True refl])
  then show thesis by (rule that) simp_all
qed

subsection \<open>The operations\<close>

lemma map_of_emplace [simp]:
  "map_of t k = None \<Longrightarrow> emplace k f t = (k, f) # t"
  by (simp add: emplace_def)

lemma readGuestFileName_valid: "readGuestFileName v a = Some n \<Longrightarrow> isValidGuestFileName n"
proof -
  have "scan_name m start av len = Some n \<Longrightarrow> isValidGuestFileName n" for m start av len
    by (induction m start av len rule: scan_name.induct) (subst (asm) (2) scan_name.simps, auto simp: Let_def split: if_splits)
  then show "readGuestFileName v a = Some n \<Longrightarrow> isValidGuestFileName n"
    by (auto simp: readGuestFileName_def split: option.splits)
qed

lemma guest_step_openFile:
  assumes "openFile c ss v h r = (x, c', h')"
    and fresh: "map_of (table c) (nextDescriptor (fileState c)) = None"
  shows "guest_step P c h c' h'"
proof -
  let ?L = "owners (table c)" and ?m = "own_names (gid c)"
  consider "c' = c" "h' = h" | n where "areValidOpenFlags (req_flags r)" "readGuestFileName v (req_buffer r) = Some n"
    using assms(1) by (auto simp: openFile_def split: if_splits option.splits)
  then show ?thesis
  proof cases
    case 2
    obtain rf h1 where resolve: "resolveFile c ss h n = (rf, h1)" by fastforce
    have rf: "rf_path rf = local_path (gid c) n \<or> rf_shared rf" and s1: "host_step P ?m ?L h ?L h1"
      using resolve host_step_exists [of P ?m ?L h "local_path (gid c) n"]
      by (auto simp: resolveFile_def Let_def case_prod_beta split: if_splits option.splits)
    obtain err h2 where dirs: "(if \<not> rf_shared rf \<and> req_flags r AND FILE_OPEN_CREATE \<noteq> 0
        then fs_create_directories h1 (parent_path (rf_path rf)) else (False, h1)) = (err, h2)" by fastforce
    have s2: "host_step P ?m ?L h ?L h2"
      using host_step_trans [OF s1] host_step_dirs [of P ?m ?L h1 "parent_path (rf_path rf)"] s1 dirs
      by (auto split: if_splits)
    let ?fl = "if rf_shared rf then \<lparr>hf_access = O_RDONLY, hf_creat = False\<rparr> else toHostOpenFlags (req_flags r)"
    obtain d h3 where opn: "os_open h2 (rf_path rf) ?fl = (d, h3)" by fastforce
    have s3: "host_step P ?m ?L h (if d < 0 then ?L else ?L @ [(d, rf_shared rf)]) h3"
      by (rule host_step_trans [OF s2 host_step_open [OF opn]]) (use rf in auto)
    have perm: "host_step P ?m (?L @ [(d, rf_shared rf)]) h3 ((d, rf_shared rf) # ?L) h3"
      by (rule host_step_perm) simp
    show ?thesis
      using assms(1) 2 resolve dirs opn s2 s3 host_step_trans [OF _ perm] fresh
      by (auto simp: openFile_def Let_def guest_step_def table_def set_openFiles_def owners_def
          map_of_eq_None_iff split: if_splits)
  qed simp
qed

lemma owners_erase:
  "distinct (map fst t) \<Longrightarrow> map_of t k = Some f \<Longrightarrow> \<exists>A B. t = A @ (k, f) # B \<and> erase k t = A @ B"
proof -
  assume d: "distinct (map fst t)" and "map_of t k = Some f"
  then obtain A B where t: "t = A @ (k, f) # B" by (meson map_of_SomeD split_list)
  with d have "k \<notin> fst ` set A" "k \<notin> fst ` set B" by auto
  then have "filter (\<lambda>(k', _). k' \<noteq> k) A = A" "filter (\<lambda>(k', _). k' \<noteq> k) B = B"
    by (auto intro!: filter_True simp: rev_image_eqI)
  then show ?thesis using t by (auto simp: erase_def)
qed

lemma guest_step_closeFile:
  assumes "closeFile c h k = (x, c', h')"
  shows "guest_step P c h c' h'"
proof (cases "map_of (table c) k")
  case None
  then show ?thesis using assms by (simp add: closeFile_def table_def)
next
  case (Some f)
  have c': "c' = set_openFiles c (erase k (table c))" "h' = snd (os_close h (hostDescriptor f))"
    using assms Some by (auto simp: closeFile_def table_def Let_def case_prod_beta)
  show ?thesis
    unfolding guest_step_def c'
  proof (intro conjI impI)
    assume d: "distinct (map fst (table c))"
    obtain A B where t: "table c = A @ (k, f) # B" "erase k (table c) = A @ B"
      using owners_erase [OF d Some] by auto
    show "distinct (map fst (table (set_openFiles c (erase k (table c)))))" using d t by auto
    show "host_step P (own_names (gid c)) (owners (table c)) h
        (owners (table (set_openFiles c (erase k (table c))))) (snd (os_close h (hostDescriptor f)))"
      using host_step_close_at [OF prod.collapse [symmetric], of P _ "owners A" "hostDescriptor f" "shared f" "owners B" h]
      by (simp add: t(2)) (simp add: t(1) owners_def)
  qed simp
qed

lemma guest_step_readFile:
  assumes "readFile c v h r = (x, v', h')"
  shows "guest_step P c h c h'"
  using assms host_step_read [OF _ image_eqI [OF _ map_of_in_owners], of h]
  by (auto simp: readFile_def table_def [symmetric] intro!: guest_step_same_table
      split: option.splits if_splits prod.splits)

lemma guest_step_writeFile:
  assumes "writeFile c v h r = (x, c', h')"
  shows "guest_step P c h c' h'"
proof (cases "distinct (map fst (table c))")
  case False
  then show ?thesis
    using assms prepare_gid
    by (auto simp: guest_step_def writeFile_def Let_def case_prod_beta prod_eq_iff
        split: option.splits if_splits)
next
  case dist: True
  show ?thesis
  proof (cases "map_of (table c) (req_descriptor r)")
    case None
    then show ?thesis using assms by (simp add: writeFile_def table_def)
  next
    case (Some f)
    obtain ok c1 h1 where prep: "prepareFileForWrite c h f = (ok, c1, h1)"
      by (cases "prepareFileForWrite c h f") auto
    note s1 = guest_step_prepare [OF prep, of P]
    consider "c' = c" "h' = h" | "c' = c1" "h' = h1"
      | bs y f' where "ok" "c' = c1" "map_of (table c1) (req_descriptor r) = Some f'"
          "os_write h1 (hostDescriptor f') bs = (y, h')"
      using assms Some prep
      by (auto simp: writeFile_def table_def Let_def split: if_splits option.splits prod.splits)
    then show ?thesis
    proof cases
      case 3
      obtain f'' where "map_of (table c1) (req_descriptor r) = Some f''" "\<not> shared f''"
        by (rule prepared_entry [OF prep [unfolded \<open>ok\<close> [THEN eqTrueI]] dist Some])
      then have "(hostDescriptor f', False) \<in> set (owners (table c1))"
        using 3(3) map_of_in_owners [of "table c1" "req_descriptor r" f'] by simp
      then have "guest_step P c1 h1 c1 h'"
        by (intro guest_step_same_table refl host_step_write [OF 3(4)])
      then show ?thesis unfolding 3(2) by (rule guest_step_trans [OF s1])
    qed (use s1 in auto)
  qed
qed

lemma guest_step_seekFile:
  assumes "seekFile c h r = (x, h')"
  shows "guest_step P c h c h'"
proof (cases "map_of (table c) (req_descriptor r)")
  case None
  then show ?thesis using assms by (simp add: seekFile_def table_def)
next
  case (Some f)
  have "host_step P (own_names (gid c)) (owners (table c)) h (owners (table c)) g"
    if "os_lseek h (hostDescriptor f) off w = (y, g)" for off w y g
    by (rule host_step_lseek [OF that]) (rule image_eqI [OF _ map_of_in_owners [OF Some]], simp)
  then show ?thesis
    using assms Some
    by (auto simp: seekFile_def table_def [symmetric] Let_def
        intro!: guest_step_same_table split: if_splits prod.splits)
qed

subsection \<open>Descriptor numbers\<close>

text \<open>
  \<^verbatim>\<open>nextDescriptor\<close> is above every key, so \<^verbatim>\<open>emplace\<close> inserts. It is a signed 32-bit
  counter; the fact needs that it has not reached its maximum.
\<close>

definition numbered :: "GuestContext \<Rightarrow> bool" where
  "numbered c \<longleftrightarrow> (\<forall>k\<in>fst ` set (table c). sint k < sint (nextDescriptor (fileState c)))"

definition opens_left :: "GuestContext \<Rightarrow> int" where
  "opens_left c = 2 ^ 31 - 1 - sint (nextDescriptor (fileState c))"

lemma numbered_fresh: "numbered c \<Longrightarrow> map_of (table c) (nextDescriptor (fileState c)) = None"
  by (auto simp: numbered_def map_of_eq_None_iff)

text \<open>What an operation does to the keys and the counter.\<close>

definition numbering :: "GuestContext \<Rightarrow> GuestContext \<Rightarrow> bool" where
  "numbering c c' \<longleftrightarrow>
     nextDescriptor (fileState c') = nextDescriptor (fileState c) \<and>
       fst ` set (table c') \<subseteq> fst ` set (table c) \<or>
     nextDescriptor (fileState c') = nextDescriptor (fileState c) + 1 \<and>
       fst ` set (table c') \<subseteq> insert (nextDescriptor (fileState c)) (fst ` set (table c))"

lemma sint_succ:
  fixes k :: i32
  assumes "sint k < 2 ^ 31 - 1"
  shows "sint (k + 1) = sint k + 1"
proof -
  have "- (2 ^ 31) \<le> sint k" using sint_greater_eq [of k] by simp
  then show ?thesis using assms by (simp add: sint_word_ariths signed_take_bit_int_eq_self)
qed

lemma numbering_numbered:
  assumes "numbering c c'" and "numbered c" and "0 < opens_left c"
  shows "numbered c'" and "opens_left c - 1 \<le> opens_left c'"
proof -
  have "sint (nextDescriptor (fileState c) + 1) = sint (nextDescriptor (fileState c)) + 1"
    by (rule sint_succ) (use assms(3) in \<open>simp add: opens_left_def\<close>)
  then show "numbered c'" "opens_left c - 1 \<le> opens_left c'"
    using assms(1,2) unfolding numbering_def numbered_def opens_left_def by force+
qed

lemma numbering_refl [simp]: "numbering c c"
  by (simp add: numbering_def)

lemma numbering_same: "fileState c' = fileState c \<Longrightarrow> numbering c c'"
  by (simp add: numbering_def table_def)

lemma numbering_reopen: "numbering c (fst (snd (reopenSharedFiles c h n p)))"
proof -
  have "fst ` set (fst (reopen_commit p rs t h)) = fst ` set t" for rs t h
  proof (induction rs arbitrary: t h)
    case (Cons r rs)
    obtain k d where "r = (k, d)" by (cases r)
    moreover have "fst ` set (update_entry k g t) = fst ` set t" for g
      by (simp only: set_map [symmetric] map_fst_update_entry)
    ultimately show ?case using Cons.IH by (simp add: Let_def)
  qed simp
  from this [of _ "table c"] show ?thesis
    by (auto simp: reopenSharedFiles_def numbering_def table_def case_prod_beta set_openFiles_def Let_def
        split: option.split prod.split)
qed

lemma numbering_prepare: "numbering c (fst (snd (prepareFileForWrite c h f)))"
  using numbering_reopen
  by (auto simp: prepareFileForWrite_def Let_def case_prod_beta)

lemma numbering_writeFile: "numbering c (fst (snd (writeFile c v h r)))"
  using numbering_prepare
  by (auto simp: writeFile_def Let_def case_prod_beta split: option.split)

lemma numbering_openFile: "numbering c (fst (snd (openFile c ss v h r)))"
  by (auto simp: openFile_def Let_def case_prod_beta numbering_def table_def set_openFiles_def emplace_def
      split: option.split)

lemma numbering_closeFile: "numbering c (fst (snd (closeFile c h k)))"
  by (auto simp: closeFile_def Let_def case_prod_beta numbering_def table_def set_openFiles_def erase_def
      split: option.split)

subsection \<open>Requests and the port\<close>

lemma guest_step_process:
  assumes "processFileRequest c ss v h r = (x, c', v', h')" and "numbered c"
  shows "guest_step P c h c' h'" and "numbering c c'"
proof -
  note fresh = numbered_fresh [OF assms(2)]
  show "guest_step P c h c' h'"
    using assms(1)
    by (auto simp: processFileRequest_def
        dest: guest_step_openFile [OF _ fresh] guest_step_closeFile guest_step_readFile guest_step_writeFile
          guest_step_seekFile
        split: if_splits prod.splits)
  show "numbering c c'"
    using assms(1) numbering_openFile [of c ss v h r] numbering_closeFile [of c h "req_descriptor r"]
      numbering_writeFile [of c v h r]
    by (auto simp: processFileRequest_def split: if_splits prod.splits)
qed

lemma push_result_same [simp]:
  "nextDescriptor (fileState (push_result c x)) = nextDescriptor (fileState c)"
  "openFiles (fileState (push_result c x)) = openFiles (fileState c)"
  by (simp_all add: push_result_def)

lemma handleFileIo_cases:
  assumes "handleFileIo c ss v h = (ok, c', v', h')"
  obtains (unchanged) "openFiles (fileState c') = openFiles (fileState c)" "gid c' = gid c"
      "nextDescriptor (fileState c') = nextDescriptor (fileState c)" "h' = h"
  | (request) r x c1 where "processFileRequest c ss v h r = (x, c1, v', h')" "c' = push_result c1 x" "ok"
  using assms
  by (auto simp: handleFileIo_def Let_def split: if_splits io_direction.splits option.splits prod.splits)

lemma guest_step_handle:
  assumes "handleFileIo c ss v h = (ok, c', v', h')" and "numbered c"
  shows "guest_step P c h c' h'" and "numbering c c'"
proof -
  show "guest_step P c h c' h'"
    using assms(1)
  proof (cases rule: handleFileIo_cases)
    case unchanged
    then show ?thesis by (auto intro!: guest_step_same_table simp: table_def)
  next
    case (request r x c1)
    have "guest_step P c1 h' c' h'"
      by (intro guest_step_same_table) (simp_all add: request(2))
    then show ?thesis by (rule guest_step_trans [OF guest_step_process(1) [OF request(1) assms(2)]])
  qed
  show "numbering c c'"
    using assms(1)
  proof (cases rule: handleFileIo_cases)
    case unchanged
    then show ?thesis by (simp add: numbering_def table_def)
  next
    case (request r x c1)
    then show ?thesis using guest_step_process(2) [OF request(1) assms(2)]
      by (simp add: numbering_def table_def)
  qed
qed

subsection \<open>Closing\<close>

lemma host_step_close_all: "host_step P mine (owners t) h [] (close_all t h)"
proof (induction t arbitrary: h)
  case Nil
  then show ?case by (simp add: owners_def)
next
  case (Cons e t)
  obtain k f where e: "e = (k, f)" by (cases e)
  have "host_step P mine ((hostDescriptor f, shared f) # owners t) h (owners t) (snd (os_close h (hostDescriptor f)))"
    using host_step_close_at [OF prod.collapse [symmetric], of P mine "[]"] by simp
  from host_step_trans [OF this Cons.IH] show ?case by (simp add: e owners_def)
qed

lemma guest_step_closeGuestFiles:
  assumes "closeGuestFiles c h = (c', h')"
  shows "guest_step P c h c' h'" and "table c' = []"
  using assms host_step_close_all [of P "own_names (gid c)" "table c" h]
  by (auto simp: closeGuestFiles_def guest_step_def owners_def table_def)

end
