(* ===== verification/File_Content.thy ===== *)
theory File_Content
  imports File_Isolation
begin

text \<open>
  What the file operations do to contents and offsets when the host's calls do not fail:
  the first write to a shared file makes a private copy that differs from the original only by
  the written bytes, every descriptor of the file moves to the copy at its old offset, and what
  is written to a file can be read back.
\<close>

subsection \<open>Host calls that do not fail\<close>

definition same_names :: "host \<Rightarrow> host \<Rightarrow> bool" where
  "same_names h h' \<longleftrightarrow> h_names h' = h_names h \<and> h_data h' = h_data h \<and> h_owner_write h' = h_owner_write h \<and>
     h_dirs h' = h_dirs h \<and> h_next h' = h_next h \<and> h_faults h' = h_faults h"

lemma same_names_refl [simp]: "same_names h h"
  by (simp add: same_names_def)

lemma same_names_trans: "same_names h h1 \<Longrightarrow> same_names h1 h2 \<Longrightarrow> same_names h h2"
  by (simp add: same_names_def)

lemma same_names_fd [simp]:
  "same_names h (fd_update h d g)" "same_names h (fd_remove h d)" "same_names h (snd (fd_install h g))"
  by (simp_all add: same_names_def)

lemma os_lseek_quiet:
  assumes "h_faults h = []" and "fd_lookup h d = Some g"
  shows "os_lseek h d 0 W_CUR = (int (oh_offset g), fd_update h d g)"
    and "0 \<le> off \<Longrightarrow> os_lseek h d off W_SET = (off, fd_update h d (g\<lparr>oh_offset := nat off\<rparr>))"
    and "os_lseek h d 0 W_END = (int (length (h_data h (oh_inode g))),
      fd_update h d (g\<lparr>oh_offset := length (h_data h (oh_inode g))\<rparr>))"
  using assms by (simp_all add: os_lseek_def take_fault_none)

lemma os_open_quiet:
  assumes "h_faults h = []" and "h_names h p = Some i" and "h_owner_write h i"
  shows "os_open h p fl = fd_install h \<lparr>oh_inode = i, oh_access = hf_access fl, oh_offset = 0\<rparr>"
  using assms by (simp add: os_open_def take_fault_none)

lemma os_close_quiet:
  assumes "h_faults h = []" and "fd_lookup h d \<noteq> None"
  shows "os_close h d = (0, fd_remove h d)"
  using assms by (simp add: os_close_def take_fault_none)

lemma os_write_quiet:
  assumes "h_faults h = []" and "fd_lookup h d = Some g" and "oh_access g \<noteq> O_RDONLY"
  shows "os_write h d bs = (int (length bs),
    fd_update (h\<lparr>h_data := (h_data h)(oh_inode g := patch (h_data h (oh_inode g)) (oh_offset g) bs)\<rparr>) d
      (g\<lparr>oh_offset := oh_offset g + length bs\<rparr>))"
  using assms by (simp add: os_write_def take_fault_none transfer_def)

lemma os_read_quiet:
  assumes "h_faults h = []" and "fd_lookup h d = Some g" and "oh_access g \<noteq> O_WRONLY"
  shows "os_read h d n = (Some (take n (drop (oh_offset g) (h_data h (oh_inode g)))),
    fd_update h d (g\<lparr>oh_offset := oh_offset g + length (take n (drop (oh_offset g) (h_data h (oh_inode g))))\<rparr>))"
  using assms by (simp add: os_read_def take_fault_none transfer_def)

subsection \<open>Reopening\<close>

abbreviation matches :: "string \<Rightarrow> OpenFile \<Rightarrow> bool" where
  "matches n f \<equiv> shared f \<and> name f = n"

definition reopened_at :: "nat \<Rightarrow> host \<Rightarrow> OpenFile \<Rightarrow> open_host" where
  "reopened_at j h f = \<lparr>oh_inode = j, oh_access = hf_access (toHostOpenFlags (flags f)),
     oh_offset = oh_offset (the (fd_lookup h (hostDescriptor f)))\<rparr>"

text \<open>What the first loop leaves: the new descriptors \<open>rs\<close>, fresh and at the old offsets.\<close>

definition scanned :: "string \<Rightarrow> nat \<Rightarrow> (i32 \<times> OpenFile) list \<Rightarrow> host \<Rightarrow> reopened list \<Rightarrow> host \<Rightarrow> bool" where
  "scanned n j t h rs h' \<longleftrightarrow>
     map fst rs = map fst (filter (\<lambda>(k, f). matches n f) t) \<and>
     (\<forall>d\<in>snd ` set rs. fd_lookup h d = None) \<and>
     (\<forall>e. fd_lookup h e \<noteq> None \<longrightarrow> fd_lookup h' e = fd_lookup h e) \<and>
     (\<forall>(k, f)\<in>set t. matches n f \<longrightarrow> (\<exists>d. map_of rs k = Some d \<and> 0 \<le> d \<and> fd_lookup h' d = Some (reopened_at j h f))) \<and>
     same_names h h'"

lemma reopen_scan_quiet:
  assumes "h_faults h = []" and "h_names h p = Some j" and "h_owner_write h j" and "distinct (map fst t)"
    and "\<forall>(k, f)\<in>set t. matches n f \<longrightarrow> fd_lookup h (hostDescriptor f) \<noteq> None"
  shows "\<exists>new h'. reopen_scan n p t rs h = (Some (rs @ new), h') \<and> scanned n j t h new h'"
  using assms
proof (induction t arbitrary: rs h)
  case Nil
  then show ?case by (simp add: scanned_def)
next
  case (Cons e t)
  obtain k f where e: "e = (k, f)" by (cases e)
  have k: "k \<notin> fst ` set t" and dt: "distinct (map fst t)" using Cons.prems(4) by (auto simp: e)
  show ?case
  proof (cases "matches n f")
    case False
    then have eq: "reopen_scan n p (e # t) rs h = reopen_scan n p t rs h" by (auto simp: e)
    obtain new h' where "reopen_scan n p t rs h = (Some (rs @ new), h')" "scanned n j t h new h'"
      using Cons.IH [OF Cons.prems(1-3) dt, of rs] Cons.prems(5) by auto
    then show ?thesis using False unfolding eq by (auto simp: scanned_def e)
  next
    case True
    then obtain g where g: "fd_lookup h (hostDescriptor f) = Some g" using Cons.prems(5) by (auto simp: e)
    define h1 where "h1 = fd_update h (hostDescriptor f) g"
    have l1: "fd_lookup h1 x = fd_lookup h x" for x using g by (simp add: h1_def)
    have q1: "h_faults h1 = []" "h_names h1 p = Some j" "h_owner_write h1 j"
      using Cons.prems(1-3) by (simp_all add: h1_def fd_update_def)
    define d where "d = fst (fd_install h1 \<lparr>oh_inode = j, oh_access = hf_access (toHostOpenFlags (flags f)), oh_offset = 0\<rparr>)"
    define h2 where "h2 = snd (fd_install h1 \<lparr>oh_inode = j, oh_access = hf_access (toHostOpenFlags (flags f)), oh_offset = 0\<rparr>)"
    define h3 where "h3 = fd_update h2 d (reopened_at j h f)"
    have d: "0 \<le> d" "fd_lookup h d = None"
      using fd_install_nonneg fd_install_fresh [of h1] l1 unfolding d_def by (blast, metis)
    have l2: "fd_lookup h2 x = (if x = d then Some \<lparr>oh_inode = j, oh_access = hf_access (toHostOpenFlags (flags f)), oh_offset = 0\<rparr> else fd_lookup h x)" for x
      using l1 by (simp add: h2_def d_def fd_lookup_install)
    have l3: "fd_lookup h3 x = (if x = d then Some (reopened_at j h f) else fd_lookup h x)" for x
      using l2 by (simp add: h3_def)
    have same: "same_names h h3" by (simp add: same_names_def h1_def h2_def h3_def)
    have "h_faults h2 = []" using same q1(1) by (simp add: h2_def)
    then have eq: "reopen_scan n p (e # t) rs h = reopen_scan n p t (rs @ [(k, d)]) h3"
      using True os_lseek_quiet(1) [OF Cons.prems(1) g] os_open_quiet [OF q1] d(1) l2 g
        os_lseek_quiet(2) [of h2 d _ "int (oh_offset g)"]
      by (simp add: e h1_def [symmetric] d_def [symmetric] h2_def [symmetric] h3_def reopened_at_def prod_eq_iff
          flip: surjective_pairing split: prod.split)
    have q3: "h_faults h3 = []" "h_names h3 p = Some j" "h_owner_write h3 j"
      using Cons.prems(1-3) same by (simp_all add: same_names_def)
    have open3: "\<forall>(k, f)\<in>set t. matches n f \<longrightarrow> fd_lookup h3 (hostDescriptor f) \<noteq> None"
      using Cons.prems(5) l3 by auto
    obtain new h' where ih: "reopen_scan n p t (rs @ [(k, d)]) h3 = (Some ((rs @ [(k, d)]) @ new), h')"
      and sc: "scanned n j t h3 new h'" using Cons.IH [OF q3 dt open3] by blast
    have at: "reopened_at j h3 f' = reopened_at j h f'" if "(k', f') \<in> set t" "matches n f'" for k' f'
    proof -
      have "fd_lookup h (hostDescriptor f') \<noteq> None" using Cons.prems(5) that by auto
      then have "hostDescriptor f' \<noteq> d" using d(2) by metis
      then show ?thesis by (simp add: reopened_at_def l3)
    qed
    have "scanned n j (e # t) h ((k, d) # new) h'"
      unfolding scanned_def
    proof (intro conjI ballI allI impI)
      show "map fst ((k, d) # new) = map fst (filter (\<lambda>(k, f). matches n f) (e # t))"
        using sc True by (simp add: e scanned_def)
      show "fd_lookup h x = None" if "x \<in> snd ` set ((k, d) # new)" for x
        using that sc d(2) l3 by (auto simp: scanned_def split: if_splits)
      show "fd_lookup h' x = fd_lookup h x" if "fd_lookup h x \<noteq> None" for x
      proof -
        have "x \<noteq> d" using that d(2) by metis
        then show ?thesis using sc that l3 by (simp add: scanned_def)
      qed
      show "same_names h h'" using sc same by (auto simp: scanned_def intro: same_names_trans)
      show "case x of (k', f') \<Rightarrow> matches n f' \<longrightarrow>
          (\<exists>d'. map_of ((k, d) # new) k' = Some d' \<and> 0 \<le> d' \<and> fd_lookup h' d' = Some (reopened_at j h f'))"
        if "x \<in> set (e # t)" for x
      proof (cases "x = e")
        case True
        have "fd_lookup h' d = Some (reopened_at j h f)" using sc l3 [of d] by (simp add: scanned_def)
        then show ?thesis using d(1) by (simp add: True e)
      next
        case False
        obtain k' f' where x: "x = (k', f')" by (cases x)
        with that False have t: "(k', f') \<in> set t" by auto
        then have "k' \<noteq> k" using k by force
        then show ?thesis using sc t at [OF t] by (fastforce simp: scanned_def x)
      qed
    qed
    then show ?thesis using eq ih by auto
  qed
qed

text \<open>The second loop.\<close>

definition moved :: "path \<Rightarrow> reopened list \<Rightarrow> i32 \<times> OpenFile \<Rightarrow> i32 \<times> OpenFile" where
  "moved p rs e = (case e of (k, f) \<Rightarrow> (k, case map_of rs k of None \<Rightarrow> f
     | Some d \<Rightarrow> f\<lparr>hostDescriptor := d, hostPath := p, shared := False\<rparr>))"

lemma map_moved_update:
  "k \<notin> fst ` set rs \<Longrightarrow> map (moved p rs) (update_entry k (\<lambda>f. f\<lparr>hostDescriptor := d, hostPath := p, shared := False\<rparr>) t) =
     map (moved p ((k, d) # rs)) t"
proof -
  assume "k \<notin> fst ` set rs"
  then have "map_of rs k = None" by (simp add: map_of_eq_None_iff)
  then show ?thesis by (auto simp: update_entry_def moved_def split: option.splits)
qed

lemma reopen_commit_quiet:
  assumes "reopen_commit p rs t h = (t', h')" and "h_faults h = []" and "distinct (map fst rs)"
    and "\<forall>k\<in>fst ` set rs. \<exists>f. map_of t k = Some f \<and> fd_lookup h (hostDescriptor f) \<noteq> None"
    and "inj_on (\<lambda>k. hostDescriptor (the (map_of t k))) (fst ` set rs)"
  shows "t' = map (moved p rs) t \<and> same_names h h' \<and>
    (\<forall>e. fd_lookup h' e = (if e \<in> (\<lambda>k. hostDescriptor (the (map_of t k))) ` fst ` set rs then None else fd_lookup h e))"
  using assms
proof (induction rs arbitrary: t h)
  case Nil
  have "moved p [] = id" by (auto simp: moved_def)
  then show ?case using Nil by simp
next
  case (Cons r rs)
  obtain k d where r: "r = (k, d)" by (cases r)
  let ?D = "\<lambda>t k. hostDescriptor (the (map_of t k))"
  obtain f where f: "map_of t k = Some f" "fd_lookup h (hostDescriptor f) \<noteq> None" using Cons.prems(4) by (auto simp: r)
  have k: "k \<notin> fst ` set rs" "distinct (map fst rs)" using Cons.prems(3) by (auto simp: r)
  let ?t = "update_entry k (\<lambda>f. f\<lparr>hostDescriptor := d, hostPath := p, shared := False\<rparr>) t" and ?h = "fd_remove h (hostDescriptor f)"
  have "os_close h (hostDescriptor f) = (0, ?h)" by (rule os_close_quiet [OF Cons.prems(2) f(2)])
  then have run: "reopen_commit p rs ?t ?h = (t', h')" using Cons.prems(1) f(1) by (simp add: r Let_def)
  have same_key: "map_of ?t k' = map_of t k'" if "k' \<in> fst ` set rs" for k' using that k(1) by auto
  have D: "?D ?t ` fst ` set rs = ?D t ` fst ` set rs" using same_key by (auto intro!: image_cong)
  have inj: "inj_on (?D ?t) (fst ` set rs)"
    using Cons.prems(5) same_key by (auto simp: r inj_on_def)
  have "\<exists>f'. map_of ?t k' = Some f' \<and> fd_lookup ?h (hostDescriptor f') \<noteq> None" if k': "k' \<in> fst ` set rs" for k'
  proof -
    obtain f' where f': "map_of t k' = Some f'" "fd_lookup h (hostDescriptor f') \<noteq> None"
      using Cons.prems(4) k' by (auto simp: r)
    have "?D t k' \<noteq> ?D t k"
    proof
      assume "?D t k' = ?D t k"
      then have "k' = k" by (rule inj_onD [OF Cons.prems(5)]) (use k' in \<open>auto simp: r\<close>)
      then show False using k(1) k' by simp
    qed
    then show ?thesis using f f' same_key [OF k'] by simp
  qed
  then have ih: "t' = map (moved p rs) ?t \<and> same_names ?h h' \<and>
      (\<forall>e. fd_lookup h' e = (if e \<in> ?D ?t ` fst ` set rs then None else fd_lookup ?h e))"
    using Cons.IH [OF run _ k(2) _ inj] Cons.prems(2) by simp
  then have "t' = map (moved p ((k, d) # rs)) t" using map_moved_update [OF k(1)] by metis
  moreover have "same_names h h'" using ih same_names_trans [of h ?h h'] by simp
  ultimately show ?case using ih f(1) unfolding D by (simp add: r)
qed

subsection \<open>The first write\<close>

text \<open>
  The situation before the first write to the shared file \<open>n\<close> with inode \<open>i\<close>: the machine has
  no file of that name, nothing is in the way of its directory, and its descriptors are open.
\<close>

definition unwritten :: "GuestContext \<Rightarrow> host \<Rightarrow> string \<Rightarrow> nat \<Rightarrow> bool" where
  "unwritten c h n i \<longleftrightarrow> (let local = local_path (gid c) n in
     h_faults h = [] \<and> host_ok h \<and> h_names h local = None \<and> \<not> h_dirs h local \<and>
     list_all (\<lambda>q. h_names h q = None) (ancestors (parent_path local)) \<and>
     local \<notin> set (ancestors (parent_path local)) \<and>
     distinct (map fst (table c)) \<and> distinct (map fst (owners (table c))) \<and>
     (\<forall>(k, f)\<in>set (table c). fd_lookup h (hostDescriptor f) \<noteq> None \<and>
        (matches n f \<longrightarrow> h_names h (hostPath f) = Some i)))"

text \<open>
  Every descriptor of the file now refers to inode \<open>j\<close> at its old offset; the others are as they
  were, and nothing but these entries of the context has changed.
\<close>

definition moved_to :: "nat \<Rightarrow> string \<Rightarrow> GuestContext \<Rightarrow> host \<Rightarrow> GuestContext \<Rightarrow> host \<Rightarrow> bool" where
  "moved_to j n c h c' h' \<longleftrightarrow> (\<exists>rs. c' = set_openFiles c (map (moved (local_path (gid c) n) rs) (table c))) \<and> (\<forall>k f. map_of (table c) k = Some f \<longrightarrow>
     (if matches n f
      then \<exists>f'. map_of (table c') k = Some f' \<and> f' = f\<lparr>hostDescriptor := hostDescriptor f', hostPath := local_path (gid c) n, shared := False\<rparr> \<and>
        fd_lookup h' (hostDescriptor f') = Some (reopened_at j h f)
      else map_of (table c') k = Some f \<and> fd_lookup h' (hostDescriptor f) = fd_lookup h (hostDescriptor f)))"

lemma moved_toD:
  assumes "moved_to j n c h c' h'" and "map_of (table c) k = Some f" and "matches n f"
  shows "\<exists>f'. map_of (table c') k = Some f' \<and> \<not> shared f' \<and> flags f' = flags f \<and>
    fd_lookup h' (hostDescriptor f') = Some (reopened_at j h f)"
proof -
  obtain f' where f': "map_of (table c') k = Some f'"
      "f' = f\<lparr>hostDescriptor := hostDescriptor f', hostPath := local_path (gid c) n, shared := False\<rparr>"
      "fd_lookup h' (hostDescriptor f') = Some (reopened_at j h f)"
    using assms unfolding moved_to_def by metis
  have "\<not> shared f'" "flags f' = flags f" using arg_cong [OF f'(2), of shared] arg_cong [OF f'(2), of flags] by simp_all
  then show ?thesis using f' by blast
qed

lemma map_of_moved: "map_of (map (moved p rs) t) k = map_option (\<lambda>f. snd (moved p rs (k, f))) (map_of t k)"
  by (induction t) (auto simp: moved_def split: option.splits)

lemma reopenSharedFiles_quiet:
  assumes "h_faults h = []" and "h_names h (local_path (gid c) n) = Some j" and "h_owner_write h j"
    and "distinct (map fst (table c))" and "distinct (map fst (owners (table c)))"
    and "\<forall>(k, f)\<in>set (table c). fd_lookup h (hostDescriptor f) \<noteq> None"
    and "(k0, f0) \<in> set (table c)" and "matches n f0"
  shows "\<exists>c' h'. reopenSharedFiles c h n (local_path (gid c) n) = (True, c', h') \<and> same_names h h' \<and> moved_to j n c h c' h'"
proof -
  let ?t = "table c" and ?p = "local_path (gid c) n"
  have "\<forall>(k, f)\<in>set ?t. matches n f \<longrightarrow> fd_lookup h (hostDescriptor f) \<noteq> None" using assms(6) by auto
  from reopen_scan_quiet [OF assms(1-4) this, of "[]"]
  obtain new h1 where scan: "reopen_scan n ?p ?t [] h = (Some new, h1)" and sc: "scanned n j ?t h new h1" by auto
  obtain t' h2 where commit: "reopen_commit ?p new ?t h1 = (t', h2)" by fastforce
  have keys: "map fst new = map fst (filter (\<lambda>(k, f). matches n f) ?t)"
    and fresh: "\<And>d. d \<in> snd ` set new \<Longrightarrow> fd_lookup h d = None"
    and kept: "\<And>e. fd_lookup h e \<noteq> None \<Longrightarrow> fd_lookup h1 e = fd_lookup h e"
    and at: "\<And>k f. (k, f) \<in> set ?t \<Longrightarrow> matches n f \<Longrightarrow> \<exists>d. map_of new k = Some d \<and> fd_lookup h1 d = Some (reopened_at j h f)"
    and same1: "same_names h h1"
    using sc by (fastforce simp: scanned_def)+
  have set_keys: "k \<in> fst ` set new \<longleftrightarrow> (\<exists>f. (k, f) \<in> set ?t \<and> matches n f)" for k
  proof -
    have "fst ` set new = set (map fst (filter (\<lambda>(k, f). matches n f) ?t))" using keys by (metis list.set_map)
    then show ?thesis by force
  qed
  have dn: "distinct (map fst new)" unfolding keys using assms(4) by (simp add: distinct_map_filter)
  have opened: "fd_lookup h (hostDescriptor f) \<noteq> None" if "(k, f) \<in> set ?t" for k f using assms(6) that by auto
  have inj: "k = k'" if "map_of ?t k = Some f" "map_of ?t k' = Some f'" "hostDescriptor f = hostDescriptor f'" for k k' f f'
  proof -
    have "inj_on (\<lambda>e. hostDescriptor (snd e)) (set ?t)"
      using assms(5) by (simp add: owners_def distinct_map comp_def case_prod_beta)
    moreover have "(k, f) \<in> set ?t" "(k', f') \<in> set ?t" using that map_of_SomeD by fastforce+
    ultimately show ?thesis using that(3) unfolding inj_on_def by fastforce
  qed
  have entry: "map_of ?t k = Some f \<longleftrightarrow> (k, f) \<in> set ?t" for k f using assms(4) by simp
  have c1: "\<forall>k\<in>fst ` set new. \<exists>f. map_of ?t k = Some f \<and> fd_lookup h1 (hostDescriptor f) \<noteq> None"
    using set_keys entry opened kept by metis
  have c2: "inj_on (\<lambda>k. hostDescriptor (the (map_of ?t k))) (fst ` set new)"
    by (rule inj_onI) (use set_keys entry inj in \<open>metis option.sel\<close>)
  have "h_faults h1 = []" using assms(1) same1 by (simp add: same_names_def)
  note cq = reopen_commit_quiet [OF commit this dn c1 c2]
  let ?D = "(\<lambda>k. hostDescriptor (the (map_of ?t k))) ` fst ` set new"
  have in_D: "e \<in> ?D \<longleftrightarrow> (\<exists>k f. (k, f) \<in> set ?t \<and> matches n f \<and> e = hostDescriptor f)" for e
  proof
    assume "e \<in> ?D"
    then obtain k where k: "k \<in> fst ` set new" "e = hostDescriptor (the (map_of ?t k))" by blast
    then obtain f where "(k, f) \<in> set ?t" "matches n f" using set_keys by blast
    moreover from this have "map_of ?t k = Some f" using entry by blast
    ultimately show "\<exists>k f. (k, f) \<in> set ?t \<and> matches n f \<and> e = hostDescriptor f" using k(2) by auto
  next
    assume "\<exists>k f. (k, f) \<in> set ?t \<and> matches n f \<and> e = hostDescriptor f"
    then obtain k f where k: "(k, f) \<in> set ?t" "matches n f" "e = hostDescriptor f" by blast
    then have "k \<in> fst ` set new" "map_of ?t k = Some f" using set_keys entry by blast+
    then show "e \<in> ?D" using k(3) by force
  qed
  have t': "map_of t' k = map_option (\<lambda>f. snd (moved ?p new (k, f))) (map_of ?t k)" for k using cq by (simp add: map_of_moved)
  have "moved_to j n c h (set_openFiles c t') h2"
    unfolding moved_to_def
  proof (intro conjI allI impI)
    show "\<exists>rs. set_openFiles c t' = set_openFiles c (map (moved ?p rs) ?t)" using cq by blast
    fix k f assume k: "map_of ?t k = Some f"
    then have kt: "(k, f) \<in> set ?t" using entry by blast
    show "if matches n f
      then \<exists>f'. map_of (table (set_openFiles c t')) k = Some f' \<and> f' = f\<lparr>hostDescriptor := hostDescriptor f', hostPath := ?p, shared := False\<rparr> \<and>
        fd_lookup h2 (hostDescriptor f') = Some (reopened_at j h f)
      else map_of (table (set_openFiles c t')) k = Some f \<and> fd_lookup h2 (hostDescriptor f) = fd_lookup h (hostDescriptor f)"
    proof (cases "matches n f")
      case True
      then obtain d where d: "map_of new k = Some d" "fd_lookup h1 d = Some (reopened_at j h f)" using at kt by blast
      then have "fd_lookup h d = None" using fresh by (force dest: map_of_SomeD)
      then have "d \<notin> ?D" using in_D opened by metis
      then have "fd_lookup h2 d = Some (reopened_at j h f)" using cq d(2) by simp
      then show ?thesis using True k d(1) by (simp add: t' moved_def)
    next
      case False
      then have "k \<notin> fst ` set new" using set_keys kt entry by (metis option.inject)
      then have "map_of new k = None" by (simp add: map_of_eq_None_iff)
      moreover have "hostDescriptor f \<notin> ?D" using in_D inj k entry False by (metis option.inject)
      then have "fd_lookup h2 (hostDescriptor f) = fd_lookup h (hostDescriptor f)"
        using cq kept opened [OF kt] by simp
      ultimately show ?thesis unfolding if_not_P [OF False] using k by (simp add: t' moved_def)
    qed
  qed
  moreover have "new \<noteq> []" using set_keys [of k0] assms(7,8) by auto
  moreover have "same_names h h2" using same1 cq same_names_trans by blast
  ultimately show ?thesis using scan commit by (auto simp: reopenSharedFiles_def table_def [symmetric])
qed

lemma moved_to_cong:
  "(\<And>d. fd_lookup h d = fd_lookup g d) \<Longrightarrow> moved_to j n c h c' h' = moved_to j n c g c' h'"
  by (simp add: moved_to_def reopened_at_def)

lemma prepareFileForWrite_quiet:
  assumes un: "unwritten c h n i" and f: "(k0, f0) \<in> set (table c)" "matches n f0"
  shows "\<exists>c' h'. prepareFileForWrite c h f0 = (True, c', h') \<and> h_faults h' = [] \<and>
    h_names h' = (h_names h)(local_path (gid c) n \<mapsto> h_next h) \<and>
    h_data h' = (h_data h)(h_next h := h_data h i) \<and> moved_to (h_next h) n c h c' h' \<and>
    h_owner_write h' = (h_owner_write h)(h_next h := True) \<and> h_next h' = Suc (h_next h) \<and>
    h_dirs h' = (\<lambda>q. h_dirs h q \<or> q \<in> set (ancestors (parent_path (local_path (gid c) n))))"
proof -
  let ?p = "local_path (gid c) n" and ?j = "h_next h"
  have u: "h_faults h = []" "h_names h ?p = None" "\<not> h_dirs h ?p"
    "list_all (\<lambda>q. h_names h q = None) (ancestors (parent_path ?p))" "?p \<notin> set (ancestors (parent_path ?p))"
    "distinct (map fst (table c))" "distinct (map fst (owners (table c)))"
    "\<forall>(k, f)\<in>set (table c). fd_lookup h (hostDescriptor f) \<noteq> None" "h_names h (hostPath f0) = Some i"
    using un f by (auto simp: unwritten_def Let_def)
  define h1 where "h1 = h\<lparr>h_dirs := (\<lambda>q. h_dirs h q \<or> q \<in> set (ancestors (parent_path ?p)))\<rparr>"
  define h2 where "h2 = h1\<lparr>h_names := (h_names h1)(?p \<mapsto> ?j), h_data := (h_data h1)(?j := h_data h1 i),
     h_owner_write := (h_owner_write h1)(?j := h_owner_write h1 i), h_next := Suc ?j\<rparr>"
  define h3 where "h3 = h2\<lparr>h_owner_write := (h_owner_write h2)(?j := True)\<rparr>"
  have dirs: "fs_create_directories h (parent_path ?p) = (False, h1)"
    using u(1,4) by (auto simp: fs_create_directories_def take_fault_none h1_def list_all_iff)
  have "h_faults h1 = []" "h_names h1 (hostPath f0) = Some i" "h_names h1 ?p = None" "\<not> h_dirs h1 ?p"
    "h_dirs h1 (parent_path ?p)" "h_next h1 = ?j"
    using u by (simp_all add: h1_def ancestors_def)
  then have copy: "fs_copy_file h1 (hostPath f0) ?p = (False, h2)"
    by (simp add: fs_copy_file_def take_fault_none h2_def)
  have "h_faults h2 = []" "h_names h2 ?p = Some ?j" using u(1) by (simp_all add: h2_def h1_def)
  then have perm: "fs_add_owner_write h2 ?p = (False, h3)"
    by (simp add: fs_add_owner_write_def take_fault_none h3_def)
  have l: "fd_lookup h3 d = fd_lookup h d" for d by (simp add: h3_def h2_def h1_def)
  have h3: "h_faults h3 = []" "h_names h3 ?p = Some ?j" "h_owner_write h3 ?j"
    using u(1) by (simp_all add: h3_def h2_def h1_def)
  obtain c' h' where re: "reopenSharedFiles c h3 n ?p = (True, c', h')" "same_names h3 h'" "moved_to ?j n c h3 c' h'"
    using reopenSharedFiles_quiet [OF h3 u(6,7) _ f] u(8) by (auto simp: l)
  have "prepareFileForWrite c h f0 = (True, c', h')"
    using f(2) dirs copy perm re(1) by (simp add: prepareFileForWrite_def)
  moreover have "h_faults h' = []" "h_names h' = (h_names h)(?p \<mapsto> ?j)" "h_data h' = (h_data h)(?j := h_data h i)"
    "h_owner_write h' = (h_owner_write h)(?j := True)" "h_next h' = Suc ?j"
    "h_dirs h' = (\<lambda>q. h_dirs h q \<or> q \<in> set (ancestors (parent_path ?p)))"
    using re(2) u(1) by (simp_all add: same_names_def h3_def h2_def h1_def)
  ultimately show ?thesis using re(3) moved_to_cong [of h3 h, OF l] by blast
qed

lemma unwritten_inv: "unwritten c h n i \<Longrightarrow> guest_inv {} c h"
proof -
  assume u: "unwritten c h n i"
  have "\<exists>i. inode_of h d = Some i" if "(d, s) \<in> set (owners (table c))" for d s
    using u that by (fastforce simp: unwritten_def Let_def owners_def inode_of_def)
  then show "guest_inv {} c h" using u by (auto simp: guest_inv_def own_inv_def unwritten_def Let_def)
qed

lemma prepared_distinct:
  assumes "unwritten c h n i" and p: "prepareFileForWrite c h f = (True, c', h1)"
    and "map_of (table c') k1 = Some f1" and "map_of (table c') k2 = Some f2" and "k1 \<noteq> k2"
  shows "hostDescriptor f1 \<noteq> hostDescriptor f2"
  by (rule descriptors_differ [OF guest_stepD(1) [OF guest_step_prepare [OF p] unwritten_inv [OF assms(1)]] assms(3-5)])

subsection \<open>A machine with one file\<close>

text \<open>The file \<open>a\<close> is open for reading and writing at offset 0, shared or the machine's own.\<close>

definition one_file :: "bool \<Rightarrow> GuestContext" where
  "one_file sh = set_openFiles initial_GuestContext
     [(3, \<lparr>hostDescriptor = 5, flags = FILE_OPEN_READ_WRITE, name = ''a'', hostPath = ''/srv/a'', shared = sh\<rparr>)]"

definition one_file_host :: "access \<Rightarrow> host" where
  "one_file_host acc = \<lparr>h_names = [''/srv/a'' \<mapsto> 0], h_dirs = (\<lambda>p. False), h_data = (\<lambda>i. if i = 0 then [1, 2, 3] else []),
     h_owner_write = (\<lambda>i. True), h_next = 1, h_fds = [(5, \<lparr>oh_inode = 0, oh_access = acc, oh_offset = 0\<rparr>)], h_faults = []\<rparr>"

text \<open>Two bytes at address 8, a request about them, and one about the bytes at 16.\<close>

definition two_bytes :: vm where
  "two_bytes = (blank_vm 64)\<lparr>mem := (\<lambda>_. 0)(8 := 7, 9 := 9)\<rparr>"

definition two_byte_request :: "u32 \<Rightarrow> u32 \<Rightarrow> file_request" where
  "two_byte_request operation buffer = \<lparr>req_operation = operation, req_descriptor = 3, req_buffer = buffer, req_count = 2,
     req_offset = 0, req_flags = FILE_SEEK_SET\<rparr>"

lemma one_file_simps:
  "table (one_file sh) = [(3, \<lparr>hostDescriptor = 5, flags = FILE_OPEN_READ_WRITE, name = ''a'', hostPath = ''/srv/a'', shared = sh\<rparr>)]"
  "fd_lookup (one_file_host acc) 5 = Some \<lparr>oh_inode = 0, oh_access = acc, oh_offset = 0\<rparr>"
  "getGuestMemory two_bytes 8 2 = Some 8" "getGuestMemory two_bytes 16 2 = Some 16" "load_bytes (mem two_bytes) 8 2 = [7, 9]"
  by (simp_all add: one_file_def one_file_host_def fd_lookup_def getGuestMemory_def two_bytes_def blank_vm_def Let_def)
    (simp add: load_bytes_def upt_rec)

lemma read_write_access [simp]: "hasReadAccess FILE_OPEN_READ_WRITE" "hasWriteAccess FILE_OPEN_READ_WRITE"
  by (simp_all add: hasReadAccess_def hasWriteAccess_def access_mode_def open_flags)

lemma unwritten_one_file: "unwritten (one_file True) (one_file_host O_RDONLY) ''a'' 0"
proof -
  have p: "local_path 0 ''a'' = ''vm_files/vm_0/a''" by code_simp
  have a: "ancestors (parent_path ''vm_files/vm_0/a'') = [''vm_files/vm_0'', ''vm_files'']" by code_simp
  have "gid (one_file True) = 0" by (simp add: one_file_def set_openFiles_def initial_GuestContext_def)
  moreover have "i = 0" if "inode_of (one_file_host O_RDONLY) d = Some i" for d i
    using that by (auto simp: inode_of_def fd_lookup_def one_file_host_def split: if_splits)
  ultimately show ?thesis
    using p a by (auto simp: unwritten_def Let_def one_file_simps owners_def host_ok_def one_file_host_def fd_lookup_def
        split: if_splits)
qed

subsection \<open>Properties\<close>

text \<open>
  C13. Copy on write does what its name says. When a machine writes to a shared file for the
  first time and no host call fails, the call returns the number of bytes; afterwards the
  machine's own file exists and holds the original's bytes with the written ones in their
  place, the original is unchanged, the descriptor written through has moved behind the bytes,
  and every other descriptor of the file refers to the copy at the offset it had.
\<close>

theorem copy_on_write:
  assumes "unwritten c h n i" and "map_of (table c) (req_descriptor r) = Some f" and "matches n f"
    and "hasWriteAccess (flags f)" and "0 < sint (req_count r)"
    and "getGuestMemory v (req_buffer r) (nat (sint (req_count r))) = Some a"
    and "fd_lookup h (hostDescriptor f) = Some g"
  defines "bs \<equiv> load_bytes (mem v) a (nat (sint (req_count r)))"
  shows "\<exists>c' h' j. writeFile c v h r = (sint (req_count r), c', h') \<and>
    h_names h' (local_path (gid c) n) = Some j \<and> j \<noteq> i \<and>
    h_data h' = (h_data h)(j := patch (h_data h i) (oh_offset g) bs) \<and>
    (\<exists>f'. map_of (table c') (req_descriptor r) = Some f' \<and> \<not> shared f' \<and>
       fd_lookup h' (hostDescriptor f') = Some ((reopened_at j h f)\<lparr>oh_offset := oh_offset g + length bs\<rparr>)) \<and>
    (\<forall>k f1. k \<noteq> req_descriptor r \<and> map_of (table c) k = Some f1 \<and> matches n f1 \<longrightarrow>
       (\<exists>f'. map_of (table c') k = Some f' \<and> \<not> shared f' \<and> fd_lookup h' (hostDescriptor f') = Some (reopened_at j h f1)))"
proof -
  let ?j = "h_next h" and ?k = "req_descriptor r"
  have f: "(?k, f) \<in> set (table c)" by (rule map_of_SomeD [OF assms(2)])
  obtain c' h1 where p: "prepareFileForWrite c h f = (True, c', h1)" "h_faults h1 = []"
      "h_names h1 = (h_names h)(local_path (gid c) n \<mapsto> ?j)" "h_data h1 = (h_data h)(?j := h_data h i)"
      "moved_to ?j n c h c' h1"
    using prepareFileForWrite_quiet [OF assms(1) f assms(3)] by blast
  have "h_names h (hostPath f) = Some i" "host_ok h" using assms(1,3) f by (auto simp: unwritten_def Let_def)
  then have ij: "?j \<noteq> i" by (auto simp: host_ok_def)
  obtain f' where f': "map_of (table c') ?k = Some f'" "\<not> shared f'" "fd_lookup h1 (hostDescriptor f') = Some (reopened_at ?j h f)"
    using moved_toD [OF p(5) assms(2,3)] by blast
  let ?g = "reopened_at ?j h f"
  have g: "oh_access ?g \<noteq> O_RDONLY" "oh_offset ?g = oh_offset g" "oh_inode ?g = ?j"
    using assms(4,7) by (auto simp: reopened_at_def toHostOpenFlags_def hasWriteAccess_def open_flags)
  define h2 where "h2 = fd_update (h1\<lparr>h_data := (h_data h1)(?j := patch (h_data h i) (oh_offset g) bs)\<rparr>) (hostDescriptor f')
     (?g\<lparr>oh_offset := oh_offset g + length bs\<rparr>)"
  have "os_write h1 (hostDescriptor f') bs = (int (length bs), h2)"
    using os_write_quiet [OF p(2) f'(3) g(1)] g(2,3) p(4) by (simp add: h2_def)
  then have w: "writeFile c v h r = (sint (req_count r), c', h2)"
    using assms(2,4-6) p(1) f'(1) by (simp add: writeFile_def table_def bs_def)
  have "\<exists>f2. map_of (table c') k = Some f2 \<and> \<not> shared f2 \<and> fd_lookup h2 (hostDescriptor f2) = Some (reopened_at ?j h f1)"
    if k: "k \<noteq> ?k" "map_of (table c) k = Some f1" "matches n f1" for k f1
    using moved_toD [OF p(5) k(2,3)] prepared_distinct [OF assms(1) p(1) _ f'(1) k(1)] by (auto simp: h2_def)
  moreover have "fd_lookup h2 (hostDescriptor f') = Some (?g\<lparr>oh_offset := oh_offset g + length bs\<rparr>)"
    "h_names h2 (local_path (gid c) n) = Some ?j" "h_data h2 = (h_data h)(?j := patch (h_data h i) (oh_offset g) bs)"
    using f'(3) p(3,4) by (simp_all add: h2_def)
  ultimately show ?thesis using w ij f'(1,2) by (intro exI [of _ c'] exI [of _ h2] exI [of _ ?j]) auto
qed

theorem copy_on_write_witness:
  "\<exists>c' h' j. writeFile (one_file True) two_bytes (one_file_host O_RDONLY) (two_byte_request FILE_OPERATION_WRITE 8) = (2, c', h') \<and>
     h_data h' j = [7, 9, 3] \<and> h_data h' 0 = [1, 2, 3]"
proof -
  let ?r = "two_byte_request FILE_OPERATION_WRITE 8"
  let ?f = "\<lparr>hostDescriptor = 5, flags = FILE_OPEN_READ_WRITE, name = ''a'', hostPath = ''/srv/a'', shared = True\<rparr>"
  let ?g = "\<lparr>oh_inode = 0, oh_access = O_RDONLY, oh_offset = 0\<rparr>"
  have r: "req_descriptor ?r = 3" "sint (req_count ?r) = 2" "req_buffer ?r = 8" by (simp_all add: two_byte_request_def)
  obtain c' h' j where w: "writeFile (one_file True) two_bytes (one_file_host O_RDONLY) ?r = (sint (req_count ?r), c', h')" "j \<noteq> 0"
    "h_data h' = (h_data (one_file_host O_RDONLY))(j := patch (h_data (one_file_host O_RDONLY) 0) (oh_offset ?g)
       (load_bytes (mem two_bytes) 8 (nat (sint (req_count ?r)))))"
    using copy_on_write [OF unwritten_one_file, of ?r ?f two_bytes 8 ?g] by (auto simp: r one_file_simps)
  have "h_data h' j = [7, 9, 3] \<and> h_data h' 0 = [1, 2, 3]"
    using w(2,3) by (simp add: r one_file_simps) (simp add: one_file_host_def patch_def)
  then show ?thesis using w(1) r(2) by auto
qed

text \<open>
  C31. What a guest writes it can read back: on a file of its own that is open for reading and
  writing, writing bytes, seeking back to where they begin and reading as many returns the
  same bytes, when no host call fails.
\<close>

theorem write_seek_read:
  assumes "map_of (table c) k = Some f" and "\<not> shared f" and "hasReadAccess (flags f)" and "hasWriteAccess (flags f)"
    and "h_faults h = []" and "fd_lookup h (hostDescriptor f) = Some g" and "oh_access g = O_RDWR"
    and "req_descriptor rw = k" and "req_descriptor rs = k" and "req_descriptor rr = k"
    and "0 < sint (req_count rw)" and "req_count rr = req_count rw"
    and "req_flags rs = FILE_SEEK_SET" and "sint (req_offset rs) = int (oh_offset g)"
    and "getGuestMemory v (req_buffer rw) (nat (sint (req_count rw))) = Some a"
    and "getGuestMemory v (req_buffer rr) (nat (sint (req_count rr))) = Some b"
  shows "\<exists>h1 h2 v' h3. writeFile c v h rw = (sint (req_count rw), c, h1) \<and>
    seekFile c h1 rs = (int (oh_offset g), h2) \<and> readFile c v h2 rr = (sint (req_count rw), v', h3) \<and>
    load_bytes (mem v') b (nat (sint (req_count rw))) = load_bytes (mem v) a (nat (sint (req_count rw)))"
proof -
  let ?n = "nat (sint (req_count rw))" and ?d = "hostDescriptor f"
  define bs where "bs = load_bytes (mem v) a ?n"
  have len: "length bs = ?n" by (simp add: bs_def)
  define h1 where "h1 = fd_update (h\<lparr>h_data := (h_data h)(oh_inode g := patch (h_data h (oh_inode g)) (oh_offset g) bs)\<rparr>) ?d
     (g\<lparr>oh_offset := oh_offset g + length bs\<rparr>)"
  define h2 where "h2 = fd_update h1 ?d g"
  have "os_write h ?d bs = (int (length bs), h1)"
    using os_write_quiet [OF assms(5,6)] assms(7) by (simp add: h1_def)
  then have w: "writeFile c v h rw = (sint (req_count rw), c, h1)"
    using assms len by (simp add: writeFile_def table_def prepareFileForWrite_def bs_def)
  have h1: "h_faults h1 = []" "fd_lookup h1 ?d = Some (g\<lparr>oh_offset := oh_offset g + length bs\<rparr>)"
    "h_data h1 (oh_inode g) = patch (h_data h (oh_inode g)) (oh_offset g) bs"
    using assms(5,6) by (simp_all add: h1_def)
  have "os_lseek h1 ?d (int (oh_offset g)) W_SET = (int (oh_offset g), h2)"
    using os_lseek_quiet(2) [OF h1(1,2), of "int (oh_offset g)"] by (simp add: h2_def)
  moreover have "int (oh_offset g) \<le> 2 ^ 31 - 1" using sint_less [of "req_offset rs"] assms(14) by simp
  ultimately have s: "seekFile c h1 rs = (int (oh_offset g), h2)"
    using assms(1,9,13,14) by (simp add: seekFile_def table_def)
  have h2: "h_faults h2 = []" "fd_lookup h2 ?d = Some g" "h_data h2 (oh_inode g) = patch (h_data h (oh_inode g)) (oh_offset g) bs"
    using h1 by (simp_all add: h2_def)
  have again: "take ?n (drop (oh_offset g) (h_data h2 (oh_inode g))) = bs"
    using patch_read_back [of bs "oh_offset g"] h2(3) len by simp
  define h3 where "h3 = snd (os_read h2 ?d ?n)"
  have "os_read h2 ?d ?n = (Some bs, h3)"
    using os_read_quiet [OF h2(1,2), of ?n] assms(7) again by (simp add: h3_def)
  then have "readFile c v h2 rr = (sint (req_count rw), v\<lparr>mem := store_bytes (mem v) b bs\<rparr>, h3)"
    using assms len by (simp add: readFile_def table_def)
  moreover have "load_bytes (store_bytes (mem v) b bs) b ?n = bs" using load_store_bytes len by metis
  ultimately show ?thesis using w s by (auto simp: bs_def)
qed

theorem write_seek_read_witness:
  "\<exists>h1 h2 v' h3. writeFile (one_file False) two_bytes (one_file_host O_RDWR) (two_byte_request FILE_OPERATION_WRITE 8) = (2, one_file False, h1) \<and>
     seekFile (one_file False) h1 (two_byte_request FILE_OPERATION_LSEEK 0) = (0, h2) \<and>
     readFile (one_file False) two_bytes h2 (two_byte_request FILE_OPERATION_READ 16) = (2, v', h3) \<and>
     load_bytes (mem v') 16 2 = [7, 9]"
proof -
  let ?f = "\<lparr>hostDescriptor = 5, flags = FILE_OPEN_READ_WRITE, name = ''a'', hostPath = ''/srv/a'', shared = False\<rparr>"
  let ?g = "\<lparr>oh_inode = 0, oh_access = O_RDWR, oh_offset = 0\<rparr>"
  have r: "sint (req_count (two_byte_request op b)) = 2" "sint (req_offset (two_byte_request op b)) = 0"
    "req_buffer (two_byte_request op b) = b" "req_descriptor (two_byte_request op b) = 3"
    "req_flags (two_byte_request op b) = FILE_SEEK_SET" "req_count (two_byte_request op b) = 2" for op b
    by (simp_all add: two_byte_request_def)
  have "h_faults (one_file_host O_RDWR) = []" by (simp add: one_file_host_def)
  then show ?thesis
    using write_seek_read [of "one_file False" 3 ?f "one_file_host O_RDWR" ?g "two_byte_request FILE_OPERATION_WRITE 8"
        "two_byte_request FILE_OPERATION_LSEEK 0" "two_byte_request FILE_OPERATION_READ 16" two_bytes 8 16]
    by (simp add: r one_file_simps)
qed

definition invalid_request :: "GuestContext \<Rightarrow> vm \<Rightarrow> file_request \<Rightarrow> bool" where
  "invalid_request c v r \<longleftrightarrow>
     (if req_operation r = FILE_OPERATION_OPEN
      then \<not> areValidOpenFlags (req_flags r) \<or> readGuestFileName v (req_buffer r) = None
      else req_operation r \<in> {FILE_OPERATION_CLOSE, FILE_OPERATION_READ, FILE_OPERATION_WRITE, FILE_OPERATION_LSEEK} \<longrightarrow>
        map_of (table c) (req_descriptor r) = None)"

text \<open>
  C32. A request about a descriptor that is not open, an unknown operation, and an open with bad
  flags or without a valid, terminated name in guest memory are answered with -1 and change
  nothing.
\<close>

theorem invalid_request_harmless:
  assumes "invalid_request c v r"
  shows "processFileRequest c ss v h r = (-1, c, v, h)"
  using assms
  by (auto simp: invalid_request_def processFileRequest_def openFile_def closeFile_def readFile_def writeFile_def
      seekFile_def table_def file_operations split: if_splits option.splits)

theorem invalid_request_harmless_witness:
  "processFileRequest initial_GuestContext initial_SharedState two_bytes (one_file_host O_RDWR) (two_byte_request FILE_OPERATION_WRITE 8) =
     (-1, initial_GuestContext, two_bytes, one_file_host O_RDWR)"
  by (rule invalid_request_harmless)
    (simp add: invalid_request_def two_byte_request_def file_operations table_def initial_GuestContext_def initial_FileState_def)

lemma os_write_bound: "os_write h d bs = (x, h') \<Longrightarrow> -1 \<le> x \<and> x \<le> int (length bs)"
  by (auto simp: os_write_def Let_def split: prod.splits option.splits if_splits)

lemma os_read_bound: "os_read h d n = (Some bs, h') \<Longrightarrow> length bs \<le> n"
proof -
  have "transfer f n \<le> n" for f by (auto simp: transfer_def split: fault.split)
  then show "os_read h d n = (Some bs, h') \<Longrightarrow> length bs \<le> n"
    by (auto simp: os_read_def Let_def min_def split: prod.splits option.splits if_splits) (meson le_trans)
qed

lemma sint_count_bound: "int (nat (sint (x :: i32))) \<le> 2 ^ 31 - 1"
  using sint_less [of x] by simp

lemma openFile_bound:
  assumes "openFile c ss v h r = (x, c', h')" and "0 \<le> sint (nextDescriptor (fileState c))"
  shows "-1 \<le> x \<and> x \<le> 2 ^ 31 - 1"
  using assms sint_less [of "nextDescriptor (fileState c)"]
  by (auto simp: openFile_def Let_def split: if_splits option.splits prod.splits)

lemma readFile_bound: "readFile c v h r = (x, v', h') \<Longrightarrow> -1 \<le> x \<and> x \<le> 2 ^ 31 - 1"
  using sint_count_bound [of "req_count r"]
  by (auto simp: readFile_def split: if_splits option.splits prod.splits dest!: os_read_bound)

lemma writeFile_bound: "writeFile c v h r = (x, c', h') \<Longrightarrow> -1 \<le> x \<and> x \<le> 2 ^ 31 - 1"
  using sint_count_bound [of "req_count r"]
  by (fastforce simp: writeFile_def Let_def split: if_splits option.splits prod.splits dest: os_write_bound)

text \<open>
  The guest gets the result the host computed: while the descriptor counter has not
  overflowed, every result lies between -1 and 2^31 - 1, so storing it as a 32-bit integer for
  the guest loses nothing.
\<close>

lemma request_result_fits:
  assumes "processFileRequest c ss v h r = (x, c', v', h')" and "0 \<le> sint (nextDescriptor (fileState c))"
  shows "-1 \<le> x \<and> x \<le> 2 ^ 31 - 1 \<and> sint (last (pendingResults (fileState (push_result c' x)))) = x"
proof -
  have "-1 \<le> x \<and> x \<le> 2 ^ 31 - 1"
    using assms
    by (auto simp: processFileRequest_def closeFile_def seekFile_def Let_def split: if_splits prod.splits option.splits
        dest: readFile_bound writeFile_bound dest!: openFile_bound)
  moreover from this have "sint (word_of_int x :: i32) = x" by (simp add: sint_sbintrunc' signed_take_bit_int_eq_self)
  ultimately show ?thesis by (simp add: push_result_def)
qed

lemma request_result_fits_witness:
  "sint (last (pendingResults (fileState (push_result initial_GuestContext
     (fst (processFileRequest initial_GuestContext initial_SharedState two_bytes (one_file_host O_RDWR) (two_byte_request 9 8))))))) = -1"
proof -
  have p: "processFileRequest initial_GuestContext initial_SharedState two_bytes (one_file_host O_RDWR) (two_byte_request 9 8) =
      (-1, initial_GuestContext, two_bytes, one_file_host O_RDWR)"
    by (simp add: processFileRequest_def two_byte_request_def file_operations)
  have "0 \<le> sint (nextDescriptor (fileState initial_GuestContext))"
    by (simp add: initial_GuestContext_def initial_FileState_def)
  from request_result_fits [OF p this] show ?thesis by (simp add: p)
qed

text \<open>
  C40. A write of no bytes to a shared file still makes it the machine's own: the call returns
  0 and leaves a private copy behind.
\<close>

theorem empty_write_copies:
  assumes "unwritten c h n i" and "map_of (table c) (req_descriptor r) = Some f" and "matches n f"
    and "hasWriteAccess (flags f)" and "req_count r = 0"
  shows "\<exists>c' h'. writeFile c v h r = (0, c', h') \<and> h_names h (local_path (gid c) n) = None \<and>
    h_names h' (local_path (gid c) n) = Some (h_next h) \<and> h_data h' (h_next h) = h_data h i"
proof -
  obtain c' h' where "prepareFileForWrite c h f = (True, c', h')"
      "h_names h' = (h_names h)(local_path (gid c) n \<mapsto> h_next h)" "h_data h' = (h_data h)(h_next h := h_data h i)"
    using prepareFileForWrite_quiet [OF assms(1) map_of_SomeD [OF assms(2)] assms(3)] by blast
  then show ?thesis using assms by (simp add: writeFile_def table_def unwritten_def Let_def)
qed

theorem empty_write_copies_witness:
  "\<exists>c' h'. writeFile (one_file True) two_bytes (one_file_host O_RDONLY) ((two_byte_request FILE_OPERATION_WRITE 8)\<lparr>req_count := 0\<rparr>) =
     (0, c', h') \<and> h_data h' 1 = [1, 2, 3]"
proof -
  let ?f = "\<lparr>hostDescriptor = 5, flags = FILE_OPEN_READ_WRITE, name = ''a'', hostPath = ''/srv/a'', shared = True\<rparr>"
  have "h_next (one_file_host O_RDONLY) = 1" "h_data (one_file_host O_RDONLY) 0 = [1, 2, 3]" by (simp_all add: one_file_host_def)
  then show ?thesis
    using empty_write_copies [OF unwritten_one_file, of "(two_byte_request FILE_OPERATION_WRITE 8)\<lparr>req_count := 0\<rparr>" ?f two_bytes]
    by (auto simp: two_byte_request_def one_file_simps)
qed

end
