(* ===== verification/File_Open.thy ===== *)
theory File_Open
  imports File_Content
begin

text \<open>
  \<^verbatim>\<open>openFile\<close> when no host call fails: which file an open reaches, and exactly what it leaves of
  the host. An open reaches the machine's own file of that name, else the shared file, else it
  creates one.
\<close>

subsection \<open>Directories above a machine's files\<close>

definition vm_directory :: "nat \<Rightarrow> path" where
  "vm_directory vm_id = ''vm_files/vm_'' @ show_nat vm_id"

definition no_file_above :: "host \<Rightarrow> path \<Rightarrow> bool" where
  "no_file_above h p \<longleftrightarrow> p \<notin> set (ancestors (parent_path p)) \<and> list_all (\<lambda>q. h_names h q = None) (ancestors (parent_path p))"

lemma local_path_directory: "local_path vm_id n = vm_directory vm_id @ ''/'' @ n"
  by (simp add: local_path_def vm_directory_def)

lemma parent_local: "CHR ''/'' \<notin> set n \<Longrightarrow> parent_path (local_path vm_id n) = vm_directory vm_id"
  unfolding local_path_directory by (rule parent_path_local)

lemma ancestors_one_slash:
  assumes "CHR ''/'' \<notin> set a" and "CHR ''/'' \<notin> set b"
  shows "set (ancestors (a @ ''/'' @ b)) = {a @ ''/'' @ b, a}"
proof -
  have "(a @ ''/'' @ b) ! i = CHR ''/'' \<longleftrightarrow> i = length a" if "i < length (a @ ''/'' @ b)" for i
  proof -
    consider "i < length a" | "i = length a" | j where "i = Suc (length a + j)" "j < length b"
      using \<open>i < length (a @ ''/'' @ b)\<close> less_imp_Suc_add [of "length a" i] by fastforce
    then show ?thesis
      using assms nth_mem [of i a] by cases (auto simp: nth_append dest: nth_mem)
  qed
  then have "filter (\<lambda>i. (a @ ''/'' @ b) ! i = CHR ''/'') [0..<length (a @ ''/'' @ b)] =
      filter (\<lambda>i. i = length a) [0..<length (a @ ''/'' @ b)]"
    by (intro filter_cong) auto
  then have "set (ancestors (a @ ''/'' @ b)) = insert (a @ ''/'' @ b) ((\<lambda>i. take i (a @ ''/'' @ b)) ` {length a})"
    unfolding ancestors_def by auto
  then show ?thesis by simp
qed

lemma ancestors_directory: "set (ancestors (vm_directory vm_id)) = {vm_directory vm_id, ''vm_files''}"
  using ancestors_one_slash [of "''vm_files''" "''vm_'' @ show_nat vm_id"] by (simp add: vm_directory_def)

lemma local_path_not_directory: "local_path k n \<noteq> vm_directory j" "local_path k n \<noteq> ''vm_files''"
proof -
  have "show_nat k @ CHR ''/'' # n \<noteq> show_nat j"
  proof
    assume "show_nat k @ CHR ''/'' # n = show_nat j"
    then have "CHR ''/'' \<in> set (show_nat j)" by (metis in_set_conv_decomp)
    then show False by simp
  qed
  then show "local_path k n \<noteq> vm_directory j" by (simp add: local_path_def vm_directory_def)
  show "local_path k n \<noteq> ''vm_files''" by (simp add: local_path_def)
qed

lemma no_file_above_local:
  assumes "CHR ''/'' \<notin> set n"
  shows "no_file_above h (local_path vm_id n) \<longleftrightarrow> h_names h (vm_directory vm_id) = None \<and> h_names h ''vm_files'' = None"
proof -
  have "list_all P (ancestors (vm_directory vm_id)) \<longleftrightarrow> P (vm_directory vm_id) \<and> P ''vm_files''" for P
    unfolding list_all_iff ancestors_directory by simp
  then show ?thesis
    using local_path_not_directory
    by (auto simp: no_file_above_def parent_local [OF assms] ancestors_directory)
qed

subsection \<open>What an open reaches\<close>

definition open_reaches :: "GuestContext \<Rightarrow> SharedState \<Rightarrow> host \<Rightarrow> string \<Rightarrow> i32 \<Rightarrow> bool \<Rightarrow> nat \<Rightarrow> bool" where
  "open_reaches c ss h n fl shd i \<longleftrightarrow> (let flags = toHostOpenFlags fl; local = local_path (gid c) n in
     h_faults h = [] \<and> numbered c \<and> \<not> h_dirs h local \<and>
     (shd \<or> \<not> hf_creat flags \<or> no_file_above h local) \<and>
     (case h_names h local of
        Some j \<Rightarrow> \<not> shd \<and> j = i \<and> (hf_access flags = O_RDONLY \<or> h_owner_write h i)
      | None \<Rightarrow> (case sharedFiles ss n of
          Some p \<Rightarrow> shd \<and> h_names h p = Some i
        | None \<Rightarrow> \<not> shd \<and> hf_creat flags \<and> i = h_next h)))"

definition reached_data :: "GuestContext \<Rightarrow> SharedState \<Rightarrow> host \<Rightarrow> string \<Rightarrow> u8 list" where
  "reached_data c ss h n = (case h_names h (local_path (gid c) n) of Some i \<Rightarrow> h_data h i
     | None \<Rightarrow> (case sharedFiles ss n of None \<Rightarrow> []
         | Some p \<Rightarrow> (case h_names h p of Some i \<Rightarrow> h_data h i | None \<Rightarrow> [])))"

text \<open>The host when the descriptor is about to be installed.\<close>

definition with_directory :: "host \<Rightarrow> path \<Rightarrow> host" where
  "with_directory h p = h\<lparr>h_dirs := (\<lambda>q. h_dirs h q \<or> q \<in> set (ancestors p))\<rparr>"

definition reached_host :: "GuestContext \<Rightarrow> host \<Rightarrow> string \<Rightarrow> i32 \<Rightarrow> bool \<Rightarrow> host" where
  "reached_host c h n fl shd =
     (if shd then h else
      let local = local_path (gid c) n;
          h = (if hf_creat (toHostOpenFlags fl) then with_directory h (parent_path local) else h)
      in if h_names h local = None then created h local else h)"

definition reached_file :: "GuestContext \<Rightarrow> SharedState \<Rightarrow> string \<Rightarrow> i32 \<Rightarrow> bool \<Rightarrow> int \<Rightarrow> OpenFile" where
  "reached_file c ss n fl shd d = \<lparr>hostDescriptor = d, flags = fl, name = n,
     hostPath = (if shd then the (sharedFiles ss n) else local_path (gid c) n), shared = shd\<rparr>"

definition reached_handle :: "i32 \<Rightarrow> bool \<Rightarrow> nat \<Rightarrow> open_host" where
  "reached_handle fl shd i = \<lparr>oh_inode = i, oh_access = if shd then O_RDONLY else hf_access (toHostOpenFlags fl), oh_offset = 0\<rparr>"

text \<open>The context with one more descriptor.\<close>

definition with_descriptor :: "GuestContext \<Rightarrow> OpenFile \<Rightarrow> GuestContext" where
  "with_descriptor c f =
     (let k = nextDescriptor (fileState c)
      in set_openFiles (c\<lparr>fileState := (fileState c)\<lparr>nextDescriptor := k + 1\<rparr>\<rparr>) ((k, f) # table c))"

lemma with_directory_fields [simp]:
  "h_names (with_directory h p) = h_names h" "h_data (with_directory h p) = h_data h" "h_next (with_directory h p) = h_next h"
  "h_owner_write (with_directory h p) = h_owner_write h" "h_faults (with_directory h p) = h_faults h"
  "fd_lookup (with_directory h p) d = fd_lookup h d" "h_fds (with_directory h p) = h_fds h"
  "h_dirs (with_directory h p) q \<longleftrightarrow> h_dirs h q \<or> q \<in> set (ancestors p)"
  by (simp_all add: with_directory_def)

lemma created_fields [simp]:
  "h_names (created h p) = (h_names h)(p \<mapsto> h_next h)" "h_data (created h p) = (h_data h)(h_next h := [])"
  "h_next (created h p) = Suc (h_next h)" "h_owner_write (created h p) = (h_owner_write h)(h_next h := True)"
  "h_faults (created h p) = h_faults h" "fd_lookup (created h p) d = fd_lookup h d" "h_dirs (created h p) = h_dirs h"
  by (simp_all add: created_def)

lemma resolve_quiet:
  assumes "open_reaches c ss h n fl shd i"
  shows "resolveFile c ss h n = (\<lparr>rf_path = hostPath (reached_file c ss n fl shd 0), rf_shared = shd\<rparr>, h)"
  using assms
  by (auto simp: open_reaches_def Let_def resolveFile_def fs_exists_def take_fault_none reached_file_def split: option.splits)

lemma open_shared_quiet:
  assumes "open_reaches c ss h n fl True i"
  shows "os_open h (hostPath (reached_file c ss n fl True 0)) \<lparr>hf_access = O_RDONLY, hf_creat = False\<rparr> =
    fd_install h (reached_handle fl True i)"
  using assms
  by (auto simp: open_reaches_def Let_def reached_file_def reached_handle_def os_open_def take_fault_none split: option.splits)

lemma open_own_quiet:
  assumes "open_reaches c ss h n fl False i"
  defines "local \<equiv> local_path (gid c) n" and "create \<equiv> hf_creat (toHostOpenFlags fl)"
  defines "h1 \<equiv> if create then with_directory h (parent_path local) else h"
  shows "create \<Longrightarrow> fs_create_directories h (parent_path local) = (False, h1)"
    and "os_open h1 local (toHostOpenFlags fl) = fd_install (reached_host c h n fl False) (reached_handle fl False i)"
proof -
  have t: "h_faults h = []" "\<not> h_dirs h local" "create \<Longrightarrow> no_file_above h local"
    using assms(1) by (auto simp: open_reaches_def Let_def local_def create_def)
  then show "create \<Longrightarrow> fs_create_directories h (parent_path local) = (False, h1)"
    by (auto simp: fs_create_directories_def take_fault_none h1_def no_file_above_def list_all_iff with_directory_def)
  have f: "take_fault h1 = (No_Fault, h1)" using t(1) by (simp add: take_fault_none h1_def)
  show "os_open h1 local (toHostOpenFlags fl) = fd_install (reached_host c h n fl False) (reached_handle fl False i)"
  proof (cases "h_names h local")
    case None
    then have i: "i = h_next h" and cr: create
      using assms(1) by (auto simp: open_reaches_def Let_def local_def create_def split: option.splits)
    have "\<not> h_dirs h1 local" "h_dirs h1 (parent_path local)"
      using t(2) t(3) [OF cr] cr by (auto simp: h1_def no_file_above_def ancestors_def)
    then show ?thesis
      using None cr i f
      by (simp add: os_open_def create_def reached_host_def reached_handle_def h1_def created_def flip: local_def)
  next
    case (Some j)
    then show ?thesis
      using assms(1) f
      by (auto simp: os_open_def open_reaches_def Let_def reached_host_def reached_handle_def h1_def create_def simp flip: local_def)
  qed
qed

lemma openFile_quiet:
  assumes op: "open_reaches c ss h n fl shd i" and "readGuestFileName v (req_buffer r) = Some n"
    and "areValidOpenFlags fl" and "req_flags r = fl"
    and ins: "fd_install (reached_host c h n fl shd) (reached_handle fl shd i) = (d, h')"
  shows "openFile c ss v h r = (sint (nextDescriptor (fileState c)), with_descriptor c (reached_file c ss n fl shd d), h')"
proof -
  have d: "0 \<le> d" using fd_install_nonneg ins by (metis fst_conv)
  have fresh: "map_of (table c) (nextDescriptor (fileState c)) = None"
    using op by (simp add: open_reaches_def Let_def numbered_fresh)
  have creat: "hf_creat (toHostOpenFlags fl) \<longleftrightarrow> fl AND FILE_OPEN_CREATE \<noteq> 0" by (simp add: toHostOpenFlags_def)
  note rs = resolve_quiet [OF op]
  show ?thesis
  proof (cases shd)
    case True
    then show ?thesis
      using assms(2-5) rs open_shared_quiet [of c ss h n fl i] op d fresh
      by (simp add: openFile_def Let_def reached_file_def with_descriptor_def table_def reached_host_def set_openFiles_def)
  next
    case False
    show ?thesis
      using assms(2-5) rs open_own_quiet [of c ss h n fl i] op d fresh False
      by (cases "fl AND FILE_OPEN_CREATE = 0")
        (simp_all add: openFile_def Let_def reached_file_def with_descriptor_def table_def creat set_openFiles_def)
  qed
qed

end
