(* ===== verification/Guest_Library.thy ===== *)
theory Guest_Library
  imports Vm_Runner File_Open "HOL-Library.Monad_Syntax"
begin

text \<open>
  The guests' file library, \<^verbatim>\<open>guest/src/file.c\<close>, over the port instructions of
  \<^verbatim>\<open>guest/inc/io.h\<close>: a request is a structure in guest memory whose address goes out on the
  file port, and the next input from the port is the answer. Each instruction is an exit that
  the host's device handlers serve, so a call of the library runs through the whole host. A
  guest address is a natural number; the address of a local structure is an argument \<open>sp\<close>.
\<close>

subsection \<open>Port instructions\<close>

record guest =
  g_context :: GuestContext
  g_vm :: vm
  g_world :: world

text \<open>\<open>None\<close>: the host ends the machine, or the access waits.\<close>

definition port_call :: "io_direction \<Rightarrow> u16 \<Rightarrow> u8 \<Rightarrow> u8 list \<Rightarrow> guest \<Rightarrow> guest option" where
  "port_call dir port sz data s =
     (let v = g_vm s;
          r = (run v)\<lparr>exit_reason := KVM_EXIT_IO,
                io := \<lparr>io_direction = dir, io_size = sz, io_port = port, io_count = 1, io_data_offset = 1024\<rparr>,
                run_data := store_bytes (run_data (run v)) 1024 data\<rparr>
      in case port_device (g_context s, g_world s) (v\<lparr>run := r\<rparr>) of
           Done (True, (c, w), v) \<Rightarrow> Some \<lparr>g_context = c, g_vm = v, g_world = w\<rparr>
         | _ \<Rightarrow> None)"

definition cpu_outb :: "u16 \<Rightarrow> u8 \<Rightarrow> guest \<Rightarrow> guest option" where
  "cpu_outb port x s = port_call KVM_EXIT_IO_OUT port 1 [x] s"

definition cpu_inb :: "u16 \<Rightarrow> guest \<Rightarrow> (u8 \<times> guest) option" where
  "cpu_inb port s = do { s \<leftarrow> port_call KVM_EXIT_IO_IN port 1 [] s; Some (run_data (run (g_vm s)) 1024, s) }"

definition cpu_outl :: "u16 \<Rightarrow> u32 \<Rightarrow> guest \<Rightarrow> guest option" where
  "cpu_outl port x s = port_call KVM_EXIT_IO_OUT port 4 (le_bytes 4 x) s"

definition cpu_inl :: "u16 \<Rightarrow> guest \<Rightarrow> (u32 \<times> guest) option" where
  "cpu_inl port s = do { s \<leftarrow> port_call KVM_EXIT_IO_IN port 4 [] s; Some (load32 (run_data (run (g_vm s))) 1024, s) }"

subsection \<open>The library\<close>

definition poke :: "nat \<Rightarrow> u8 list \<Rightarrow> guest \<Rightarrow> guest" where
  "poke a bs s = s\<lparr>g_vm := (g_vm s)\<lparr>mem := store_bytes (mem (g_vm s)) a bs\<rparr>\<rparr>"

definition submit_file_request :: "nat \<Rightarrow> file_request \<Rightarrow> guest \<Rightarrow> (i32 \<times> guest) option" where
  "submit_file_request sp r s = do {
     s \<leftarrow> cpu_outl FILE_IO_PORT (of_nat sp) (poke sp (encode_request r) s);
     cpu_inl FILE_IO_PORT s }"

definition no_request :: file_request where
  "no_request = \<lparr>req_operation = 0, req_descriptor = 0, req_buffer = 0, req_count = 0, req_offset = 0, req_flags = 0\<rparr>"

definition guest_open :: "nat \<Rightarrow> nat \<Rightarrow> i32 \<Rightarrow> guest \<Rightarrow> (i32 \<times> guest) option" where
  "guest_open sp path fl s =
     (if path = 0 then Some (-1, s)
      else submit_file_request sp (no_request\<lparr>req_operation := FILE_OPERATION_OPEN, req_buffer := of_nat path, req_flags := fl\<rparr>) s)"

definition guest_close :: "nat \<Rightarrow> i32 \<Rightarrow> guest \<Rightarrow> (i32 \<times> guest) option" where
  "guest_close sp fd s =
     submit_file_request sp (no_request\<lparr>req_operation := FILE_OPERATION_CLOSE, req_descriptor := fd\<rparr>) s"

definition guest_read :: "nat \<Rightarrow> i32 \<Rightarrow> nat \<Rightarrow> i32 \<Rightarrow> guest \<Rightarrow> (i32 \<times> guest) option" where
  "guest_read sp fd buf n s =
     (if buf = 0 \<and> sint n > 0 then Some (-1, s)
      else submit_file_request sp (no_request\<lparr>req_operation := FILE_OPERATION_READ, req_descriptor := fd,
        req_buffer := of_nat buf, req_count := n\<rparr>) s)"

definition guest_write :: "nat \<Rightarrow> i32 \<Rightarrow> nat \<Rightarrow> i32 \<Rightarrow> guest \<Rightarrow> (i32 \<times> guest) option" where
  "guest_write sp fd buf n s =
     (if buf = 0 \<and> sint n > 0 then Some (-1, s)
      else submit_file_request sp (no_request\<lparr>req_operation := FILE_OPERATION_WRITE, req_descriptor := fd,
        req_buffer := of_nat buf, req_count := n\<rparr>) s)"

definition guest_lseek :: "nat \<Rightarrow> i32 \<Rightarrow> i32 \<Rightarrow> i32 \<Rightarrow> guest \<Rightarrow> (i32 \<times> guest) option" where
  "guest_lseek sp fd off off_flag s =
     submit_file_request sp (no_request\<lparr>req_operation := FILE_OPERATION_LSEEK, req_descriptor := fd,
       req_offset := off, req_flags := off_flag\<rparr>) s"

subsection \<open>A call runs the host's request and returns its result\<close>

lemma getGuestMemory_run [simp]: "getGuestMemory (v\<lparr>run := x\<rparr>) a n = getGuestMemory v a n"
  by (simp add: getGuestMemory_def)

lemma mem_of_run: "mem (v\<lparr>run := x\<rparr>) = mem v"
  by simp

lemma readGuestFileName_run [simp]: "readGuestFileName (v\<lparr>run := x\<rparr>) a = readGuestFileName v a"
  by (simp add: readGuestFileName_def split: option.split)

lemma openFile_run [simp]: "openFile c ss (v\<lparr>run := x\<rparr>) h r = openFile c ss v h r"
  by (simp only: openFile_def readGuestFileName_run)

lemma writeFile_run [simp]: "writeFile c (v\<lparr>run := x\<rparr>) h r = writeFile c v h r"
  by (simp only: writeFile_def getGuestMemory_run mem_of_run)

lemma readFile_run:
  "readFile c (v\<lparr>run := x\<rparr>) h r = (case readFile c v h r of (y, v', h') \<Rightarrow> (y, v'\<lparr>run := x\<rparr>, h'))"
  by (simp add: readFile_def split: option.splits prod.splits)

lemma processFileRequest_run:
  assumes "processFileRequest c ss v h r = (y, c', v', h')"
  shows "processFileRequest c ss (v\<lparr>run := x\<rparr>) h r = (y, c', v'\<lparr>run := x\<rparr>, h')"
  using assms by (auto simp: processFileRequest_def readFile_run split: if_splits prod.splits)

lemma processFileRequest_vm:
  "processFileRequest c ss v h r = (y, c', v', h') \<Longrightarrow> v' = v\<lparr>mem := mem v'\<rparr>"
  by (auto simp: processFileRequest_def readFile_def split: if_splits prod.splits option.splits)

lemma pop_push_result [simp]:
  "(push_result c x)\<lparr>fileState := (fileState (push_result c x))\<lparr>pendingResults := butlast (pendingResults (fileState (push_result c x)))\<rparr>\<rparr> = c"
  "pendingResults (fileState (push_result c x)) \<noteq> []" "last (pendingResults (fileState (push_result c x))) = word_of_int x"
  by (simp_all add: push_result_def)

lemma mapping_size_run [simp]: "mapping_size (v\<lparr>run := x\<rparr>) = mapping_size v"
  by (simp add: mapping_size_def)

lemma file_out:
  assumes "sp + file_request_size \<le> mem_size (g_vm s)" and "sp < 2 ^ 32" and "1028 \<le> mapping_size (g_vm s)"
    and p: "processFileRequest (g_context s) (w_shared (g_world s)) (g_vm s) (w_host (g_world s))
      (decode_request (mem (g_vm s)) sp) = (x, c', v', h')"
  shows "\<exists>rn. cpu_outl FILE_IO_PORT (of_nat sp) s =
    Some \<lparr>g_context = push_result c' x, g_vm = v'\<lparr>run := rn\<rparr>, g_world = (g_world s)\<lparr>w_host := h'\<rparr>\<rparr>"
proof -
  define rn where "rn = (run (g_vm s))\<lparr>exit_reason := KVM_EXIT_IO,
     io := \<lparr>io_direction = KVM_EXIT_IO_OUT, io_size = 4, io_port = FILE_IO_PORT, io_count = 1, io_data_offset = 1024\<rparr>,
     run_data := store32 (run_data (run (g_vm s))) 1024 (of_nat sp)\<rparr>"
  have rn: "io rn = \<lparr>io_direction = KVM_EXIT_IO_OUT, io_size = 4, io_port = FILE_IO_PORT, io_count = 1, io_data_offset = 1024\<rparr>"
    "run_data rn = store32 (run_data (run (g_vm s))) 1024 (of_nat sp)" by (simp_all add: rn_def)
  have fits: "data_in_mapping ((g_vm s)\<lparr>run := rn\<rparr>) 4" using assms(3) by (simp add: data_in_mapping_iff rn)
  have u: "unat (of_nat sp :: u32) = sp" using assms(2) by (simp add: unat_of_nat)
  have "getGuestMemory (g_vm s) (of_nat sp) file_request_size = Some sp"
    using assms(1) u by (simp add: getGuestMemory_def)
  then have "handleFileIo (g_context s) (w_shared (g_world s)) ((g_vm s)\<lparr>run := rn\<rparr>) (w_host (g_world s)) =
      (True, push_result c' x, v'\<lparr>run := rn\<rparr>, h')"
    using fits processFileRequest_run [OF p, of rn] by (simp add: handleFileIo_def rn mem32.ld_st_same)
  then have "port_device (g_context s, g_world s) ((g_vm s)\<lparr>run := rn\<rparr>) =
      Done (True, (push_result c' x, (g_world s)\<lparr>w_host := h'\<rparr>), v'\<lparr>run := rn\<rparr>)"
    by (simp add: port_device_def rn file_device_def)
  then show ?thesis
    by (auto simp: cpu_outl_def port_call_def Let_def rn_def store32_def)
qed

lemma file_in:
  assumes "pendingResults (fileState (g_context s)) \<noteq> []" and "1028 \<le> mapping_size (g_vm s)"
  shows "\<exists>rn. cpu_inl FILE_IO_PORT s = Some (last (pendingResults (fileState (g_context s))),
    s\<lparr>g_context := (g_context s)\<lparr>fileState := (fileState (g_context s))\<lparr>pendingResults :=
        butlast (pendingResults (fileState (g_context s)))\<rparr>\<rparr>, g_vm := (g_vm s)\<lparr>run := rn\<rparr>\<rparr>)"
proof -
  let ?last = "last (pendingResults (fileState (g_context s)))"
  let ?c = "(g_context s)\<lparr>fileState := (fileState (g_context s))\<lparr>pendingResults := butlast (pendingResults (fileState (g_context s)))\<rparr>\<rparr>"
  define rn where "rn = (run (g_vm s))\<lparr>exit_reason := KVM_EXIT_IO,
     io := \<lparr>io_direction = KVM_EXIT_IO_IN, io_size = 4, io_port = FILE_IO_PORT, io_count = 1, io_data_offset = 1024\<rparr>,
     run_data := run_data (run (g_vm s))\<rparr>"
  define rn' where "rn' = rn\<lparr>run_data := store32 (run_data rn) 1024 ?last\<rparr>"
  have rn: "io rn = \<lparr>io_direction = KVM_EXIT_IO_IN, io_size = 4, io_port = FILE_IO_PORT, io_count = 1, io_data_offset = 1024\<rparr>"
    by (simp add: rn_def)
  have fits: "data_in_mapping ((g_vm s)\<lparr>run := rn\<rparr>) 4" using assms(2) by (simp add: data_in_mapping_iff rn)
  then have "handleFileIo (g_context s) (w_shared (g_world s)) ((g_vm s)\<lparr>run := rn\<rparr>) (w_host (g_world s)) =
      (True, ?c, (g_vm s)\<lparr>run := rn'\<rparr>, w_host (g_world s))"
    using assms(1) by (simp add: handleFileIo_def rn rn'_def Let_def)
  then have "port_device (g_context s, g_world s) ((g_vm s)\<lparr>run := rn\<rparr>) = Done (True, (?c, g_world s), (g_vm s)\<lparr>run := rn'\<rparr>)"
    by (simp add: port_device_def rn file_device_def)
  then have "port_call KVM_EXIT_IO_IN FILE_IO_PORT 4 [] s = Some (s\<lparr>g_context := ?c, g_vm := (g_vm s)\<lparr>run := rn'\<rparr>\<rparr>)"
    by (simp add: port_call_def rn_def)
  then show ?thesis by (auto simp: cpu_inl_def rn'_def mem32.ld_st_same)
qed

lemma submit_file_request_eq:
  assumes "sp + file_request_size \<le> mem_size (g_vm s)" and "sp < 2 ^ 32" and "1028 \<le> mapping_size (g_vm s)"
    and p: "processFileRequest (g_context s) (w_shared (g_world s)) (g_vm (poke sp (encode_request r) s)) (w_host (g_world s)) r =
      (x, c', v', h')"
  shows "\<exists>rn. submit_file_request sp r s = Some (word_of_int x,
    \<lparr>g_context = c', g_vm = v'\<lparr>run := rn\<rparr>, g_world = (g_world s)\<lparr>w_host := h'\<rparr>\<rparr>)"
proof -
  let ?s = "poke sp (encode_request r) s"
  have poke: "mem_size (g_vm ?s) = mem_size (g_vm s)" "mapping_size (g_vm ?s) = mapping_size (g_vm s)"
    "g_context ?s = g_context s" "g_world ?s = g_world s" "decode_request (mem (g_vm ?s)) sp = r"
    by (simp_all add: poke_def mapping_size_def decode_encode)
  have "processFileRequest (g_context ?s) (w_shared (g_world ?s)) (g_vm ?s) (w_host (g_world ?s))
      (decode_request (mem (g_vm ?s)) sp) = (x, c', v', h')"
    using p by (simp only: poke)
  from file_out [OF _ assms(2) _ this] obtain rn where
    out: "cpu_outl FILE_IO_PORT (of_nat sp) ?s =
      Some \<lparr>g_context = push_result c' x, g_vm = v'\<lparr>run := rn\<rparr>, g_world = (g_world s)\<lparr>w_host := h'\<rparr>\<rparr>"
    using assms(1,3) by (auto simp: poke)
  have "run_mmap_size v' = run_mmap_size (g_vm ?s)" using arg_cong [OF processFileRequest_vm [OF p], of run_mmap_size] by simp
  then have "1028 \<le> mapping_size v'" using assms(3) poke(2) by (simp add: mapping_size_def)
  then show ?thesis
    using file_in [of "\<lparr>g_context = push_result c' x, g_vm = v'\<lparr>run := rn\<rparr>, g_world = (g_world s)\<lparr>w_host := h'\<rparr>\<rparr>"] out
    by (auto simp: submit_file_request_def)
qed

subsection \<open>The calls when no host call fails\<close>

text \<open>There is room for a request at \<open>sp\<close>; a buffer lies in guest memory and clear of it.\<close>

definition room :: "nat \<Rightarrow> guest \<Rightarrow> bool" where
  "room sp s \<longleftrightarrow> sp + file_request_size \<le> mem_size (g_vm s) \<and> sp < 2 ^ 32 \<and> 1028 \<le> mapping_size (g_vm s)"

definition clear_of :: "nat \<Rightarrow> nat \<Rightarrow> nat \<Rightarrow> bool" where
  "clear_of sp a n \<longleftrightarrow> a + n \<le> sp \<or> sp + file_request_size \<le> a"

definition apart :: "nat \<Rightarrow> nat \<Rightarrow> nat \<Rightarrow> guest \<Rightarrow> bool" where
  "apart sp a n s \<longleftrightarrow> 0 < a \<and> a + n \<le> mem_size (g_vm s) \<and> a < 2 ^ 32 \<and> clear_of sp a n"

abbreviation guest_bytes :: "guest \<Rightarrow> nat \<Rightarrow> nat \<Rightarrow> u8 list" where
  "guest_bytes s a n \<equiv> load_bytes (mem (g_vm s)) a n"

abbreviation guest_host :: "guest \<Rightarrow> host" where
  "guest_host s \<equiv> w_host (g_world s)"

text \<open>What no call changes, and the guest memory a call leaves alone.\<close>

definition kept :: "guest \<Rightarrow> guest \<Rightarrow> bool" where
  "kept s s' \<longleftrightarrow> mem_size (g_vm s') = mem_size (g_vm s) \<and> mapping_size (g_vm s') = mapping_size (g_vm s) \<and>
     (g_context s')\<lparr>fileState := initial_FileState\<rparr> = (g_context s)\<lparr>fileState := initial_FileState\<rparr> \<and>
     w_shared (g_world s') = w_shared (g_world s) \<and> w_console (g_world s') = w_console (g_world s)"

definition mem_kept :: "nat \<Rightarrow> guest \<Rightarrow> guest \<Rightarrow> bool" where
  "mem_kept sp s s' \<longleftrightarrow> (\<forall>a n. clear_of sp a n \<longrightarrow> guest_bytes s' a n = guest_bytes s a n)"

text \<open>
  Descriptor \<open>k\<close> is open with the flags \<open>fl\<close> on inode \<open>i\<close> at an offset; \<open>shd\<close> tells whether
  that is a shared original.
\<close>

definition opened :: "guest \<Rightarrow> i32 \<Rightarrow> i32 \<Rightarrow> bool \<Rightarrow> nat \<Rightarrow> nat \<Rightarrow> bool" where
  "opened s k fl shd i off \<longleftrightarrow> h_faults (guest_host s) = [] \<and>
     (\<exists>f. map_of (table (g_context s)) k = Some f \<and> flags f = fl \<and> shared f = shd \<and>
        fd_lookup (guest_host s) (hostDescriptor f) =
          Some \<lparr>oh_inode = i, oh_access = if shd then O_RDONLY else hf_access (toHostOpenFlags fl), oh_offset = off\<rparr>)"

lemma openedE:
  assumes "opened s k fl shd i off"
  obtains f where "h_faults (guest_host s) = []" "map_of (table (g_context s)) k = Some f" "flags f = fl" "shared f = shd"
    "fd_lookup (guest_host s) (hostDescriptor f) =
      Some \<lparr>oh_inode = i, oh_access = if shd then O_RDONLY else hf_access (toHostOpenFlags fl), oh_offset = off\<rparr>"
  using assms unfolding opened_def by blast

lemma host_access:
  "hasReadAccess fl \<Longrightarrow> hf_access (toHostOpenFlags fl) \<noteq> O_WRONLY"
  "hasWriteAccess fl \<Longrightarrow> hf_access (toHostOpenFlags fl) \<noteq> O_RDONLY"
  by (auto simp: hasReadAccess_def hasWriteAccess_def toHostOpenFlags_def open_flags)

lemma room_kept: "room sp s \<Longrightarrow> kept s s' \<Longrightarrow> room sp s'"
  by (simp add: room_def kept_def)

lemma apart_kept: "apart sp a n s \<Longrightarrow> kept s s' \<Longrightarrow> apart sp a n s'"
  by (simp add: apart_def kept_def)

lemma kept_context:
  assumes "kept s s'"
  shows "gid (g_context s') = gid (g_context s)" "serialOutputBuffer (g_context s') = serialOutputBuffer (g_context s)"
    "sharedBuffer (g_context s') = sharedBuffer (g_context s)"
proof -
  have eq: "(g_context s')\<lparr>fileState := initial_FileState\<rparr> = (g_context s)\<lparr>fileState := initial_FileState\<rparr>"
    using assms by (simp add: kept_def)
  show "gid (g_context s') = gid (g_context s)" using arg_cong [OF eq, of gid] by simp
  show "serialOutputBuffer (g_context s') = serialOutputBuffer (g_context s)"
    using arg_cong [OF eq, of serialOutputBuffer] by simp
  show "sharedBuffer (g_context s') = sharedBuffer (g_context s)" using arg_cong [OF eq, of sharedBuffer] by simp
qed

lemma kept_trans: "kept s s1 \<Longrightarrow> kept s1 s2 \<Longrightarrow> kept s s2"
  by (simp add: kept_def)

lemma mem_kept_trans: "mem_kept sp s s1 \<Longrightarrow> mem_kept sp s1 s2 \<Longrightarrow> mem_kept sp s s2"
  by (simp add: mem_kept_def)

lemma mem_keptD: "mem_kept sp s s' \<Longrightarrow> apart sp a n s \<Longrightarrow> guest_bytes s' a n = guest_bytes s a n"
  by (simp add: mem_kept_def apart_def)

lemma mem_kept_poke: "mem (g_vm s') = mem (g_vm (poke sp (encode_request r) s)) \<Longrightarrow> mem_kept sp s s'"
  by (auto simp: mem_kept_def poke_def clear_of_def load_store_disjoint)

lemma apart_memory:
  assumes "apart sp a n s"
  shows "getGuestMemory (g_vm (poke sp (encode_request r) s)) (of_nat a) n = Some a"
    and "load_bytes (mem (g_vm (poke sp (encode_request r) s))) a n = guest_bytes s a n"
  using assms load_store_disjoint [of sp "encode_request r" a n "mem (g_vm s)"]
  by (auto simp: apart_def clear_of_def getGuestMemory_def poke_def unat_of_nat)

lemma sint_of_small: "n < 2 ^ 31 \<Longrightarrow> sint (of_nat n :: i32) = int n"
  using sint_sbintrunc' [of "int n", where 'a = 32] by (simp add: signed_take_bit_int_eq_self)

text \<open>The state after a call that left \<open>c'\<close>, \<open>v'\<close> and \<open>h'\<close>.\<close>

lemma submit_call:
  assumes "room sp s"
    and "processFileRequest (g_context s) (w_shared (g_world s)) (g_vm (poke sp (encode_request r) s)) (guest_host s) r = (x, c', v', h')"
  obtains s' where "submit_file_request sp r s = Some (word_of_int x, s')" "g_context s' = c'" "mem (g_vm s') = mem v'"
    "mem_size (g_vm s') = mem_size (g_vm s)" "mapping_size (g_vm s') = mapping_size (g_vm s)"
    "g_world s' = (g_world s)\<lparr>w_host := h'\<rparr>"
proof -
  have v': "v' = (g_vm s)\<lparr>mem := mem v'\<rparr>" using processFileRequest_vm [OF assms(2)] by (simp add: poke_def)
  have sz: "mem_size v' = mem_size (g_vm s)" "run_mmap_size v' = run_mmap_size (g_vm s)"
    using arg_cong [OF v', of mem_size] arg_cong [OF v', of run_mmap_size] by simp_all
  obtain rn where "submit_file_request sp r s = Some (word_of_int x,
      \<lparr>g_context = c', g_vm = v'\<lparr>run := rn\<rparr>, g_world = (g_world s)\<lparr>w_host := h'\<rparr>\<rparr>)"
    using submit_file_request_eq [OF _ _ _ assms(2)] assms(1) by (auto simp: room_def)
  then show thesis by (rule that) (simp_all add: sz mapping_size_def)
qed

lemma patch_nothing: "off \<le> length d \<Longrightarrow> patch d off [] = d"
  by (simp add: patch_def)

lemma call_write:
  assumes "room sp s" and "opened s k fl False i off" and "hasWriteAccess fl" and "apart sp a n s" and "n < 2 ^ 31"
    and "off \<le> length (h_data (guest_host s) i)"
  shows "\<exists>s'. guest_write sp k a (of_nat n) s = Some (of_nat n, s') \<and> opened s' k fl False i (off + n) \<and> kept s s' \<and>
    mem_kept sp s s' \<and> g_context s' = g_context s \<and> h_names (guest_host s') = h_names (guest_host s) \<and>
    h_data (guest_host s') = (h_data (guest_host s))(i := patch (h_data (guest_host s) i) off (guest_bytes s a n))"
proof -
  let ?r = "no_request\<lparr>req_operation := FILE_OPERATION_WRITE, req_descriptor := k, req_buffer := of_nat a, req_count := of_nat n\<rparr>"
  let ?v = "g_vm (poke sp (encode_request ?r) s)" and ?h = "guest_host s" and ?bs = "guest_bytes s a n"
  let ?at = "\<lambda>off. \<lparr>oh_inode = i, oh_access = hf_access (toHostOpenFlags fl), oh_offset = off\<rparr>"
  from assms(2) obtain f where q: "h_faults ?h = []" and f: "map_of (table (g_context s)) k = Some f" "flags f = fl" "\<not> shared f"
      "fd_lookup ?h (hostDescriptor f) = Some (?at off)" by (elim openedE) auto
  define h' where "h' = (if n = 0 then ?h else
     fd_update (?h\<lparr>h_data := (h_data ?h)(i := patch (h_data ?h i) off ?bs)\<rparr>) (hostDescriptor f) (?at (off + n)))"
  have "n \<noteq> 0 \<Longrightarrow> os_write ?h (hostDescriptor f) ?bs = (int n, h')"
    using os_write_quiet [OF q f(4)] host_access(2) [OF assms(3)] by (simp add: h'_def)
  then have "writeFile (g_context s) ?v ?h ?r = (int n, g_context s, h')"
    using f(1-3) assms(3) sint_of_small [OF assms(5)] apart_memory [OF assms(4), of ?r]
    by (cases "n = 0") (simp_all add: writeFile_def table_def prepareFileForWrite_def h'_def)
  then have "processFileRequest (g_context s) (w_shared (g_world s)) ?v ?h ?r = (int n, g_context s, ?v, h')"
    by (simp add: processFileRequest_def file_operations)
  then obtain s' where s': "submit_file_request sp ?r s = Some (word_of_int (int n), s')" "g_context s' = g_context s"
      "mem (g_vm s') = mem ?v" "mem_size (g_vm s') = mem_size (g_vm s)" "mapping_size (g_vm s') = mapping_size (g_vm s)"
      "g_world s' = (g_world s)\<lparr>w_host := h'\<rparr>"
    by (rule submit_call [OF assms(1)])
  have "guest_write sp k a (of_nat n) s = Some (of_nat n, s')"
    using s'(1) assms(4) by (simp add: guest_write_def apart_def)
  moreover have "opened s' k fl False i (off + n)" using s' f q by (simp add: opened_def h'_def)
  moreover have "kept s s'" using s' by (simp add: kept_def)
  moreover have "h_names (guest_host s') = h_names ?h" using s'(6) by (simp add: h'_def)
  moreover have "h_data (guest_host s') = (h_data ?h)(i := patch (h_data ?h i) off ?bs)"
    using s'(6) assms(6) by (simp add: h'_def patch_nothing load_bytes_def)
  ultimately show ?thesis using mem_kept_poke [OF s'(3)] s'(2) by blast
qed

lemma call_seek:
  assumes "room sp s" and "opened s k fl shd i off" and "pos < 2 ^ 31"
  shows "\<exists>s'. guest_lseek sp k (of_nat pos) FILE_SEEK_SET s = Some (of_nat pos, s') \<and> opened s' k fl shd i pos \<and> kept s s' \<and>
    mem_kept sp s s' \<and> g_context s' = g_context s \<and> h_names (guest_host s') = h_names (guest_host s) \<and>
    h_data (guest_host s') = h_data (guest_host s)"
proof -
  let ?r = "no_request\<lparr>req_operation := FILE_OPERATION_LSEEK, req_descriptor := k, req_offset := of_nat pos, req_flags := FILE_SEEK_SET\<rparr>"
  let ?v = "g_vm (poke sp (encode_request ?r) s)" and ?h = "guest_host s"
  let ?at = "\<lambda>off. \<lparr>oh_inode = i, oh_access = if shd then O_RDONLY else hf_access (toHostOpenFlags fl), oh_offset = off\<rparr>"
  from assms(2) obtain f where q: "h_faults ?h = []" and f: "map_of (table (g_context s)) k = Some f" "flags f = fl" "shared f = shd"
      "fd_lookup ?h (hostDescriptor f) = Some (?at off)" by (rule openedE)
  define h' where "h' = fd_update ?h (hostDescriptor f) (?at pos)"
  have "os_lseek ?h (hostDescriptor f) (int pos) W_SET = (int pos, h')"
    using os_lseek_quiet(2) [OF q f(4), of "int pos"] by (simp add: h'_def)
  then have "seekFile (g_context s) ?h ?r = (int pos, h')"
    using f(1) assms(3) sint_of_small [OF assms(3)] by (simp add: seekFile_def table_def)
  then have "processFileRequest (g_context s) (w_shared (g_world s)) ?v ?h ?r = (int pos, g_context s, ?v, h')"
    by (simp add: processFileRequest_def file_operations)
  then obtain s' where s': "submit_file_request sp ?r s = Some (word_of_int (int pos), s')" "g_context s' = g_context s"
      "mem (g_vm s') = mem ?v" "mem_size (g_vm s') = mem_size (g_vm s)" "mapping_size (g_vm s') = mapping_size (g_vm s)"
      "g_world s' = (g_world s)\<lparr>w_host := h'\<rparr>"
    by (rule submit_call [OF assms(1)])
  have "guest_lseek sp k (of_nat pos) FILE_SEEK_SET s = Some (of_nat pos, s')" using s'(1) by (simp add: guest_lseek_def)
  moreover have "opened s' k fl shd i pos" using s' f q by (simp add: opened_def h'_def)
  moreover have "kept s s'" using s' by (simp add: kept_def)
  moreover have "h_names (guest_host s') = h_names ?h" "h_data (guest_host s') = h_data ?h" using s'(6) by (simp_all add: h'_def)
  ultimately show ?thesis using mem_kept_poke [OF s'(3)] s'(2) by blast
qed

lemma call_read:
  assumes "room sp s" and "opened s k fl shd i off" and "hasReadAccess fl" and "apart sp a n s" and "0 < n" and "n < 2 ^ 31"
  defines "bs \<equiv> take n (drop off (h_data (guest_host s) i))"
  shows "\<exists>s'. guest_read sp k a (of_nat n) s = Some (of_nat (length bs), s') \<and> opened s' k fl shd i (off + length bs) \<and>
    kept s s' \<and> guest_bytes s' a (length bs) = bs \<and>
    (\<forall>b m. clear_of sp b m \<and> (b + m \<le> a \<or> a + length bs \<le> b) \<longrightarrow> guest_bytes s' b m = guest_bytes s b m) \<and>
    g_context s' = g_context s \<and> h_names (guest_host s') = h_names (guest_host s) \<and> h_data (guest_host s') = h_data (guest_host s)"
proof -
  let ?r = "no_request\<lparr>req_operation := FILE_OPERATION_READ, req_descriptor := k, req_buffer := of_nat a, req_count := of_nat n\<rparr>"
  let ?v = "g_vm (poke sp (encode_request ?r) s)" and ?h = "guest_host s"
  let ?at = "\<lambda>off. \<lparr>oh_inode = i, oh_access = if shd then O_RDONLY else hf_access (toHostOpenFlags fl), oh_offset = off\<rparr>"
  from assms(2) obtain f where q: "h_faults ?h = []" and f: "map_of (table (g_context s)) k = Some f" "flags f = fl" "shared f = shd"
      "fd_lookup ?h (hostDescriptor f) = Some (?at off)" by (rule openedE)
  define h' where "h' = fd_update ?h (hostDescriptor f) (?at (off + length bs))"
  let ?v' = "?v\<lparr>mem := store_bytes (mem ?v) a bs\<rparr>"
  have "os_read ?h (hostDescriptor f) n = (Some bs, h')"
    using os_read_quiet [OF q f(4), of n] host_access(1) [OF assms(3)] by (simp add: h'_def bs_def)
  then have "readFile (g_context s) ?v ?h ?r = (int (length bs), ?v', h')"
    using f(1-3) assms(3,5) sint_of_small [OF assms(6)] apart_memory(1) [OF assms(4), of ?r]
    by (simp add: readFile_def table_def)
  then have "processFileRequest (g_context s) (w_shared (g_world s)) ?v ?h ?r = (int (length bs), g_context s, ?v', h')"
    by (simp add: processFileRequest_def file_operations)
  then obtain s' where s': "submit_file_request sp ?r s = Some (word_of_int (int (length bs)), s')" "g_context s' = g_context s"
      "mem (g_vm s') = mem ?v'" "mem_size (g_vm s') = mem_size (g_vm s)" "mapping_size (g_vm s') = mapping_size (g_vm s)"
      "g_world s' = (g_world s)\<lparr>w_host := h'\<rparr>"
    by (rule submit_call [OF assms(1)])
  have "guest_read sp k a (of_nat n) s = Some (of_nat (length bs), s')"
    using s'(1) assms(4) by (simp add: guest_read_def apart_def)
  moreover have "opened s' k fl shd i (off + length bs)" using s' f q by (simp add: opened_def h'_def)
  moreover have "kept s s'" using s' by (simp add: kept_def)
  moreover have "guest_bytes s' a (length bs) = bs" using s'(3) by simp
  moreover have "guest_bytes s' b m = guest_bytes s b m"
    if "clear_of sp b m" "b + m \<le> a \<or> a + length bs \<le> b" for b m
    using that s'(3) by (auto simp: poke_def clear_of_def load_store_disjoint)
  moreover have "h_names (guest_host s') = h_names ?h" "h_data (guest_host s') = h_data ?h" using s'(6) by (simp_all add: h'_def)
  ultimately show ?thesis using s'(2) by blast
qed

lemma call_close:
  assumes "room sp s" and "opened s k fl shd i off"
  shows "\<exists>s'. guest_close sp k s = Some (0, s') \<and> table (g_context s') = erase k (table (g_context s)) \<and> kept s s' \<and>
    mem_kept sp s s' \<and> h_names (guest_host s') = h_names (guest_host s) \<and> h_data (guest_host s') = h_data (guest_host s)"
proof -
  let ?r = "no_request\<lparr>req_operation := FILE_OPERATION_CLOSE, req_descriptor := k\<rparr>"
  let ?v = "g_vm (poke sp (encode_request ?r) s)" and ?h = "guest_host s"
  from assms(2) obtain f where q: "h_faults ?h = []" and f: "map_of (table (g_context s)) k = Some f"
      "fd_lookup ?h (hostDescriptor f) \<noteq> None" by (elim openedE) auto
  let ?c = "set_openFiles (g_context s) (erase k (table (g_context s)))" and ?h' = "fd_remove ?h (hostDescriptor f)"
  have "os_close ?h (hostDescriptor f) = (0, ?h')" by (rule os_close_quiet [OF q f(2)])
  then have "processFileRequest (g_context s) (w_shared (g_world s)) ?v ?h ?r = (0, ?c, ?v, ?h')"
    using f(1) by (simp add: processFileRequest_def file_operations closeFile_def table_def)
  then obtain s' where s': "submit_file_request sp ?r s = Some (word_of_int 0, s')" "g_context s' = ?c"
      "mem (g_vm s') = mem ?v" "mem_size (g_vm s') = mem_size (g_vm s)" "mapping_size (g_vm s') = mapping_size (g_vm s)"
      "g_world s' = (g_world s)\<lparr>w_host := ?h'\<rparr>"
    by (rule submit_call [OF assms(1)])
  have "guest_close sp k s = Some (0, s')" using s'(1) by (simp add: guest_close_def)
  moreover have "table (g_context s') = erase k (table (g_context s))" using s'(2) by simp
  moreover have "kept s s'" using s' by (simp add: kept_def set_openFiles_def)
  moreover have "h_names (guest_host s') = h_names ?h" "h_data (guest_host s') = h_data ?h" using s'(6) by simp_all
  ultimately show ?thesis using mem_kept_poke [OF s'(3)] by blast
qed

text \<open>A terminated string in guest memory.\<close>

definition string_at :: "guest \<Rightarrow> nat \<Rightarrow> string \<Rightarrow> bool" where
  "string_at s a n \<longleftrightarrow> map (\<lambda>b. char_of (unat b)) (guest_bytes s a (length n)) = n \<and> CHR 0x00 \<notin> set n \<and>
     guest_bytes s (a + length n) 1 = [0]"

lemma scan_name_finds:
  assumes "len \<le> length n" and "length n \<le> FILE_NAME_MAX" and "length n < available" and "isValidGuestFileName n"
    and "map (\<lambda>b. char_of (unat b)) (load_bytes m a (length n)) = n" and "CHR 0x00 \<notin> set n" and "m (a + length n) = 0"
  shows "scan_name m a available len = Some n"
  using assms(1)
proof (induction "length n - len" arbitrary: len)
  case 0
  then have "len = length n" by simp
  then show ?case using assms by (subst scan_name.simps) (simp add: Let_def)
next
  case (Suc d)
  then have l: "len < length n" by simp
  have "n ! len = char_of (unat (m (a + len)))"
    using l arg_cong [OF assms(5), of "\<lambda>xs. xs ! len"] by simp
  moreover have "n ! len \<noteq> CHR 0x00" using l assms(6) by (metis nth_mem)
  moreover have "(char_of (0 :: nat) :: char) = CHR 0x00" by code_simp
  ultimately have "m (a + len) \<noteq> 0" by (metis unat_0)
  moreover have "scan_name m a available (Suc len) = Some n" using Suc by simp
  ultimately show ?case using l assms(2,3) by (subst scan_name.simps) simp
qed

text \<open>A file name in guest memory, clear of the request.\<close>

definition names_file :: "nat \<Rightarrow> nat \<Rightarrow> string \<Rightarrow> guest \<Rightarrow> bool" where
  "names_file sp a n s \<longleftrightarrow> string_at s a n \<and> isValidGuestFileName n \<and> length n \<le> FILE_NAME_MAX \<and>
     apart sp a (length n + 1) s"

lemma names_file_read:
  assumes "names_file sp a n s"
  shows "readGuestFileName (g_vm (poke sp (encode_request r) s)) (of_nat a) = Some n"
proof -
  let ?v = "g_vm (poke sp (encode_request r) s)"
  have n: "string_at s a n" "isValidGuestFileName n" "length n \<le> FILE_NAME_MAX" "apart sp a (length n + 1) s"
    using assms by (simp_all add: names_file_def)
  have a: "0 < a" "a + (length n + 1) \<le> mem_size (g_vm s)" "a < 2 ^ 32" using n(4) by (simp_all add: apart_def)
  have u: "unat (of_nat a :: u32) = a" using a(3) by (simp add: unat_of_nat)
  have b: "load_bytes (mem ?v) a (length n + 1) = guest_bytes s a (length n + 1)" by (rule apart_memory(2) [OF n(4)])
  then have "load_bytes (mem ?v) a (length n) = guest_bytes s a (length n)" "mem ?v (a + length n) = mem (g_vm s) (a + length n)"
    unfolding load_bytes_append by (simp_all add: load_bytes_def)
  moreover have "mem (g_vm s) (a + length n) = 0" using n(1) by (simp add: string_at_def load_bytes_def)
  moreover have "mem_size ?v = mem_size (g_vm s)" by (simp add: poke_def)
  ultimately show ?thesis
    using scan_name_finds [of 0 n "mem_size ?v - a" "mem ?v" a] n(1-3) a u
    by (simp add: readGuestFileName_def getGuestMemory_def string_at_def)
qed

lemma names_file_kept:
  assumes "names_file sp a n s" and "kept s s'" and "mem_kept sp s s'"
  shows "names_file sp a n s'"
proof -
  have ap: "apart sp a (length n + 1) s" and st: "string_at s a n" using assms(1) by (simp_all add: names_file_def)
  have "apart sp a (length n) s" "clear_of sp (a + length n) 1" using ap by (auto simp: apart_def clear_of_def)
  then have "string_at s' a n"
    using st mem_keptD [OF assms(3), of a "length n"] assms(3) by (simp add: string_at_def mem_kept_def)
  then show ?thesis using assms(1) apart_kept [OF ap assms(2)] by (simp add: names_file_def)
qed

text \<open>
  An open of \<open>n\<close> with the flags \<open>fl\<close> will reach inode \<open>i\<close>: the guest's own file of that name,
  else the shared file, else a new one. \<open>target_data\<close> is what the file holds then.
\<close>

abbreviation own_path :: "guest \<Rightarrow> string \<Rightarrow> path" where
  "own_path s n \<equiv> local_path (gid (g_context s)) n"

definition open_target :: "guest \<Rightarrow> string \<Rightarrow> i32 \<Rightarrow> bool \<Rightarrow> nat \<Rightarrow> bool" where
  "open_target s n fl shd i \<longleftrightarrow> open_reaches (g_context s) (w_shared (g_world s)) (guest_host s) n fl shd i"

definition target_data :: "guest \<Rightarrow> string \<Rightarrow> u8 list" where
  "target_data s n = reached_data (g_context s) (w_shared (g_world s)) (guest_host s) n"

lemma fd_install_cases:
  obtains d h' where "fd_install h f = (d, h')" "0 \<le> d" "fd_lookup h' d = Some f" "h_data h' = h_data h"
    "h_names h' = h_names h" "h_faults h' = h_faults h"
  using fd_install_nonneg [of h f] fd_lookup_install [of h f] fd_ops_fields(3,6,18) [of h f] by (cases "fd_install h f") simp

definition opens_on :: "guest \<Rightarrow> string \<Rightarrow> bool \<Rightarrow> nat \<Rightarrow> host \<Rightarrow> bool" where
  "opens_on s n shd i h' \<longleftrightarrow> h_faults h' = [] \<and> h_data h' = (h_data (guest_host s))(i := target_data s n) \<and>
     h_names h' = (if shd then h_names (guest_host s) else (h_names (guest_host s))(own_path s n \<mapsto> i))"

lemma reached_opens_on:
  assumes "open_target s n fl shd i" and "fd_install (reached_host (g_context s) (guest_host s) n fl shd) f = (d, h')"
  shows "opens_on s n shd i h'"
proof -
  have h': "h' = snd (fd_install (reached_host (g_context s) (guest_host s) n fl shd) f)" using assms(2) by simp
  show ?thesis
    using assms(1) unfolding h' opens_on_def open_target_def target_data_def open_reaches_def reached_data_def reached_host_def Let_def fd_ops_fields
    by (auto split: option.splits)
qed

lemma call_open:
  assumes "room sp s" and "names_file sp a n s" and "areValidOpenFlags fl" and target: "open_target s n fl shd i"
  defines "k \<equiv> nextDescriptor (fileState (g_context s))"
  shows "\<exists>s' f. guest_open sp a fl s = Some (k, s') \<and> opened s' k fl shd i 0 \<and> kept s s' \<and> mem_kept sp s s' \<and>
    table (g_context s') = (k, f) # table (g_context s) \<and> map_of (table (g_context s)) k = None \<and> opens_on s n shd i (guest_host s')"
proof -
  let ?r = "no_request\<lparr>req_operation := FILE_OPERATION_OPEN, req_buffer := of_nat a, req_flags := fl\<rparr>"
  let ?v = "g_vm (poke sp (encode_request ?r) s)" and ?h = "guest_host s"
  have name: "readGuestFileName ?v (req_buffer ?r) = Some n" using names_file_read [OF assms(2), of ?r] by simp
  obtain d h' where ins: "fd_install (reached_host (g_context s) ?h n fl shd) (reached_handle fl shd i) = (d, h')" by fastforce
  define f where "f = reached_file (g_context s) (w_shared (g_world s)) n fl shd d"
  define c where "c = with_descriptor (g_context s) f"
  have f: "flags f = fl" "shared f = shd" "hostDescriptor f = d" by (simp_all add: f_def reached_file_def)
  have on: "opens_on s n shd i h'" by (rule reached_opens_on [OF target ins])
  have look: "fd_lookup h' (hostDescriptor f) = Some (reached_handle fl shd i)"
    using fd_lookup_install [of "reached_host (g_context s) ?h n fl shd" "reached_handle fl shd i" d] ins by (simp add: f(3))
  have o: "openFile (g_context s) (w_shared (g_world s)) ?v ?h ?r = (sint k, c, h')"
    using openFile_quiet [OF target [unfolded open_target_def] name assms(3) _ ins] by (simp add: k_def c_def f_def)
  have "processFileRequest (g_context s) (w_shared (g_world s)) ?v ?h ?r = (sint k, c, ?v, h')"
    using o by (simp add: processFileRequest_def file_operations)
  then obtain s' where s': "submit_file_request sp ?r s = Some (word_of_int (sint k), s')" "g_context s' = c"
      "mem (g_vm s') = mem ?v" "mem_size (g_vm s') = mem_size (g_vm s)" "mapping_size (g_vm s') = mapping_size (g_vm s)"
      "g_world s' = (g_world s)\<lparr>w_host := h'\<rparr>"
    by (rule submit_call [OF assms(1)])
  have fresh: "map_of (table (g_context s)) k = None"
    using target unfolding k_def by (simp add: open_target_def open_reaches_def Let_def numbered_fresh)
  have tb: "table c = (k, f) # table (g_context s)" by (simp add: c_def with_descriptor_def k_def Let_def)
  have "guest_open sp a fl s = Some (k, s')"
    using s'(1) assms(2) by (simp add: guest_open_def names_file_def apart_def)
  moreover have "opened s' k fl shd i 0" using s'(2,6) f look on tb by (simp add: opened_def opens_on_def reached_handle_def)
  moreover have "kept s s'" using s' by (simp add: kept_def c_def set_openFiles_def with_descriptor_def Let_def)
  ultimately show ?thesis using mem_kept_poke [OF s'(3)] s'(2,6) tb fresh on by auto
qed

lemma erase_head [simp]: "map_of t k = None \<Longrightarrow> erase k ((k, f) # t) = t"
  by (force simp: erase_def map_of_eq_None_iff filter_id_conv)


subsection \<open>What the library promises\<close>

text \<open>The bytes of a string literal, and a machine with two of them in its memory.\<close>

definition bytes_of :: "string \<Rightarrow> u8 list" where
  "bytes_of n = map (\<lambda>c. of_nat (of_char c)) n"

lemma text_of_bytes [simp]: "text_of (bytes_of n) = n"
proof -
  have "char_of (unat (of_nat (of_char c) :: u8)) = c" for c :: char
    by (simp add: unat_of_nat)
  then show ?thesis by (simp add: text_of_def bytes_of_def comp_def)
qed

lemma length_bytes_of [simp]: "length (bytes_of n) = length n"
  by (simp add: bytes_of_def)

definition demo_guest :: guest where
  "demo_guest = \<lparr>g_context = initial_GuestContext,
     g_vm = (blank_vm 512)\<lparr>mem := store_bytes (store_bytes (\<lambda>_. 0) 64 (bytes_of ''guest.txt'')) 96 (bytes_of ''File I/O works!'')\<rparr>,
     g_world = quiet_world\<rparr>"

lemma room_demo: "room 16 demo_guest"
  by (simp add: room_def demo_guest_def blank_vm_def mapping_size_def file_request_size_def)

text \<open>
  C15. The guest's file library is the host's file service: writing a request to memory and its
  address to the port, then reading the port, gives the guest exactly the result that the host
  computed for that request, and leaves the context, the memory and the host as the operation
  left them, with no answer kept back, for every request and whatever host calls fail.
\<close>

theorem library_returns_result:
  assumes "room sp s"
  shows "\<exists>s'. case processFileRequest (g_context s) (w_shared (g_world s)) (g_vm (poke sp (encode_request r) s)) (guest_host s) r of
    (x, c', v', h') \<Rightarrow> submit_file_request sp r s = Some (word_of_int x, s') \<and> g_context s' = c' \<and>
      mem (g_vm s') = mem v' \<and> g_world s' = (g_world s)\<lparr>w_host := h'\<rparr>"
proof -
  obtain x c' v' h' where p: "processFileRequest (g_context s) (w_shared (g_world s)) (g_vm (poke sp (encode_request r) s))
    (guest_host s) r = (x, c', v', h')" by (cases rule: prod_cases4)
  show ?thesis unfolding p by (rule submit_call [OF assms p]) auto
qed

theorem library_returns_result_witness:
  "\<exists>s'. submit_file_request 16 (no_request\<lparr>req_operation := FILE_OPERATION_CLOSE, req_descriptor := 7\<rparr>) demo_guest = Some (-1, s')"
proof -
  let ?r = "no_request\<lparr>req_operation := FILE_OPERATION_CLOSE, req_descriptor := 7\<rparr>"
  have "processFileRequest (g_context demo_guest) (w_shared (g_world demo_guest)) (g_vm (poke 16 (encode_request ?r) demo_guest))
      (guest_host demo_guest) ?r = (-1, g_context demo_guest, g_vm (poke 16 (encode_request ?r) demo_guest), guest_host demo_guest)"
    by (simp add: processFileRequest_def file_operations closeFile_def demo_guest_def initial_GuestContext_def initial_FileState_def)
  then show ?thesis using library_returns_result [OF room_demo, of ?r] by auto
qed

end
