(* ===== verification/Guest_Program.thy ===== *)
theory Guest_Program
  imports Guest_Library
begin

text \<open>
  The guest program, \<^verbatim>\<open>guest/src/main.c\<close>: printing to the serial port and the file
  test. String literals are their characters; where a call takes a pointer, the address is in
  a layout.
\<close>

subsection \<open>Printing\<close>

text \<open>\<^verbatim>\<open>serial_write\<close> of a literal, and of a terminated string in memory.\<close>

fun print_bytes :: "u8 list \<Rightarrow> guest \<Rightarrow> guest option" where
  "print_bytes [] s = Some s"
| "print_bytes (x # xs) s = do { s \<leftarrow> cpu_outb 0xE9 x s; print_bytes xs s }"

partial_function (option) print_string :: "nat \<Rightarrow> guest \<Rightarrow> guest option" where
  "print_string a s =
     (let b = mem (g_vm s) a in if b = 0 then Some s else do { s \<leftarrow> cpu_outb 0xE9 b s; print_string (Suc a) s })"

declare print_string.simps [code]

lemma serial_one:
  "serial_write c [x] con =
     (let c = c\<lparr>serialOutputBuffer := serialOutputBuffer c @ [char_of (unat x)]\<rparr>
      in if x = 10 then flushSerialOutput c False con else (c, con))"
  by (simp add: handleSerialIo_out Let_def split: prod.split)

lemma serial_out:
  assumes "1025 \<le> mapping_size (g_vm s)"
    and "serial_write (g_context s) [x] (w_console (g_world s)) = (c', con')"
  shows "\<exists>rn. cpu_outb 0xE9 x s = Some (\<lparr>g_context = c', g_vm = (g_vm s)\<lparr>run := rn\<rparr>, g_world = (g_world s)\<lparr>w_console := con'\<rparr>\<rparr>)"
proof -
  define rn where "rn = (run (g_vm s))\<lparr>exit_reason := KVM_EXIT_IO,
     io := \<lparr>io_direction = KVM_EXIT_IO_OUT, io_size = 1, io_port = 0xE9, io_count = 1, io_data_offset = 1024\<rparr>,
     run_data := store_bytes (run_data (run (g_vm s))) 1024 [x]\<rparr>"
  have rn: "io rn = \<lparr>io_direction = KVM_EXIT_IO_OUT, io_size = 1, io_port = 0xE9, io_count = 1, io_data_offset = 1024\<rparr>"
    "run_data rn 1024 = x" by (simp_all add: rn_def store_bytes_def)
  have "handleSerialIo (g_context s) ((g_vm s)\<lparr>run := rn\<rparr>) (w_console (g_world s)) = (True, c', (g_vm s)\<lparr>run := rn\<rparr>, con')"
    using assms(1) assms(2) [unfolded serial_one]
    by (auto simp: handleSerialIo_def rn newline_byte mapping_size_def Let_def)
  then show ?thesis
    by (auto simp: cpu_outb_def port_call_def rn_def port_device_def serial_device_def Let_def FILE_IO_PORT_def shared_buffer_consts)
qed

text \<open>Only the console, the pending line and the exit record change.\<close>

definition printed :: "GuestContext \<Rightarrow> console \<Rightarrow> guest \<Rightarrow> guest \<Rightarrow> bool" where
  "printed c' con' s s' \<longleftrightarrow>
     (\<exists>rn. s' = \<lparr>g_context = c', g_vm = (g_vm s)\<lparr>run := rn\<rparr>, g_world = (g_world s)\<lparr>w_console := con'\<rparr>\<rparr>)"

lemma print_bytes_writes:
  assumes "1025 \<le> mapping_size (g_vm s)" and "serial_write (g_context s) bs (w_console (g_world s)) = (c', con')"
  shows "\<exists>s'. print_bytes bs s = Some s' \<and> printed c' con' s s'"
  using assms
proof (induction bs arbitrary: s)
  case Nil
  then show ?case by (auto simp: printed_def intro: exI [of _ "run (g_vm s)"])
next
  case (Cons x xs)
  obtain c1 con1 where w: "serial_write (g_context s) [x] (w_console (g_world s)) = (c1, con1)" by (cases rule: prod.exhaust)
  then have rest: "serial_write c1 xs con1 = (c', con')"
    using Cons.prems(2) by (auto simp: Let_def split: prod.splits)
  obtain rn where o: "cpu_outb 0xE9 x s = Some (\<lparr>g_context = c1, g_vm = (g_vm s)\<lparr>run := rn\<rparr>, g_world = (g_world s)\<lparr>w_console := con1\<rparr>\<rparr>)"
    (is "_ = Some ?s") using serial_out [OF Cons.prems(1) w] by blast
  have "\<exists>s'. print_bytes xs ?s = Some s' \<and> printed c' con' ?s s'"
    by (rule Cons.IH) (use Cons.prems(1) rest in simp_all)
  then show ?case using o by (auto simp: printed_def)
qed

lemma print_string_bytes:
  assumes "guest_bytes s a (length bs) = bs" and "0 \<notin> set bs" and "mem (g_vm s) (a + length bs) = 0"
    and "1025 \<le> mapping_size (g_vm s)"
  shows "print_string a s = print_bytes bs s"
  using assms
proof (induction bs arbitrary: a s)
  case Nil
  then show ?case by (subst print_string.simps) simp
next
  case (Cons x xs)
  have x: "mem (g_vm s) a = x" "guest_bytes s (Suc a) (length xs) = xs"
    using Cons.prems(1) load_bytes_append [of "mem (g_vm s)" a 1 "length xs"] by (simp_all add: load_bytes_def)
  obtain c1 con1 where w: "serial_write (g_context s) [x] (w_console (g_world s)) = (c1, con1)" by (cases rule: prod.exhaust)
  obtain rn where o: "cpu_outb 0xE9 x s = Some (\<lparr>g_context = c1, g_vm = (g_vm s)\<lparr>run := rn\<rparr>, g_world = (g_world s)\<lparr>w_console := con1\<rparr>\<rparr>)"
    (is "_ = Some ?s") using serial_out [OF Cons.prems(4) w] by blast
  have "print_string (Suc a) ?s = print_bytes xs ?s"
    by (rule Cons.IH) (use Cons.prems x in simp_all)
  then show ?case using o x(1) Cons.prems(2) by (subst print_string.simps) (simp add: Let_def)
qed

lemma print_bytes_Nil [simp]: "print_bytes [] = Some"
  by (rule ext) simp

lemma print_bytes_append: "print_bytes (xs @ ys) s = do { s \<leftarrow> print_bytes xs s; print_bytes ys s }"
proof (induction xs arbitrary: s)
  case (Cons x xs)
  then show ?case by (cases "cpu_outb 0xE9 x s") simp_all
qed simp

text \<open>A whole line behind an empty one.\<close>

definition tagged_line :: "guest \<Rightarrow> string \<Rightarrow> string" where
  "tagged_line s n = ''[VM '' @ show_nat (gid (g_context s)) @ ''] '' @ n"

lemma line_written:
  assumes "10 \<notin> set xs" and "serialOutputBuffer c = []"
  shows "serial_write c (xs @ [10]) con = (c, to_out (vm_prefix c @ text_of (xs @ [10])) con)"
proof -
  have "c\<lparr>serialOutputBuffer := []\<rparr> = c" using assms(2) by simp
  then show ?thesis
    using assms by (simp add: serial_write_plain serial_write_append handleSerialIo_out Let_def flushSerialOutput_def text_of_def
        vm_prefix_def)
qed

lemma text_of_append [simp]: "text_of (xs @ ys) = text_of xs @ text_of ys"
  by (simp add: text_of_def)

lemma text_of_newline [simp]: "text_of [10] = newline"
  by (simp add: text_of_def newline_def)

subsection \<open>The file test\<close>

text \<open>Where the stack has room for a request, and where the name, the message and the buffer are.\<close>

record test_layout =
  tl_sp :: nat
  tl_path :: nat
  tl_message :: nat
  tl_buffer :: nat

definition test_message :: string where
  "test_message = ''File I/O works!''"

definition test_file_io :: "test_layout \<Rightarrow> guest \<Rightarrow> guest option" where
  "test_file_io L s = (let count = length test_message; s = poke (tl_buffer L + count) [0] s in do {
     (fd, s) \<leftarrow> guest_open (tl_sp L) (tl_path L) (FILE_OPEN_READ_WRITE OR FILE_OPEN_CREATE) s;
     (bytes_written, s) \<leftarrow> (if 0 \<le> sint fd then guest_write (tl_sp L) fd (tl_message L) (of_nat count) s else Some (-1, s));
     (seek_result, s) \<leftarrow> (if bytes_written = of_nat count then guest_lseek (tl_sp L) fd 0 FILE_SEEK_SET s else Some (-1, s));
     (bytes_read, s) \<leftarrow> (if seek_result = 0 then guest_read (tl_sp L) fd (tl_buffer L) (of_nat count) s else Some (-1, s));
     (close_result, s) \<leftarrow> (if 0 \<le> sint fd then guest_close (tl_sp L) fd s else Some (-1, s));
     (if bytes_written \<noteq> of_nat count \<or> seek_result \<noteq> 0 \<or> bytes_read \<noteq> of_nat count \<or> sint close_result < 0
      then print_bytes (bytes_of (''File I/O failed!'' @ newline)) s
      else do {
        s \<leftarrow> print_bytes (bytes_of ''File content: '') s;
        s \<leftarrow> print_string (tl_buffer L) s;
        cpu_outb 0xE9 10 s }) })"

text \<open>The layout is sound, and the literals are in memory.\<close>

definition disjoint_areas :: "nat \<Rightarrow> nat \<Rightarrow> nat \<Rightarrow> nat \<Rightarrow> bool" where
  "disjoint_areas a n b m \<longleftrightarrow> a + n \<le> b \<or> b + m \<le> a"

definition test_ready :: "test_layout \<Rightarrow> guest \<Rightarrow> bool" where
  "test_ready L s \<longleftrightarrow> (let n = length test_message in
     room (tl_sp L) s \<and> names_file (tl_sp L) (tl_path L) ''guest.txt'' s \<and>
     apart (tl_sp L) (tl_message L) n s \<and> guest_bytes s (tl_message L) n = bytes_of test_message \<and>
     apart (tl_sp L) (tl_buffer L) (n + 1) s \<and> disjoint_areas (tl_buffer L) (n + 1) (tl_message L) n \<and>
     disjoint_areas (tl_buffer L) (n + 1) (tl_path L) (length ''guest.txt'' + 1))"

lemma poke_fields [simp]:
  "g_context (poke a bs s) = g_context s" "g_world (poke a bs s) = g_world s" "mem_size (g_vm (poke a bs s)) = mem_size (g_vm s)"
  "mapping_size (g_vm (poke a bs s)) = mapping_size (g_vm s)" "room sp (poke a bs s) = room sp s"
  "apart sp b n (poke a bs s) = apart sp b n s"
  by (simp_all add: poke_def mapping_size_def room_def apart_def)

lemma open_target_poke [simp]:
  "open_target (poke a bs s) f fl shd i = open_target s f fl shd i" "target_data (poke a bs s) f = target_data s f"
  unfolding open_target_def open_reaches_def target_data_def reached_data_def poke_fields by simp_all

lemma poke_elsewhere: "disjoint_areas a (length bs) b n \<Longrightarrow> guest_bytes (poke a bs s) b n = guest_bytes s b n"
  by (auto simp: poke_def disjoint_areas_def load_store_disjoint)

lemma names_file_poke:
  assumes "names_file sp a n s" and "disjoint_areas b (length bs) a (length n + 1)"
  shows "names_file sp a n (poke b bs s)"
proof -
  have "disjoint_areas b (length bs) a (length n)" "disjoint_areas b (length bs) (a + length n) 1"
    using assms(2) by (auto simp: disjoint_areas_def)
  then show ?thesis using assms(1) by (simp add: names_file_def string_at_def poke_elsewhere)
qed

lemma sint_count: "n < 2 ^ 31 \<Longrightarrow> 0 < n \<Longrightarrow> (of_nat n :: i32) \<noteq> 0 \<and> (of_nat n :: i32) \<noteq> -1"
  using sint_of_small [of n] by auto

text \<open>Writing the message, seeking to the start and reading it back, then closing.\<close>

lemma write_back:
  assumes "room sp s" and "opened s k fl False i 0" and "hasReadAccess fl" and "hasWriteAccess fl"
    and "apart sp a n s" and "apart sp b (n + 1) s" and "disjoint_areas b (n + 1) a n" and "0 < n" and "n < 2 ^ 31"
    and "guest_bytes s a n = msg"
  shows "\<exists>s2 s3 s4 s5. guest_write sp k a (of_nat n) s = Some (of_nat n, s2) \<and> guest_lseek sp k 0 FILE_SEEK_SET s2 = Some (0, s3) \<and>
    guest_read sp k b (of_nat n) s3 = Some (of_nat n, s4) \<and> guest_close sp k s4 = Some (0, s5) \<and>
    kept s s5 \<and> guest_bytes s5 b n = msg \<and> guest_bytes s5 (b + n) 1 = guest_bytes s (b + n) 1 \<and>
    table (g_context s5) = erase k (table (g_context s)) \<and> h_names (guest_host s5) = h_names (guest_host s) \<and>
    h_data (guest_host s5) = (h_data (guest_host s))(i := patch (h_data (guest_host s) i) 0 msg)"
proof -
  let ?file = "patch (h_data (guest_host s) i) 0 msg"
  obtain s2 where s2: "guest_write sp k a (of_nat n) s = Some (of_nat n, s2)" "opened s2 k fl False i n" "kept s s2" "mem_kept sp s s2"
      "g_context s2 = g_context s" "h_names (guest_host s2) = h_names (guest_host s)" "h_data (guest_host s2) = (h_data (guest_host s))(i := ?file)"
    using call_write [OF assms(1,2,4,5,9)] assms(10) by auto
  have r2: "room sp s2" by (rule room_kept [OF assms(1) s2(3)])
  obtain s3 where s3: "guest_lseek sp k 0 FILE_SEEK_SET s2 = Some (0, s3)" "opened s3 k fl False i 0" "kept s2 s3" "mem_kept sp s2 s3"
      "g_context s3 = g_context s2" "h_names (guest_host s3) = h_names (guest_host s2)" "h_data (guest_host s3) = h_data (guest_host s2)"
    using call_seek [OF r2 s2(2), of 0] by auto
  have k3: "kept s s3" "mem_kept sp s s3" using kept_trans [OF s2(3) s3(3)] mem_kept_trans [OF s2(4) s3(4)] by simp_all
  have r3: "room sp s3" by (rule room_kept [OF assms(1) k3(1)])
  have ap: "apart sp b n s3" "clear_of sp b n" "clear_of sp (b + n) 1"
    using apart_kept [OF assms(6) k3(1)] by (auto simp: apart_def clear_of_def)
  have len: "length msg = n" using assms(10) by auto
  have data: "take n (drop 0 (h_data (guest_host s3) i)) = msg"
    using s2(7) s3(7) len patch_read_back [of msg 0 "h_data (guest_host s) i"] by simp
  obtain s4 where s4: "guest_read sp k b (of_nat n) s3 = Some (of_nat n, s4)" "opened s4 k fl False i n" "kept s3 s4" "guest_bytes s4 b n = msg"
      "\<forall>c m. clear_of sp c m \<and> (c + m \<le> b \<or> b + n \<le> c) \<longrightarrow> guest_bytes s4 c m = guest_bytes s3 c m"
      "g_context s4 = g_context s3" "h_names (guest_host s4) = h_names (guest_host s3)" "h_data (guest_host s4) = h_data (guest_host s3)"
    using call_read [OF r3 s3(2) assms(3) ap(1) assms(8,9)] unfolding data len by auto
  have k4: "kept s s4" by (rule kept_trans [OF k3(1) s4(3)])
  obtain s5 where s5: "guest_close sp k s4 = Some (0, s5)" "table (g_context s5) = erase k (table (g_context s4))" "kept s4 s5"
      "mem_kept sp s4 s5" "h_names (guest_host s5) = h_names (guest_host s4)" "h_data (guest_host s5) = h_data (guest_host s4)"
    using call_close [OF room_kept [OF assms(1) k4] s4(2)] by auto
  have "guest_bytes s5 b n = msg" using s5(4) s4(4) ap(2) by (simp add: mem_kept_def)
  moreover have "guest_bytes s5 (b + n) 1 = guest_bytes s (b + n) 1"
    using s5(4) s4(5) k3(2) ap(3) by (simp add: mem_kept_def)
  moreover have "kept s s5" by (rule kept_trans [OF k4 s5(3)])
  ultimately show ?thesis
    using s2(1,5,6,7) s3(1,5,6,7) s4(1,6,7,8) s5(1,2,5,6) by (intro exI [of _ s2] exI [of _ s3] exI [of _ s4] exI [of _ s5]) simp
qed


lemma read_write_create:
  "areValidOpenFlags (FILE_OPEN_READ_WRITE OR FILE_OPEN_CREATE)" "hasReadAccess (FILE_OPEN_READ_WRITE OR FILE_OPEN_CREATE)"
  "hasWriteAccess (FILE_OPEN_READ_WRITE OR FILE_OPEN_CREATE)"
  by (simp_all add: areValidOpenFlags_iff hasReadAccess_def hasWriteAccess_def access_mode_def open_flags)

lemma length_test_message: "length test_message = 15"
  by (simp add: test_message_def)

text \<open>The calls of the test all succeed.\<close>

lemma test_file_io_files:
  assumes ready: "test_ready L s" and target: "open_target s ''guest.txt'' (FILE_OPEN_READ_WRITE OR FILE_OPEN_CREATE) False i"
    and desc: "0 \<le> sint (nextDescriptor (fileState (g_context s)))"
  shows "\<exists>s5. test_file_io L s = do { s \<leftarrow> print_bytes (bytes_of ''File content: '') s5; s \<leftarrow> print_string (tl_buffer L) s; cpu_outb 0xE9 10 s } \<and>
    kept s s5 \<and> guest_bytes s5 (tl_buffer L) 15 = bytes_of test_message \<and> mem (g_vm s5) (tl_buffer L + 15) = 0 \<and>
    table (g_context s5) = table (g_context s) \<and>
    h_names (guest_host s5) = (h_names (guest_host s))(own_path s ''guest.txt'' \<mapsto> i) \<and>
    h_data (guest_host s5) = (h_data (guest_host s))(i := patch (target_data s ''guest.txt'') 0 (bytes_of test_message))"
proof -
  let ?sp = "tl_sp L" and ?fl = "FILE_OPEN_READ_WRITE OR FILE_OPEN_CREATE" and ?k = "nextDescriptor (fileState (g_context s))"
  let ?s0 = "poke (tl_buffer L + 15) [0] s" and ?msg = "bytes_of test_message"
  have L: "room ?sp s" "names_file ?sp (tl_path L) ''guest.txt'' s" "apart ?sp (tl_message L) 15 s"
    "guest_bytes s (tl_message L) 15 = ?msg" "apart ?sp (tl_buffer L) (15 + 1) s"
    and dj: "disjoint_areas (tl_buffer L) (15 + 1) (tl_message L) 15" "disjoint_areas (tl_buffer L) (15 + 1) (tl_path L) (length ''guest.txt'' + 1)"
    using ready unfolding test_ready_def length_test_message Let_def by auto
  have nm: "names_file ?sp (tl_path L) ''guest.txt'' ?s0"
    by (rule names_file_poke [OF L(2)]) (use dj(2) in \<open>auto simp: disjoint_areas_def\<close>)
  have msg0: "guest_bytes ?s0 (tl_message L) 15 = ?msg"
    using L(4) poke_elsewhere [of "tl_buffer L + 15" "[0]" "tl_message L" 15 s] dj(1) by (auto simp: disjoint_areas_def)
  have "guest_bytes ?s0 (tl_buffer L + 15) 1 = [0]" by (simp add: poke_def)
  obtain s1 f where s1: "guest_open ?sp (tl_path L) ?fl ?s0 = Some (?k, s1)" "opened s1 ?k ?fl False i 0" "kept ?s0 s1" "mem_kept ?sp ?s0 s1"
      "table (g_context s1) = (?k, f) # table (g_context s)" "map_of (table (g_context s)) ?k = None" "opens_on ?s0 ''guest.txt'' False i (guest_host s1)"
    using call_open [OF _ nm read_write_create(1), of False i] L(1) target by auto
  have k1: "kept s s1" using s1(3) by (simp add: kept_def)
  have m1: "guest_bytes s1 (tl_message L) 15 = ?msg"
    using mem_keptD [OF s1(4), of "tl_message L" 15] L(3) msg0 by simp
  have z1: "guest_bytes s1 (tl_buffer L + 15) 1 = [0]"
  proof -
    have "clear_of ?sp (tl_buffer L + 15) 1" using L(5) by (auto simp: apart_def clear_of_def)
    then show ?thesis using s1(4) by (simp add: mem_kept_def poke_def)
  qed
  obtain s2 s3 s4 s5 where c: "guest_write ?sp ?k (tl_message L) (of_nat 15) s1 = Some (of_nat 15, s2)"
      "guest_lseek ?sp ?k 0 FILE_SEEK_SET s2 = Some (0, s3)" "guest_read ?sp ?k (tl_buffer L) (of_nat 15) s3 = Some (of_nat 15, s4)"
      "guest_close ?sp ?k s4 = Some (0, s5)" "kept s1 s5" "guest_bytes s5 (tl_buffer L) 15 = ?msg"
      "guest_bytes s5 (tl_buffer L + 15) 1 = guest_bytes s1 (tl_buffer L + 15) 1"
      "table (g_context s5) = erase ?k (table (g_context s1))" "h_names (guest_host s5) = h_names (guest_host s1)"
      "h_data (guest_host s5) = (h_data (guest_host s1))(i := patch (h_data (guest_host s1) i) 0 ?msg)"
    using write_back [OF room_kept [OF L(1) k1] s1(2) read_write_create(2,3) apart_kept [OF L(3) k1] apart_kept [OF L(5) k1] dj(1) _ _ m1]
    by auto
  have "test_file_io L s = do { s \<leftarrow> print_bytes (bytes_of ''File content: '') s5; s \<leftarrow> print_string (tl_buffer L) s; cpu_outb 0xE9 10 s }"
    unfolding test_file_io_def length_test_message Let_def using s1(1) c(1-4) desc by simp
  moreover have "mem (g_vm s5) (tl_buffer L + 15) = 0" using c(7) z1 by (simp add: load_bytes_def)
  ultimately show ?thesis
    using kept_trans [OF k1 c(5)] c(6,8,9,10) s1(5-7) by (intro exI [of _ s5]) (auto simp: opens_on_def)
qed

text \<open>The line with what was read back.\<close>

lemma content_line:
  assumes room: "1025 \<le> mapping_size (g_vm s)" and "guest_bytes s a 15 = bytes_of test_message" and "mem (g_vm s) (a + 15) = 0"
    and "serialOutputBuffer (g_context s) = []"
  shows "\<exists>s'. do { s \<leftarrow> print_bytes (bytes_of ''File content: '') s; s \<leftarrow> print_string a s; cpu_outb 0xE9 10 s } = Some s' \<and>
    printed (g_context s) (to_out (tagged_line s (''File content: '' @ test_message @ newline)) (w_console (g_world s))) s s'"
proof -
  let ?msg = "bytes_of test_message" and ?head = "bytes_of ''File content: ''"
  have plain: "10 \<notin> set (?head @ ?msg)" "0 \<notin> set ?msg" by (simp_all add: bytes_of_def test_message_def)
  obtain c con where w: "serial_write (g_context s) ?head (w_console (g_world s)) = (c, con)" by (cases rule: prod.exhaust)
  obtain s6 where s6: "print_bytes ?head s = Some s6" "printed c con s s6" using print_bytes_writes [OF room w] by auto
  have "print_string a s6 = print_bytes ?msg s6"
    by (rule print_string_bytes) (use s6(2) assms(2,3) plain(2) room length_test_message in \<open>auto simp: printed_def mapping_size_def\<close>)
  then have "print_bytes ((?head @ ?msg) @ [10]) s =
      do { s \<leftarrow> print_bytes ?head s; s \<leftarrow> print_string a s; cpu_outb 0xE9 10 s }"
    using s6(1) by (simp add: print_bytes_append)
  moreover obtain s' where "print_bytes ((?head @ ?msg) @ [10]) s = Some s'"
      "printed (g_context s) (to_out (vm_prefix (g_context s) @ text_of ((?head @ ?msg) @ [10])) (w_console (g_world s))) s s'"
    using print_bytes_writes [OF room line_written [OF plain(1) assms(4)]] by auto
  ultimately show ?thesis by (intro exI [of _ s']) (simp add: tagged_line_def vm_prefix_def)
qed

text \<open>
  C27. The guest program's file test says what happened: when the host's calls succeed, the
  message goes into \<^verbatim>\<open>guest.txt\<close> of the machine's own directory and comes back, the console
  receives exactly the line with it behind the machine's tag, no descriptor stays open, and no
  other file changes.
\<close>

theorem file_test_prints:
  assumes "test_ready L s" and "open_target s ''guest.txt'' (FILE_OPEN_READ_WRITE OR FILE_OPEN_CREATE) False i"
    and "0 \<le> sint (nextDescriptor (fileState (g_context s)))" and "serialOutputBuffer (g_context s) = []"
  shows "\<exists>s'. test_file_io L s = Some s' \<and>
    con_out (w_console (g_world s')) = con_out (w_console (g_world s)) @ tagged_line s (''File content: '' @ test_message @ newline) \<and>
    table (g_context s') = table (g_context s) \<and> h_names (guest_host s') = (h_names (guest_host s))(own_path s ''guest.txt'' \<mapsto> i) \<and>
    h_data (guest_host s') = (h_data (guest_host s))(i := patch (target_data s ''guest.txt'') 0 (bytes_of test_message))"
proof -
  let ?msg = "bytes_of test_message"
  obtain s5 where s5: "test_file_io L s = do { s \<leftarrow> print_bytes (bytes_of ''File content: '') s5; s \<leftarrow> print_string (tl_buffer L) s; cpu_outb 0xE9 10 s }"
    "kept s s5" "guest_bytes s5 (tl_buffer L) 15 = ?msg" "mem (g_vm s5) (tl_buffer L + 15) = 0"
    "table (g_context s5) = table (g_context s)" "h_names (guest_host s5) = (h_names (guest_host s))(own_path s ''guest.txt'' \<mapsto> i)"
    "h_data (guest_host s5) = (h_data (guest_host s))(i := patch (target_data s ''guest.txt'') 0 ?msg)"
    using test_file_io_files [OF assms(1-3)] by auto
  have room: "1025 \<le> mapping_size (g_vm s5)" using assms(1) s5(2) by (simp add: test_ready_def Let_def room_def kept_def)
  have tag: "gid (g_context s5) = gid (g_context s)" "serialOutputBuffer (g_context s5) = []"
    using kept_context [OF s5(2)] assms(4) by simp_all
  from content_line [OF room s5(3,4) tag(2)] show ?thesis
    using s5 tag by (auto simp: printed_def to_out_def tagged_line_def kept_def)
qed


definition demo_layout :: test_layout where
  "demo_layout = \<lparr>tl_sp = 16, tl_path = 64, tl_message = 96, tl_buffer = 128\<rparr>"

lemma demo_memory:
  "guest_bytes demo_guest 96 15 = bytes_of test_message" "guest_bytes demo_guest 64 (length ''guest.txt'') = bytes_of ''guest.txt''"
  "guest_bytes demo_guest 73 1 = [0]"
  by (simp_all add: demo_guest_def test_message_def load_store_disjoint) (simp add: load_bytes_def store_bytes_def)

lemma demo_ready: "test_ready demo_layout demo_guest"
proof -
  have valid: "isValidGuestFileName ''guest.txt''" by code_simp
  have sz: "mem_size (g_vm demo_guest) = 512" by (simp add: demo_guest_def blank_vm_def)
  have "map (\<lambda>b. char_of (unat b)) (bytes_of n) = n" for n using text_of_bytes [of n] unfolding text_of_def .
  then have "string_at demo_guest 64 ''guest.txt''" using demo_memory(2,3) by (simp add: string_at_def)
  then show ?thesis
    using demo_memory(1) room_demo valid sz
    by (simp add: test_ready_def demo_layout_def Let_def names_file_def apart_def clear_of_def disjoint_areas_def
        FILE_NAME_MAX_def file_request_size_def length_test_message)
qed

lemma demo_target: "open_target demo_guest ''guest.txt'' (FILE_OPEN_READ_WRITE OR FILE_OPEN_CREATE) False 0"
  by code_simp

theorem file_test_prints_witness:
  "\<exists>s'. test_file_io demo_layout demo_guest = Some s' \<and>
     con_out (w_console (g_world s')) = ''[VM 0] '' @ ''File content: '' @ test_message @ newline"
proof -
  have tag: "show_nat 0 = ''0''" by code_simp
  have "gid (g_context demo_guest) = 0" "con_out (w_console (g_world demo_guest)) = []"
    "0 \<le> sint (nextDescriptor (fileState (g_context demo_guest)))" "serialOutputBuffer (g_context demo_guest) = []"
    by (simp_all add: demo_guest_def initial_GuestContext_def initial_FileState_def quiet_world_def)
  then show ?thesis
    using file_test_prints [OF demo_ready demo_target] by (auto simp: tagged_line_def tag)
qed

end
