(* ===== verification/Shared_Rounds.thy ===== *)
theory Shared_Rounds
  imports Shared_Buffer
begin

text \<open>
  The rounds of the broadcast: one writer and any number of readers, in any interleaving of
  their port accesses. \<open>round_inv\<close> is the protocol's invariant over the code's state and two
  histories, the bytes the writer has sent in this round and the bytes each reader has been
  handed since it began to read.
\<close>

subsection \<open>The invariant\<close>

definition reader_inv :: "SharedBufferState \<Rightarrow> u8 list \<Rightarrow> u8 list \<Rightarrow> SharedBufferVmState \<Rightarrow> bool" where
  "reader_inv b snt gt g \<longleftrightarrow>
     sb_mode g = VM_MODE_READER \<and>
     lastReadGeneration g \<le> activeReadGeneration g \<and> activeReadGeneration g \<le> generation b \<and>
     (activeReadGeneration g \<noteq> lastReadGeneration g \<longrightarrow>
        activeReadGeneration g = generation b \<and> dataReady b \<and> \<not> readCompleted g) \<and>
     (activeReadGeneration g = lastReadGeneration g \<and> activeReadGeneration g \<noteq> 0 \<longrightarrow> readCompleted g) \<and>
     (dataReady b \<and> activeReadGeneration g = generation b \<longrightarrow>
        readOffset g \<le> sb_size b \<and> gt = take (readOffset g) snt) \<and>
     (dataReady b \<and> lastReadGeneration g = generation b \<longrightarrow> readOffset g = sb_size b)"

definition writer_inv :: "SharedBufferState \<Rightarrow> SharedBufferVmState \<Rightarrow> bool" where
  "writer_inv b g \<longleftrightarrow> sb_mode g = VM_MODE_WRITER \<and>
     writeGeneration g = (if roundInProgress b \<and> dataReady b then generation b else 0)"

definition data_inv :: "SharedBufferState \<Rightarrow> u8 list \<Rightarrow> bool" where
  "data_inv b snt \<longleftrightarrow>
     length (sb_data b) = BUFFER_SIZE \<and> receivedBytes b = length snt \<and> length snt \<le> expectedBytes b \<and>
     sb_size b = min (expectedBytes b) BUFFER_SIZE \<and> take (length snt) (sb_data b) = take BUFFER_SIZE snt \<and>
     (dataReady b \<longrightarrow> 0 < generation b \<and> length snt = expectedBytes b)"

definition acknowledged :: "nat set \<Rightarrow> (nat \<Rightarrow> SharedBufferVmState) \<Rightarrow> u64 \<Rightarrow> nat set" where
  "acknowledged R pt g = {r \<in> R. lastReadGeneration (pt r) = g}"

definition round_inv ::
  "nat \<Rightarrow> nat set \<Rightarrow> (nat \<Rightarrow> SharedBufferVmState) \<Rightarrow> SharedBufferState \<Rightarrow> u8 list \<Rightarrow> (nat \<Rightarrow> u8 list) \<Rightarrow> bool" where
  "round_inv W R pt b snt gt \<longleftrightarrow>
     finite R \<and> W \<notin> R \<and> readerCount b = card R \<and> data_inv b snt \<and> writer_inv b (pt W) \<and>
     (\<forall>r\<in>R. reader_inv b snt (gt r) (pt r)) \<and>
     completedReaders b = (if dataReady b then card (acknowledged R pt (generation b)) else 0) \<and>
     (\<not> roundInProgress b \<or> \<not> dataReady b \<longrightarrow> (\<forall>r\<in>R. lastReadGeneration (pt r) = generation b))"

lemma word_le_succ:
  fixes x g :: u64
  assumes "x \<le> g" and "g \<noteq> - 1"
  shows "x < g + 1" and "x \<noteq> g + 1" and "0 < g + 1"
proof -
  have "unat (g + 1) = unat g + 1" using assms(2)
    by (metis add.commute unatSuc add_eq_0_iff2 Suc_eq_plus1_left)
  then show "x < g + 1" "0 < g + 1" using assms(1) by (simp_all add: word_less_nat_alt word_le_nat_alt)
  then show "x \<noteq> g + 1" by auto
qed

lemma take_list_update_at:
  "length xs \<le> length ys \<Longrightarrow> take (length xs) ys = xs \<Longrightarrow> length xs < length ys \<Longrightarrow>
     take (Suc (length xs)) (ys[length xs := x]) = xs @ [x]"
  by (simp add: take_Suc_conv_app_nth)

text \<open>The bytes of a round: storing one more keeps the buffer a prefix of what was sent.\<close>

lemma data_inv_put:
  assumes "data_inv b snt" and "receivedBytes b < expectedBytes b"
    and d: "d = (if receivedBytes b < BUFFER_SIZE then (sb_data b)[receivedBytes b := x] else sb_data b)"
  shows "length d = BUFFER_SIZE" and "take (Suc (length snt)) d = take BUFFER_SIZE (snt @ [x])"
proof -
  have l: "length (sb_data b) = BUFFER_SIZE" "receivedBytes b = length snt"
    "take (length snt) (sb_data b) = take BUFFER_SIZE snt"
    using assms(1) by (auto simp: data_inv_def)
  show "length d = BUFFER_SIZE" using l d by simp
  show "take (Suc (length snt)) d = take BUFFER_SIZE (snt @ [x])"
  proof (cases "length snt < BUFFER_SIZE")
    case True
    then show ?thesis using l d take_list_update_at [of snt "sb_data b" x] by simp
  next
    case False
    then show ?thesis using l d by simp
  qed
qed

lemma round_inv_notify [simp]: "round_inv W R pt (notify_all b) snt gt = round_inv W R pt b snt gt"
  by (simp add: round_inv_def data_inv_def writer_inv_def reader_inv_def)

subsection \<open>Every successful call keeps it\<close>

lemma reader_inv_cong:
  assumes "generation b' = generation b" and "dataReady b' = dataReady b"
    and "dataReady b \<Longrightarrow> sb_size b' = sb_size b" and "dataReady b \<Longrightarrow> snt' = snt"
  shows "reader_inv b' snt' gt g = reader_inv b snt gt g"
  using assms by (auto simp: reader_inv_def)

lemma reader_inv_idle:
  assumes "reader_inv b snt gt g" and "lastReadGeneration g = generation b"
    and "generation b' = generation b" and "\<not> dataReady b'"
  shows "reader_inv b' snt' gt g"
  using assms by (auto simp: reader_inv_def)

lemma round_inv_begin:
  assumes inv: "round_inv W R pt b snt gt" and "\<not> roundInProgress b"
  shows "round_inv W R (pt(W := (pt W)\<lparr>writeGeneration := 0\<rparr>)) (beginWriter_state b n) [] gt"
proof -
  let ?b' = "beginWriter_state b n"
  have idle: "lastReadGeneration (pt r) = generation b" if "r \<in> R" for r
    using inv assms(2) that by (simp add: round_inv_def)
  have "reader_inv ?b' [] (gt r) (pt r)" if "r \<in> R" for r
    by (rule reader_inv_idle [of b snt]) (use inv idle that in \<open>simp_all add: round_inv_def beginWriter_state_def\<close>)
  moreover have "data_inv ?b' []" using inv by (simp add: round_inv_def data_inv_def beginWriter_state_def)
  moreover have "generation ?b' = generation b" "\<not> dataReady ?b'" "completedReaders ?b' = 0"
    "readerCount ?b' = readerCount b" by (simp_all add: beginWriter_state_def)
  ultimately show ?thesis using inv idle unfolding round_inv_def writer_inv_def by auto
qed

text \<open>The last byte of a round, or a round without bytes, makes the data ready.\<close>

lemma acknowledged_none: "\<forall>r\<in>R. lastReadGeneration (pt r) \<noteq> g \<Longrightarrow> acknowledged R pt g = {}"
  by (auto simp: acknowledged_def)

lemma acknowledged_other: "W \<notin> R \<Longrightarrow> acknowledged R (pt(W := x)) g = acknowledged R pt g"
  by (auto simp: acknowledged_def)

lemma reader_inv_ready:
  assumes "reader_inv b snt gt g" and "\<not> dataReady b" and "generation b \<noteq> - 1"
    and "generation b' = generation b + 1"
  shows "reader_inv b' snt' gt g" and "lastReadGeneration g \<noteq> generation b'"
proof -
  have a: "activeReadGeneration g = lastReadGeneration g" "activeReadGeneration g \<le> generation b"
    using assms(1,2) by (auto simp: reader_inv_def)
  note s = word_le_succ [OF a(2) assms(3)]
  show "lastReadGeneration g \<noteq> generation b'" using s(2) a(1) assms(4) by simp
  show "reader_inv b' snt' gt g"
    using assms(1) a s unfolding reader_inv_def assms(4) by auto
qed

lemma round_inv_ready:
  assumes inv: "round_inv W R pt b snt gt" and "\<not> dataReady b" and "generation b \<noteq> - 1"
    and b': "generation b' = generation b + 1" "dataReady b'" "roundInProgress b'" "readerCount b' = readerCount b"
      "completedReaders b' = 0"
    and d: "data_inv b' snt'"
  shows "round_inv W R (pt(W := (pt W)\<lparr>writeGeneration := generation b'\<rparr>)) b' snt' gt"
proof -
  have r: "reader_inv b snt (gt r) (pt r)" if "r \<in> R" for r using inv that by (simp add: round_inv_def)
  note rdy = reader_inv_ready [OF r assms(2,3) b'(1)]
  have "acknowledged R pt (generation b') = {}" by (rule acknowledged_none) (use rdy(2) in blast)
  then show ?thesis
    using inv d b' rdy(1) by (auto simp: round_inv_def writer_inv_def acknowledged_other)
qed

lemma round_inv_begin_empty:
  assumes inv: "round_inv W R pt b snt gt" and "\<not> roundInProgress b" and "generation b \<noteq> - 1"
  shows "round_inv W R (pt(W := (pt W)\<lparr>writeGeneration := generation b + 1\<rparr>))
    ((beginWriter_state b 0)\<lparr>dataReady := True, generation := generation b + 1\<rparr>) [] gt"
proof -
  note b = round_inv_begin [OF inv assms(2), of 0]
  let ?b' = "(beginWriter_state b 0)\<lparr>dataReady := True, generation := generation b + 1\<rparr>"
  have "data_inv ?b' []"
    using b word_le_succ(3) [OF order_refl assms(3)] by (auto simp: round_inv_def data_inv_def beginWriter_state_def)
  then show ?thesis
    using round_inv_ready [OF b, of ?b' "[]"] assms(3) by (simp add: beginWriter_state_def)
qed

lemma round_inv_put:
  assumes inv: "round_inv W R pt b snt gt" and "\<not> dataReady b"
    and "receivedBytes b + 1 < expectedBytes b"
    and d: "d = (if receivedBytes b < BUFFER_SIZE then (sb_data b)[receivedBytes b := x] else sb_data b)"
  shows "round_inv W R pt (b\<lparr>sb_data := d, receivedBytes := receivedBytes b + 1\<rparr>) (snt @ [x]) gt"
proof -
  have di: "data_inv b snt" using inv by (simp add: round_inv_def)
  have "receivedBytes b < expectedBytes b" using assms(3) by simp
  note p = data_inv_put [OF di this d]
  have "data_inv (b\<lparr>sb_data := d, receivedBytes := receivedBytes b + 1\<rparr>) (snt @ [x])"
    using di p assms(2,3) by (simp add: data_inv_def)
  moreover have "reader_inv (b\<lparr>sb_data := d, receivedBytes := receivedBytes b + 1\<rparr>) (snt @ [x]) (gt r) (pt r)"
    if "r \<in> R" for r
    using inv that assms(2) by (auto simp: round_inv_def reader_inv_def)
  ultimately show ?thesis
    using inv assms(2) by (simp add: round_inv_def writer_inv_def)
qed

lemma round_inv_put_last:
  assumes inv: "round_inv W R pt b snt gt" and "\<not> dataReady b" and "roundInProgress b" and "generation b \<noteq> - 1"
    and "receivedBytes b + 1 = expectedBytes b"
    and d: "d = (if receivedBytes b < BUFFER_SIZE then (sb_data b)[receivedBytes b := x] else sb_data b)"
  shows "round_inv W R (pt(W := (pt W)\<lparr>writeGeneration := generation b + 1\<rparr>))
    (b\<lparr>sb_data := d, receivedBytes := receivedBytes b + 1, dataReady := True, generation := generation b + 1\<rparr>)
    (snt @ [x]) gt"
    (is "round_inv _ _ _ ?b' _ _")
proof -
  have di: "data_inv b snt" using inv by (simp add: round_inv_def)
  have "receivedBytes b < expectedBytes b" using assms(5) by simp
  note p = data_inv_put [OF di this d]
  have "data_inv ?b' (snt @ [x])"
    using di p assms(5) word_le_succ(3) [OF order_refl assms(4)] by (auto simp: data_inv_def)
  moreover have "completedReaders ?b' = 0" using inv assms(2) by (simp add: round_inv_def)
  ultimately show ?thesis
    using round_inv_ready [OF inv assms(2,4), of ?b' "snt @ [x]"] assms(3) by simp
qed

lemma round_inv_finish_write:
  assumes inv: "round_inv W R pt b snt gt" and "dataReady b" and "completedReaders b = readerCount b"
  shows "\<forall>r\<in>R. lastReadGeneration (pt r) = generation b"
    and "round_inv W R (pt(W := (pt W)\<lparr>writeGeneration := 0, transferCompleted := True\<rparr>))
      (b\<lparr>roundInProgress := False\<rparr>) snt gt"
proof -
  have "card (acknowledged R pt (generation b)) = card R" "finite R"
    using inv assms(2,3) by (auto simp: round_inv_def)
  then have "acknowledged R pt (generation b) = R" by (metis (no_types, lifting) acknowledged_def card_subset_eq mem_Collect_eq subsetI)
  then show all: "\<forall>r\<in>R. lastReadGeneration (pt r) = generation b" by (auto simp: acknowledged_def)
  have "reader_inv (b\<lparr>roundInProgress := False\<rparr>) snt (gt r) (pt r)" if "r \<in> R" for r
    using inv that reader_inv_cong [of "b\<lparr>roundInProgress := False\<rparr>" b snt snt] by (simp add: round_inv_def)
  then show "round_inv W R (pt(W := (pt W)\<lparr>writeGeneration := 0, transferCompleted := True\<rparr>))
      (b\<lparr>roundInProgress := False\<rparr>) snt gt"
    using inv all by (auto simp: round_inv_def writer_inv_def data_inv_def acknowledged_other)
qed

text \<open>A step of one reader that leaves the buffer's rounds alone.\<close>

lemma round_inv_reader:
  assumes inv: "round_inv W R pt b snt gt" and "r \<in> R" and "reader_inv b snt gs g"
    and "lastReadGeneration g = lastReadGeneration (pt r)"
  shows "round_inv W R (pt(r := g)) b snt (gt(r := gs))"
proof -
  have "acknowledged R (pt(r := g)) x = acknowledged R pt x" for x
    using assms(4) by (auto simp: acknowledged_def)
  then show ?thesis
    using assms by (auto simp: round_inv_def)
qed

lemma round_inv_begin_read:
  assumes inv: "round_inv W R pt b snt gt" and r: "r \<in> R" and "dataReady b"
    and "lastReadGeneration (pt r) < generation b"
  shows "round_inv W R (pt(r := (pt r)\<lparr>readOffset := 0, activeReadGeneration := generation b, readCompleted := False\<rparr>))
    b snt (gt(r := []))"
proof (rule round_inv_reader [OF inv r])
  have "reader_inv b snt (gt r) (pt r)" using inv r by (simp add: round_inv_def)
  then show "reader_inv b snt [] ((pt r)\<lparr>readOffset := 0, activeReadGeneration := generation b, readCompleted := False\<rparr>)"
    using assms(3,4) by (auto simp: reader_inv_def)
qed simp

lemma round_inv_get:
  assumes inv: "round_inv W R pt b snt gt" and r: "r \<in> R"
    and "activeReadGeneration (pt r) = generation b" and "readOffset (pt r) < sb_size b"
  shows "round_inv W R (pt(r := (pt r)\<lparr>readOffset := readOffset (pt r) + 1\<rparr>)) b snt
    (gt(r := gt r @ [sb_data b ! readOffset (pt r)]))"
proof (rule round_inv_reader [OF inv r])
  have ri: "reader_inv b snt (gt r) (pt r)" and di: "data_inv b snt" using inv r by (simp_all add: round_inv_def)
  have "gt r @ [sb_data b ! readOffset (pt r)] = take (readOffset (pt r) + 1) snt" if "dataReady b"
  proof -
    have o: "readOffset (pt r) < length snt" "readOffset (pt r) < BUFFER_SIZE"
      using di that assms(4) by (auto simp: data_inv_def)
    have "take (length snt) (sb_data b) = take BUFFER_SIZE snt" using di by (simp add: data_inv_def)
    then have "sb_data b ! readOffset (pt r) = snt ! readOffset (pt r)"
      using o by (metis nth_take)
    then show ?thesis using ri that assms(3) o by (simp add: reader_inv_def take_Suc_conv_app_nth)
  qed
  then show "reader_inv b snt (gt r @ [sb_data b ! readOffset (pt r)]) ((pt r)\<lparr>readOffset := readOffset (pt r) + 1\<rparr>)"
    using ri assms(3,4) by (auto simp: reader_inv_def)
qed simp

lemma round_inv_finish_read:
  assumes inv: "round_inv W R pt b snt gt" and r: "r \<in> R"
    and "activeReadGeneration (pt r) = generation b" and "readOffset (pt r) = sb_size b"
    and "\<not> readCompleted (pt r)" and "activeReadGeneration (pt r) \<noteq> 0"
  shows "dataReady b" and "gt r = take BUFFER_SIZE snt"
    and "round_inv W R (pt(r := (pt r)\<lparr>readCompleted := True, lastReadGeneration := generation b, transferCompleted := True\<rparr>))
      (b\<lparr>completedReaders := completedReaders b + 1\<rparr>) snt gt"
proof -
  have ri: "reader_inv b snt (gt r) (pt r)" and di: "data_inv b snt" using inv r by (simp_all add: round_inv_def)
  have ne: "activeReadGeneration (pt r) \<noteq> lastReadGeneration (pt r)"
    using ri assms(5,6) by (auto simp: reader_inv_def)
  then show rdy: "dataReady b" using ri by (simp add: reader_inv_def)
  then show "gt r = take BUFFER_SIZE snt"
    using ri di assms(3,4) by (auto simp: reader_inv_def data_inv_def min_def)
  let ?g = "(pt r)\<lparr>readCompleted := True, lastReadGeneration := generation b, transferCompleted := True\<rparr>"
  have "acknowledged R (pt(r := ?g)) (generation b) = insert r (acknowledged R pt (generation b))"
    using r by (auto simp: acknowledged_def)
  moreover have "r \<notin> acknowledged R pt (generation b)" using ne assms(3) by (auto simp: acknowledged_def)
  moreover have "finite (acknowledged R pt (generation b))" using inv by (simp add: round_inv_def acknowledged_def)
  ultimately have "card (acknowledged R (pt(r := ?g)) (generation b)) = completedReaders b + 1"
    using inv rdy by (simp add: round_inv_def)
  moreover have "reader_inv (b\<lparr>completedReaders := completedReaders b + 1\<rparr>) snt (gt r) ?g"
    using ri assms(3,4) rdy by (auto simp: reader_inv_def)
  moreover have "reader_inv (b\<lparr>completedReaders := completedReaders b + 1\<rparr>) snt (gt q) (pt q)" if "q \<in> R" for q
    using inv that reader_inv_cong [of "b\<lparr>completedReaders := completedReaders b + 1\<rparr>" b snt snt]
    by (simp add: round_inv_def)
  moreover have "W \<noteq> r" using inv r by (auto simp: round_inv_def)
  moreover have "data_inv (b\<lparr>completedReaders := completedReaders b + 1\<rparr>) snt"
    using di by (simp add: data_inv_def)
  moreover have "writer_inv (b\<lparr>completedReaders := completedReaders b + 1\<rparr>) (pt W)"
    using inv by (simp add: round_inv_def writer_inv_def)
  moreover have "roundInProgress b" using inv ne r assms(3) unfolding round_inv_def by auto
  ultimately show "round_inv W R (pt(r := ?g)) (b\<lparr>completedReaders := completedReaders b + 1\<rparr>) snt gt"
    using inv rdy unfolding round_inv_def by simp
qed

subsection \<open>Runs of the machines\<close>

text \<open>
  \<open>sent\<close> are the bytes of the writer's round so far, \<open>got r\<close> the bytes machine \<open>r\<close> was handed
  since it began to read; both are read off the accesses, the code does not keep them.
\<close>

record rounds =
  machines :: "GuestContext list"
  shbuf :: SharedBufferState
  sent :: "u8 list"
  got :: "nat \<Rightarrow> u8 list"

definition data_offset :: "vm \<Rightarrow> nat" where
  "data_offset v = unat (io_data_offset (io (run v)))"

definition sent_after :: "vm \<Rightarrow> u8 list \<Rightarrow> u8 list" where
  "sent_after v snt =
     (let i = io (run v) in
      if io_port i = SHARED_BUFFER_PORT \<and> io_direction i = KVM_EXIT_IO_OUT
      then (if io_size i = 4 then [] else snt @ [run_data (run v) (data_offset v)]) else snt)"

definition got_after :: "GuestContext \<Rightarrow> vm \<Rightarrow> vm \<Rightarrow> u8 list \<Rightarrow> u8 list" where
  "got_after c v v' gt =
     (let i = io (run v) in
      if io_port i = SHARED_BUFFER_PORT \<and> io_direction i = KVM_EXIT_IO_IN \<and> modeDelivered (sharedBuffer c)
      then (if io_size i = 4 then [] else gt @ [run_data (run v') (data_offset v)]) else gt)"

text \<open>
  The discipline of the guests: a reader acknowledges a round only after it has begun to read
  one. The host does not check this. It is a premise of the step relation, and so of every
  theorem on \<open>reachable_disciplined\<close> states; \<open>Broadcast.premature_acknowledgement_accepted\<close> is what a
  reader without it can do.
\<close>

definition disciplined :: "GuestContext \<Rightarrow> vm \<Rightarrow> bool" where
  "disciplined c v \<longleftrightarrow>
     (sb_mode (sharedBuffer c) = VM_MODE_READER \<and> io_port (io (run v)) = SHARED_BUFFER_STATUS_PORT \<longrightarrow>
        activeReadGeneration (sharedBuffer c) \<noteq> 0)"

text \<open>
  One successful access of one disciplined machine, or an abort. A rejected access changes nothing,
  and a blocked one has not happened: its thread sleeps, and tries
  again when it is woken (\<open>Shared_Waiting\<close>). Runs have fewer than
  \<open>2^64 - 1\<close> rounds, so the generation does not wrap.
\<close>

definition accessed :: "rounds \<Rightarrow> nat \<Rightarrow> vm \<Rightarrow> GuestContext \<Rightarrow> SharedBufferState \<Rightarrow> vm \<Rightarrow> rounds" where
  "accessed s i v c' b' v' =
     s\<lparr>machines := (machines s)[i := c'], shbuf := b', sent := sent_after v (sent s),
       got := (got s)(i := got_after (machines s ! i) v v' (got s i))\<rparr>"

inductive disciplined_step :: "rounds \<Rightarrow> rounds \<Rightarrow> bool" where
  access: "i < length (machines s) \<Longrightarrow> disciplined (machines s ! i) v \<Longrightarrow> generation (shbuf s) \<noteq> - 1 \<Longrightarrow>
     handleSharedBufferIo (machines s ! i) (shbuf s) v = Done (True, c', b', v') \<Longrightarrow>
     disciplined_step s (accessed s i v c' b' v')"
| abort: "disciplined_step s (s\<lparr>shbuf := abortSharedBuffer (shbuf s)\<rparr>)"

inductive_cases disciplined_stepE: "disciplined_step s s'"

text \<open>How \<^verbatim>\<open>main\<close> sets the machines up: machine 0 writes, the others read.\<close>

definition configured :: "GuestContext list \<Rightarrow> SharedBufferState \<Rightarrow> bool" where
  "configured ms b \<longleftrightarrow> ms \<noteq> [] \<and>
     (\<forall>i<length ms. sharedBuffer (ms ! i) = initial_SharedBufferVmState
        \<lparr>sb_mode := if i = 0 then VM_MODE_WRITER else VM_MODE_READER\<rparr>) \<and>
     b = initial_SharedBufferState\<lparr>readerCount := length ms - 1\<rparr>"

definition start_rounds :: "GuestContext list \<Rightarrow> SharedBufferState \<Rightarrow> rounds" where
  "start_rounds ms b = \<lparr>machines = ms, shbuf = b, sent = [], got = (\<lambda>_. [])\<rparr>"

definition part :: "rounds \<Rightarrow> nat \<Rightarrow> SharedBufferVmState" where
  "part s r = sharedBuffer (machines s ! r)"

definition rounds_ok :: "rounds \<Rightarrow> bool" where
  "rounds_ok s \<longleftrightarrow> machines s \<noteq> [] \<and>
     round_inv 0 {1..<length (machines s)} (part s) (shbuf s) (sent s) (got s)"

lemma rounds_ok_start: "configured ms b \<Longrightarrow> rounds_ok (start_rounds ms b)"
  by (auto simp: rounds_ok_def start_rounds_def round_inv_def configured_def part_def data_inv_def writer_inv_def
      reader_inv_def initial_SharedBufferState_def initial_SharedBufferVmState_def)

lemma handle_success:
  assumes "handleSharedBufferIo c b v = Done (True, c', b', v')"
  obtains g' m' where "sharedBufferIo (sharedBuffer c) b (io (run v)) (run_data (run v)) (data_offset v) = Done (True, g', b', m')"
    "c' = c\<lparr>sharedBuffer := g'\<rparr>" "v' = set_run_data v m'"
    "io_size (io (run v)) = 1 \<or> io_size (io (run v)) = 4"
  using assms
  by (auto simp: handleSharedBufferIo_def Let_def getIoData_def data_offset_def split: if_splits option.splits outcome.splits prod.splits)

lemma part_accessed:
  "i < length (machines s) \<Longrightarrow> part (accessed s i v (c\<lparr>sharedBuffer := g\<rparr>) b' v') = (part s)(i := g)"
  by (auto simp: part_def accessed_def fun_eq_iff nth_list_update)

lemma mode_of:
  assumes "rounds_ok s" and "i < length (machines s)"
  shows "sb_mode (part s i) = VM_MODE_WRITER \<Longrightarrow> i = 0" and "sb_mode (part s i) = VM_MODE_READER \<Longrightarrow> i \<in> {1..<length (machines s)}"
proof -
  have "sb_mode (part s 0) = VM_MODE_WRITER"
    "\<And>r. r \<in> {1..<length (machines s)} \<Longrightarrow> sb_mode (part s r) = VM_MODE_READER"
    using assms(1) by (simp_all add: rounds_ok_def round_inv_def writer_inv_def reader_inv_def)
  moreover have "i = 0 \<or> i \<in> {1..<length (machines s)}" using assms(2) by auto
  moreover have "VM_MODE_WRITER \<noteq> VM_MODE_READER" by (simp add: VM_MODE_WRITER_def VM_MODE_READER_def)
  ultimately show "sb_mode (part s i) = VM_MODE_WRITER \<Longrightarrow> i = 0"
    and "sb_mode (part s i) = VM_MODE_READER \<Longrightarrow> i \<in> {1..<length (machines s)}" by metis+
qed

lemma round_inv_mode_delivered:
  "round_inv W R pt b snt gt \<Longrightarrow> round_inv W R (pt(i := (pt i)\<lparr>modeDelivered := True\<rparr>)) b snt gt"
proof -
  assume inv: "round_inv W R pt b snt gt"
  let ?pt = "pt(i := (pt i)\<lparr>modeDelivered := True\<rparr>)"
  have "lastReadGeneration (?pt r) = lastReadGeneration (pt r)" for r by simp
  moreover from this have "acknowledged R ?pt g = acknowledged R pt g" for g by (simp only: acknowledged_def)
  moreover have "reader_inv b snt g (?pt r) = reader_inv b snt g (pt r)" for r g by (simp add: reader_inv_def)
  moreover have "writer_inv b (?pt W) = writer_inv b (pt W)" by (simp add: writer_inv_def)
  ultimately show ?thesis using inv by (simp only: round_inv_def) auto
qed

lemma fun_upd_keep: "f i = x \<Longrightarrow> f(i := x) = f"
  by auto

lemma rounds_ok_access:
  assumes ok: "rounds_ok s" and i: "i < length (machines s)" and "disciplined (machines s ! i) v"
    and gen: "generation (shbuf s) \<noteq> - 1"
    and handle: "handleSharedBufferIo (machines s ! i) (shbuf s) v = Done (True, c', b', v')"
  shows "rounds_ok (accessed s i v c' b' v')"
proof -
  obtain g' m' where io: "sharedBufferIo (part s i) (shbuf s) (io (run v)) (run_data (run v)) (data_offset v) = Done (True, g', b', m')"
    and c': "c' = (machines s ! i)\<lparr>sharedBuffer := g'\<rparr>" and v': "v' = set_run_data v m'"
    by (rule handle_success [OF handle]) (simp add: part_def)
  let ?R = "{1..<length (machines s)}"
  have inv: "round_inv 0 ?R (part s) (shbuf s) (sent s) (got s)" using ok by (simp add: rounds_ok_def)
  have ports: "SHARED_BUFFER_PORT \<noteq> SHARED_BUFFER_STATUS_PORT" by (simp add: shared_buffer_consts)
  have "round_inv 0 ?R ((part s)(i := g')) b' (sent_after v (sent s)) ((got s)(i := got_after (machines s ! i) v v' (got s i)))"
    using io
  proof (cases rule: sharedBufferIo_cases)
    case mode
    then show ?thesis
      using round_inv_mode_delivered [OF inv, of i]
      by (simp add: sent_after_def got_after_def part_def fun_upd_keep)
  next
    case begin_empty
    moreover from this have "i = 0" by (intro mode_of(1) [OF ok i])
    ultimately show ?thesis
      using round_inv_begin_empty [OF inv _ gen] by (simp add: sent_after_def got_after_def fun_upd_keep)
  next
    case (begin_write n)
    moreover from this have "i = 0" by (intro mode_of(1) [OF ok i])
    ultimately show ?thesis
      using round_inv_begin [OF inv, of n] by (simp add: sent_after_def got_after_def fun_upd_keep)
  next
    case (put d)
    then show ?thesis
      using round_inv_put [OF inv, of d "run_data (run v) (data_offset v)"]
      by (simp add: sent_after_def got_after_def fun_upd_keep)
  next
    case (put_last d)
    moreover from this have "i = 0" by (intro mode_of(1) [OF ok i])
    ultimately show ?thesis
      using round_inv_put_last [OF inv _ _ gen, of d "run_data (run v) (data_offset v)"]
      by (simp add: sent_after_def got_after_def fun_upd_keep)
  next
    case finish_write
    moreover from this have "i = 0" by (intro mode_of(1) [OF ok i])
    ultimately show ?thesis
      using round_inv_finish_write(2) [OF inv] ports by (simp add: sent_after_def got_after_def fun_upd_keep)
  next
    case begin_read
    then show ?thesis
      using round_inv_begin_read [OF inv mode_of(2) [OF ok i]] by (simp add: sent_after_def got_after_def part_def)
  next
    case get
    then show ?thesis
      using round_inv_get [OF inv mode_of(2) [OF ok i]] by (simp add: sent_after_def got_after_def part_def v')
  next
    case finish_read
    then show ?thesis
      using round_inv_finish_read(3) [OF inv mode_of(2) [OF ok i]] assms(3) ports
      by (simp add: sent_after_def got_after_def part_def disciplined_def fun_upd_keep)
  qed
  then show ?thesis
    using ok part_accessed [OF i, where c = "machines s ! i" and v = v and g = g' and b' = b' and v' = v'] unfolding c' rounds_ok_def
    by (simp add: accessed_def)
qed

lemma part_shbuf [simp]: "part (s\<lparr>shbuf := b\<rparr>) = part s"
  by (simp add: part_def fun_eq_iff)

lemma rounds_ok_abort: "rounds_ok s \<Longrightarrow> rounds_ok (s\<lparr>shbuf := abortSharedBuffer (shbuf s)\<rparr>)"
proof -
  have "reader_inv (abortSharedBuffer b) snt gt g = reader_inv b snt gt g" for b snt gt g
    by (rule reader_inv_cong) (simp_all add: abortSharedBuffer_def)
  then show "rounds_ok s \<Longrightarrow> rounds_ok (s\<lparr>shbuf := abortSharedBuffer (shbuf s)\<rparr>)"
    by (simp add: rounds_ok_def round_inv_def data_inv_def writer_inv_def abortSharedBuffer_def)
qed

lemma rounds_ok_step: "disciplined_step s s' \<Longrightarrow> rounds_ok s \<Longrightarrow> rounds_ok s'"
  by (auto elim!: disciplined_stepE intro: rounds_ok_access rounds_ok_abort)

definition reachable_disciplined :: "GuestContext list \<Rightarrow> SharedBufferState \<Rightarrow> rounds \<Rightarrow> bool" where
  "reachable_disciplined ms b s \<longleftrightarrow> configured ms b \<and> disciplined_step\<^sup>*\<^sup>* (start_rounds ms b) s"

lemma reachable_disciplined_ok: "reachable_disciplined ms b s \<Longrightarrow> rounds_ok s"
  unfolding reachable_disciplined_def
  by (elim conjE, erule rtranclp_induct) (auto intro: rounds_ok_start rounds_ok_step)

end
