(* ===== verification/Broadcast.thy ===== *)
theory Broadcast
  imports Shared_Rounds
begin

text \<open>
  The guests' side of the broadcast: the port instructions of \<^verbatim>\<open>guest/inc/io.h\<close> as accesses
  to the host's handler, and the port sequences of \<^verbatim>\<open>write_shared_buffer\<close> and
  \<^verbatim>\<open>read_shared_buffer\<close> in \<^verbatim>\<open>guest/src/interrupts.c\<close>. The theorems say what the protocol
  promises to guests that follow them, and that such guests always complete a round.
\<close>

subsection \<open>Port instructions\<close>

text \<open>The exit KVM reports for one port instruction; the data lies at offset 1024 of the run area.\<close>

definition port_exit :: "io_direction \<Rightarrow> u16 \<Rightarrow> u8 \<Rightarrow> memory \<Rightarrow> vm" where
  "port_exit dir port sz m = (blank_vm 0)\<lparr>run := zero_run\<lparr>exit_reason := KVM_EXIT_IO,
     io := \<lparr>io_direction = dir, io_size = sz, io_port = port, io_count = 1, io_data_offset = 1024\<rparr>,
     run_data := m\<rparr>\<rparr>"

definition port_try :: "nat \<Rightarrow> vm \<Rightarrow> rounds \<Rightarrow> (memory \<times> rounds) option" where
  "port_try i v s =
     (case handleSharedBufferIo (machines s ! i) (shbuf s) v of
        Done (True, c', b', v') \<Rightarrow> Some (run_data (run v'), accessed s i v c' b' v')
      | _ \<Rightarrow> None)"

definition outb :: "nat \<Rightarrow> u16 \<Rightarrow> u8 \<Rightarrow> rounds \<Rightarrow> rounds option" where
  "outb i port x s = map_option snd (port_try i (port_exit KVM_EXIT_IO_OUT port 1 ((\<lambda>_. 0)(1024 := x))) s)"

definition outl :: "nat \<Rightarrow> u16 \<Rightarrow> u32 \<Rightarrow> rounds \<Rightarrow> rounds option" where
  "outl i port x s = map_option snd (port_try i (port_exit KVM_EXIT_IO_OUT port 4 (store32 (\<lambda>_. 0) 1024 x)) s)"

definition inb :: "nat \<Rightarrow> u16 \<Rightarrow> rounds \<Rightarrow> (u8 \<times> rounds) option" where
  "inb i port s = map_option (\<lambda>(m, s). (m 1024, s)) (port_try i (port_exit KVM_EXIT_IO_IN port 1 (\<lambda>_. 0)) s)"

definition inl :: "nat \<Rightarrow> u16 \<Rightarrow> rounds \<Rightarrow> (u32 \<times> rounds) option" where
  "inl i port s = map_option (\<lambda>(m, s). (load32 m 1024, s)) (port_try i (port_exit KVM_EXIT_IO_IN port 4 (\<lambda>_. 0)) s)"

text \<open>\<open>None\<close>: the access is rejected, or blocked.\<close>

fun send_bytes :: "nat \<Rightarrow> u8 list \<Rightarrow> rounds \<Rightarrow> rounds option" where
  "send_bytes i [] s = Some s"
| "send_bytes i (x # xs) s = Option.bind (outb i SHARED_BUFFER_PORT x s) (send_bytes i xs)"

definition write_shared_buffer_send :: "nat \<Rightarrow> u8 list \<Rightarrow> rounds \<Rightarrow> rounds option" where
  "write_shared_buffer_send i bs s =
     Option.bind (outl i SHARED_BUFFER_PORT (of_nat (length bs)) s) (send_bytes i bs)"

definition write_shared_buffer_wait :: "nat \<Rightarrow> rounds \<Rightarrow> (u32 \<times> rounds) option" where
  "write_shared_buffer_wait i s = inl i SHARED_BUFFER_STATUS_PORT s"

fun receive_bytes :: "nat \<Rightarrow> nat \<Rightarrow> rounds \<Rightarrow> (u8 list \<times> rounds) option" where
  "receive_bytes i 0 s = Some ([], s)"
| "receive_bytes i (Suc n) s =
     (case inb i SHARED_BUFFER_PORT s of None \<Rightarrow> None | Some (x, s) \<Rightarrow>
        (case receive_bytes i n s of None \<Rightarrow> None | Some (xs, s) \<Rightarrow> Some (x # xs, s)))"

text \<open>The first component is \<open>None\<close> where \<^verbatim>\<open>read_shared_buffer\<close> returns 0 for a count beyond its array.\<close>

definition read_shared_buffer :: "nat \<Rightarrow> rounds \<Rightarrow> (u8 list option \<times> rounds) option" where
  "read_shared_buffer i s =
     (case inl i SHARED_BUFFER_PORT s of None \<Rightarrow> None | Some (cnt, s) \<Rightarrow>
      if unat cnt > BUFFER_SIZE
      then map_option (\<lambda>s. (None, s)) (outl i SHARED_BUFFER_STATUS_PORT 0 s)
      else (case receive_bytes i (unat cnt) s of None \<Rightarrow> None | Some (bs, s) \<Rightarrow>
              map_option (\<lambda>s. (Some bs, s)) (outl i SHARED_BUFFER_STATUS_PORT cnt s)))"

subsection \<open>An access as a step\<close>

lemma port_exit_fields [simp]:
  "io (run (port_exit dir port sz m)) =
     \<lparr>io_direction = dir, io_size = sz, io_port = port, io_count = 1, io_data_offset = 1024\<rparr>"
  "run_data (run (port_exit dir port sz m)) = m" "data_offset (port_exit dir port sz m) = 1024"
  by (simp_all add: port_exit_def data_offset_def)

lemma getIoData_port_exit [simp]:
  "sz = 1 \<or> sz = 4 \<Longrightarrow> getIoData (port_exit dir port sz m) = Some 1024"
  by (auto simp: getIoData_def data_in_mapping_def mapping_size_def port_exit_def blank_vm_def)

definition updated :: "rounds \<Rightarrow> nat \<Rightarrow> SharedBufferVmState \<Rightarrow> SharedBufferState \<Rightarrow> u8 list \<Rightarrow> u8 list \<Rightarrow> rounds" where
  "updated s i g b snt gt = s\<lparr>machines := (machines s)[i := (machines s ! i)\<lparr>sharedBuffer := g\<rparr>],
     shbuf := b, sent := snt, got := (got s)(i := gt)\<rparr>"

lemma updated_fields [simp]:
  "shbuf (updated s i g b snt gt) = b" "sent (updated s i g b snt gt) = snt"
  "got (updated s i g b snt gt) = (got s)(i := gt)" "length (machines (updated s i g b snt gt)) = length (machines s)"
  "i < length (machines s) \<Longrightarrow> part (updated s i g b snt gt) = (part s)(i := g)"
  by (auto simp: updated_def part_def fun_eq_iff nth_list_update)

lemma port_try_step:
  assumes "port_try i v s = Some (m, s')" and "i < length (machines s)" and "disciplined (machines s ! i) v"
    and "generation (shbuf s) \<noteq> - 1"
  shows "disciplined_step s s'"
  using assms by (auto simp: port_try_def intro!: disciplined_step.access split: outcome.splits prod.splits bool.splits)

lemma port_try_done:
  assumes "sharedBufferIo (part s i) (shbuf s)
      \<lparr>io_direction = dir, io_size = sz, io_port = port, io_count = 1, io_data_offset = 1024\<rparr> m 1024 =
      Done (True, g', b', m')"
    and "sz = 1 \<or> sz = 4" and "port = SHARED_BUFFER_PORT \<or> port = SHARED_BUFFER_STATUS_PORT"
  shows "port_try i (port_exit dir port sz m) s = Some (m', updated s i g' b'
    (if port = SHARED_BUFFER_PORT \<and> dir = KVM_EXIT_IO_OUT then if sz = 4 then [] else sent s @ [m 1024] else sent s)
    (if port = SHARED_BUFFER_PORT \<and> dir = KVM_EXIT_IO_IN \<and> modeDelivered (part s i)
     then if sz = 4 then [] else got s i @ [m' 1024] else got s i))"
  using assms
  by (auto simp: port_try_def handleSharedBufferIo_def Let_def part_def updated_def accessed_def sent_after_def
      got_after_def)

subsection \<open>The writer's calls succeed\<close>

definition ready_writer :: "rounds \<Rightarrow> bool" where
  "ready_writer s \<longleftrightarrow> modeDelivered (part s 0) \<and> sb_mode (part s 0) = VM_MODE_WRITER \<and>
     \<not> stopped (shbuf s) \<and> machines s \<noteq> [] \<and> generation (shbuf s) \<noteq> - 1"

text \<open>What the sending of a round leaves behind.\<close>

definition round_sent :: "rounds \<Rightarrow> u8 list \<Rightarrow> rounds \<Rightarrow> bool" where
  "round_sent s bs s' \<longleftrightarrow> dataReady (shbuf s') \<and> roundInProgress (shbuf s') \<and> \<not> stopped (shbuf s') \<and>
     sent s' = bs \<and> generation (shbuf s') = generation (shbuf s) + 1 \<and>
     length (machines s') = length (machines s) \<and>
     part s' = (part s)(0 := (part s 0)\<lparr>writeGeneration := generation (shbuf s) + 1\<rparr>) \<and> disciplined_step\<^sup>*\<^sup>* s s'"

lemma disciplined_writer: "sb_mode (part s i) = VM_MODE_WRITER \<Longrightarrow> disciplined (machines s ! i) v"
  by (simp add: disciplined_def part_def VM_MODE_WRITER_def VM_MODE_READER_def)

lemma unat_load_store [simp]: "n < 2 ^ 32 \<Longrightarrow> unat (load32 (store32 m a (of_nat n)) a) = n"
  by (simp add: mem32.ld_st_same unat_of_nat)

lemma outl_begin:
  assumes "ready_writer s" and "\<not> roundInProgress (shbuf s)" and "n < 2 ^ 32"
  defines "b' \<equiv> beginWriter_state (shbuf s) n" and "g \<equiv> generation (shbuf s) + 1"
  shows "outl 0 SHARED_BUFFER_PORT (of_nat n) s = Some (if n = 0
      then updated s 0 ((part s 0)\<lparr>writeGeneration := g\<rparr>) (notify_all (b'\<lparr>dataReady := True, generation := g\<rparr>)) [] (got s 0)
      else updated s 0 ((part s 0)\<lparr>writeGeneration := 0\<rparr>) b' [] (got s 0))"
proof -
  have io: "sharedBufferIo (part s 0) (shbuf s) \<lparr>io_direction = KVM_EXIT_IO_OUT, io_size = 4,
        io_port = SHARED_BUFFER_PORT, io_count = 1, io_data_offset = 1024\<rparr> (store32 (\<lambda>_. 0) 1024 (of_nat n)) 1024 =
      beginWriterRound (part s 0) (shbuf s) (store32 (\<lambda>_. 0) 1024 (of_nat n)) 1024"
    using assms(1) by (simp add: sharedBufferIo_def ready_writer_def)
  show ?thesis
  proof (cases "n = 0")
    case True
    have "beginWriterRound (part s 0) (shbuf s) (store32 (\<lambda>_. 0) 1024 (of_nat n)) 1024 =
        Done (True, (part s 0)\<lparr>writeGeneration := g\<rparr>, notify_all (b'\<lparr>dataReady := True, generation := g\<rparr>), store32 (\<lambda>_. 0) 1024 (of_nat n))"
      using assms(1-3) True unat_load_store [OF assms(3), of "\<lambda>_. 0" 1024]
      by (simp add: beginWriterRound_def readUint32_def ready_writer_def b'_def g_def beginWriter_state_def)
    with port_try_done [OF io [THEN trans]] show ?thesis using True by (simp add: outl_def)
  next
    case False
    have "beginWriterRound (part s 0) (shbuf s) (store32 (\<lambda>_. 0) 1024 (of_nat n)) 1024 =
        Done (True, (part s 0)\<lparr>writeGeneration := 0\<rparr>, b', store32 (\<lambda>_. 0) 1024 (of_nat n))"
      using assms(1-3) False unat_load_store [OF assms(3), of "\<lambda>_. 0" 1024]
      by (simp add: beginWriterRound_def readUint32_def ready_writer_def b'_def beginWriter_state_def)
    with port_try_done [OF io [THEN trans]] show ?thesis using False by (simp add: outl_def)
  qed
qed

lemma outb_put:
  assumes "ready_writer s" and "roundInProgress (shbuf s)" and "\<not> dataReady (shbuf s)"
    and "receivedBytes (shbuf s) < expectedBytes (shbuf s)"
  obtains b where "outb 0 SHARED_BUFFER_PORT x s = Some (if receivedBytes (shbuf s) + 1 = expectedBytes (shbuf s)
      then updated s 0 ((part s 0)\<lparr>writeGeneration := generation (shbuf s) + 1\<rparr>)
        (notify_all (b\<lparr>dataReady := True, generation := generation (shbuf s) + 1\<rparr>)) (sent s @ [x]) (got s 0)
      else updated s 0 (part s 0) b (sent s @ [x]) (got s 0))"
    "generation b = generation (shbuf s)" "dataReady b = False" "roundInProgress b" "\<not> stopped b"
    "receivedBytes b = receivedBytes (shbuf s) + 1" "expectedBytes b = expectedBytes (shbuf s)"
proof
  let ?b = "(if receivedBytes (shbuf s) < BUFFER_SIZE
     then (shbuf s)\<lparr>sb_data := (sb_data (shbuf s))[receivedBytes (shbuf s) := x]\<rparr> else shbuf s)
       \<lparr>receivedBytes := receivedBytes (shbuf s) + 1\<rparr>"
  let ?m = "(\<lambda>_. 0)(1024 := x)"
  have io: "sharedBufferIo (part s 0) (shbuf s) \<lparr>io_direction = KVM_EXIT_IO_OUT, io_size = 1,
        io_port = SHARED_BUFFER_PORT, io_count = 1, io_data_offset = 1024\<rparr> ?m 1024 =
      writeSharedByte (part s 0) (shbuf s) x ?m"
    using assms(1) by (simp add: sharedBufferIo_def ready_writer_def)
  show "outb 0 SHARED_BUFFER_PORT x s = Some (if receivedBytes (shbuf s) + 1 = expectedBytes (shbuf s)
      then updated s 0 ((part s 0)\<lparr>writeGeneration := generation (shbuf s) + 1\<rparr>)
        (notify_all (?b\<lparr>dataReady := True, generation := generation (shbuf s) + 1\<rparr>)) (sent s @ [x]) (got s 0)
      else updated s 0 (part s 0) ?b (sent s @ [x]) (got s 0))"
  proof (cases "receivedBytes (shbuf s) + 1 = expectedBytes (shbuf s)")
    case True
    have "writeSharedByte (part s 0) (shbuf s) x ?m = Done (True, (part s 0)\<lparr>writeGeneration := generation (shbuf s) + 1\<rparr>,
        notify_all (?b\<lparr>dataReady := True, generation := generation (shbuf s) + 1\<rparr>), ?m)"
      using assms True by (simp add: writeSharedByte_def ready_writer_def Let_def)
    with port_try_done [OF io [THEN trans]] show ?thesis using True by (simp add: outb_def)
  next
    case False
    have "writeSharedByte (part s 0) (shbuf s) x ?m = Done (True, part s 0, ?b, ?m)"
      using assms False by (simp add: writeSharedByte_def ready_writer_def Let_def)
    with port_try_done [OF io [THEN trans]] show ?thesis using False by (simp add: outb_def)
  qed
qed (use assms in \<open>auto simp: ready_writer_def\<close>)

lemma outb_step:
  "outb 0 port x s = Some s' \<Longrightarrow> ready_writer s \<Longrightarrow> disciplined_step s s'"
  "outl 0 port y s = Some s' \<Longrightarrow> ready_writer s \<Longrightarrow> disciplined_step s s'"
  by (auto simp: outb_def outl_def ready_writer_def intro: port_try_step disciplined_writer)

lemma send_bytes_succeeds:
  assumes "ready_writer s" and "roundInProgress (shbuf s)" and "\<not> dataReady (shbuf s)"
    and "receivedBytes (shbuf s) + length xs = expectedBytes (shbuf s)" and "xs \<noteq> []"
  shows "\<exists>s'. send_bytes 0 xs s = Some s' \<and> round_sent s (sent s @ xs) s'"
  using assms
proof (induction xs arbitrary: s)
  case (Cons x xs)
  have less: "receivedBytes (shbuf s) < expectedBytes (shbuf s)" using Cons.prems(4) by simp
  have ms: "0 < length (machines s)" using Cons.prems(1) by (simp add: ready_writer_def)
  obtain b where o: "outb 0 SHARED_BUFFER_PORT x s = Some (if receivedBytes (shbuf s) + 1 = expectedBytes (shbuf s)
      then updated s 0 ((part s 0)\<lparr>writeGeneration := generation (shbuf s) + 1\<rparr>)
        (notify_all (b\<lparr>dataReady := True, generation := generation (shbuf s) + 1\<rparr>)) (sent s @ [x]) (got s 0)
      else updated s 0 (part s 0) b (sent s @ [x]) (got s 0))"
    and b: "generation b = generation (shbuf s)" "dataReady b = False" "roundInProgress b" "\<not> stopped b"
      "receivedBytes b = receivedBytes (shbuf s) + 1" "expectedBytes b = expectedBytes (shbuf s)"
    by (rule outb_put [OF Cons.prems(1-3) less])
  note st = outb_step(1) [OF o Cons.prems(1)]
  show ?case
  proof (cases "xs = []")
    case True
    then have "receivedBytes (shbuf s) + 1 = expectedBytes (shbuf s)" using Cons.prems(4) by simp
    then show ?thesis using o b st True ms by (auto simp: round_sent_def)
  next
    case False
    then have ne: "receivedBytes (shbuf s) + 1 \<noteq> expectedBytes (shbuf s)" using Cons.prems(4) by (cases xs) auto
    let ?s = "updated s 0 (part s 0) b (sent s @ [x]) (got s 0)"
    have "ready_writer ?s" using Cons.prems(1) b ms
      by (auto simp: ready_writer_def) (metis length_0_conv updated_fields(4))
    then obtain s' where s': "send_bytes 0 xs ?s = Some s'" "round_sent ?s (sent s @ x # xs) s'"
      using Cons.IH [of ?s] False b Cons.prems(4) by auto
    have "disciplined_step s ?s" using st ne by simp
    then have "round_sent s (sent s @ x # xs) s'"
      using s'(2) b ms by (auto simp: round_sent_def intro: converse_rtranclp_into_rtranclp)
    then show ?thesis using o ne s'(1) by auto
  qed
qed simp

lemma write_shared_buffer_send_succeeds:
  assumes "ready_writer s" and "\<not> roundInProgress (shbuf s)" and "length bs < 2 ^ 32"
  shows "\<exists>s'. write_shared_buffer_send 0 bs s = Some s' \<and> round_sent s bs s'"
proof (cases "bs = []")
  case True
  have ms: "0 < length (machines s)" using assms(1) by (simp add: ready_writer_def)
  have o: "outl 0 SHARED_BUFFER_PORT 0 s = Some (updated s 0 ((part s 0)\<lparr>writeGeneration := generation (shbuf s) + 1\<rparr>)
      (notify_all ((beginWriter_state (shbuf s) 0)\<lparr>dataReady := True, generation := generation (shbuf s) + 1\<rparr>)) [] (got s 0))"
    using outl_begin [OF assms(1,2), of 0] by simp
  show ?thesis
    using o outb_step(2) [OF o assms(1)] True ms assms(1)
    by (auto simp: write_shared_buffer_send_def round_sent_def ready_writer_def beginWriter_state_def)
next
  case False
  have ms: "0 < length (machines s)" using assms(1) by (simp add: ready_writer_def)
  note o = outl_begin [OF assms]
  let ?s = "updated s 0 ((part s 0)\<lparr>writeGeneration := 0\<rparr>) (beginWriter_state (shbuf s) (length bs)) [] (got s 0)"
  have o': "outl 0 SHARED_BUFFER_PORT (of_nat (length bs)) s = Some ?s" using o False by simp
  have "ready_writer ?s" using assms(1) ms
    by (auto simp: ready_writer_def beginWriter_state_def) (metis length_0_conv updated_fields(4))
  then obtain s' where s': "send_bytes 0 bs ?s = Some s'" "round_sent ?s bs s'"
    using send_bytes_succeeds [of ?s bs] False by (auto simp: beginWriter_state_def)
  have "disciplined_step s ?s" by (rule outb_step(2) [OF o' assms(1)])
  then have "round_sent s bs s'"
    using s'(2) ms by (auto simp: round_sent_def beginWriter_state_def intro: converse_rtranclp_into_rtranclp)
  then show ?thesis using o' s'(1) by (auto simp: write_shared_buffer_send_def)
qed

subsection \<open>A reader's calls succeed\<close>

lemma rounds_ok_steps: "disciplined_step\<^sup>*\<^sup>* s s' \<Longrightarrow> rounds_ok s \<Longrightarrow> rounds_ok s'"
  by (induction rule: rtranclp_induct) (auto intro: rounds_ok_step)

lemma acknowledged_got:
  assumes "rounds_ok s" and "r \<in> {1..<length (machines s)}" and "dataReady (shbuf s)"
    and "lastReadGeneration (part s r) = generation (shbuf s)"
  shows "got s r = take BUFFER_SIZE (sent s)"
proof -
  have "reader_inv (shbuf s) (sent s) (got s r) (part s r)" "data_inv (shbuf s) (sent s)"
    using assms(1,2) by (simp_all add: rounds_ok_def round_inv_def)
  then show ?thesis using assms(3,4) by (auto simp: reader_inv_def data_inv_def min_def)
qed

definition ready_reader :: "nat \<Rightarrow> rounds \<Rightarrow> bool" where
  "ready_reader r s \<longleftrightarrow> modeDelivered (part s r) \<and> sb_mode (part s r) = VM_MODE_READER \<and>
     \<not> stopped (shbuf s) \<and> r < length (machines s) \<and> dataReady (shbuf s) \<and> generation (shbuf s) \<noteq> - 1"

lemma sb_size_bound: "rounds_ok s \<Longrightarrow> sb_size (shbuf s) \<le> BUFFER_SIZE"
  by (simp add: rounds_ok_def round_inv_def data_inv_def)

lemma inl_begin:
  assumes "ready_reader r s" and "lastReadGeneration (part s r) < generation (shbuf s)"
    and "activeReadGeneration (part s r) = lastReadGeneration (part s r)"
  shows "inl r SHARED_BUFFER_PORT s = Some (of_nat (sb_size (shbuf s)), updated s r ((part s r)\<lparr>readOffset := 0,
      activeReadGeneration := generation (shbuf s), readCompleted := False\<rparr>) (shbuf s) (sent s) [])"
proof -
  let ?g = "(part s r)\<lparr>readOffset := 0, activeReadGeneration := generation (shbuf s), readCompleted := False\<rparr>"
  let ?m = "store32 (\<lambda>_. 0) 1024 (of_nat (sb_size (shbuf s)))"
  have "sharedBufferIo (part s r) (shbuf s) \<lparr>io_direction = KVM_EXIT_IO_IN, io_size = 4,
        io_port = SHARED_BUFFER_PORT, io_count = 1, io_data_offset = 1024\<rparr> (\<lambda>_. 0) 1024 =
      Done (True, ?g, shbuf s, ?m)"
    using assms
    by (simp add: sharedBufferIo_def ready_reader_def beginReaderRound_def writeUint32_def VM_MODE_WRITER_def VM_MODE_READER_def)
  then show ?thesis
    using port_try_done assms(1) by (simp add: inl_def ready_reader_def mem32.ld_st_same)
qed

lemma inb_get:
  assumes "ready_reader r s" and "activeReadGeneration (part s r) = generation (shbuf s)"
    and "readOffset (part s r) < sb_size (shbuf s)"
  shows "\<exists>x. inb r SHARED_BUFFER_PORT s = Some (x, updated s r ((part s r)\<lparr>readOffset := readOffset (part s r) + 1\<rparr>)
      (shbuf s) (sent s) (got s r @ [x]))"
proof -
  let ?g = "(part s r)\<lparr>readOffset := readOffset (part s r) + 1\<rparr>"
  let ?x = "sb_data (shbuf s) ! readOffset (part s r)"
  have "sharedBufferIo (part s r) (shbuf s) \<lparr>io_direction = KVM_EXIT_IO_IN, io_size = 1,
        io_port = SHARED_BUFFER_PORT, io_count = 1, io_data_offset = 1024\<rparr> (\<lambda>_. 0) 1024 =
      Done (True, ?g, shbuf s, (\<lambda>_. 0)(1024 := ?x))"
    using assms
    by (simp add: sharedBufferIo_def ready_reader_def readSharedByte_def VM_MODE_WRITER_def VM_MODE_READER_def)
  then show ?thesis
    using port_try_done assms(1) by (simp add: inb_def ready_reader_def)
qed

lemma outl_finish:
  assumes "ready_reader r s" and "activeReadGeneration (part s r) = generation (shbuf s)"
    and "readOffset (part s r) = sb_size (shbuf s)" and "\<not> readCompleted (part s r)"
    and "completedReaders (shbuf s) < readerCount (shbuf s)" and "sb_size (shbuf s) \<le> BUFFER_SIZE"
  shows "outl r SHARED_BUFFER_STATUS_PORT (of_nat (sb_size (shbuf s))) s = Some (updated s r
      ((part s r)\<lparr>readCompleted := True, lastReadGeneration := generation (shbuf s), transferCompleted := True\<rparr>)
      (notify_all ((shbuf s)\<lparr>completedReaders := completedReaders (shbuf s) + 1\<rparr>)) (sent s) (got s r))"
proof -
  let ?g = "(part s r)\<lparr>readCompleted := True, lastReadGeneration := generation (shbuf s), transferCompleted := True\<rparr>"
  let ?m = "store32 (\<lambda>_. 0) 1024 (of_nat (sb_size (shbuf s)))"
  have u: "unat (load32 ?m 1024) = sb_size (shbuf s)"
    by (rule unat_load_store) (use assms(6) in \<open>simp add: BUFFER_SIZE_def\<close>)
  have "sharedBufferIo (part s r) (shbuf s) \<lparr>io_direction = KVM_EXIT_IO_OUT, io_size = 4,
        io_port = SHARED_BUFFER_STATUS_PORT, io_count = 1, io_data_offset = 1024\<rparr> ?m 1024 =
      Done (True, ?g, notify_all ((shbuf s)\<lparr>completedReaders := completedReaders (shbuf s) + 1\<rparr>), ?m)"
    using assms u
    by (simp add: sharedBufferIo_def ready_reader_def finishReaderRound_def readUint32_def shared_buffer_consts)
  then show ?thesis
    using port_try_done by (simp add: outl_def shared_buffer_consts)
qed

lemma port_disciplined:
  "disciplined c (port_exit dir SHARED_BUFFER_PORT sz m)"
  by (simp add: disciplined_def SHARED_BUFFER_PORT_def SHARED_BUFFER_STATUS_PORT_def)

lemma reader_steps:
  "inl r SHARED_BUFFER_PORT s = Some (y, s') \<Longrightarrow> ready_reader r s \<Longrightarrow> disciplined_step s s'"
  "inb r SHARED_BUFFER_PORT s = Some (x, s') \<Longrightarrow> ready_reader r s \<Longrightarrow> disciplined_step s s'"
  "outl r port z s = Some s' \<Longrightarrow> ready_reader r s \<Longrightarrow> activeReadGeneration (part s r) \<noteq> 0 \<Longrightarrow> disciplined_step s s'"
  by (auto simp: inl_def inb_def outl_def ready_reader_def intro: port_try_step port_disciplined)
    (auto simp: disciplined_def part_def intro: port_try_step)

lemma receive_bytes_succeeds:
  assumes "ready_reader r s" and "activeReadGeneration (part s r) = generation (shbuf s)"
    and "readOffset (part s r) + n \<le> sb_size (shbuf s)"
  shows "\<exists>bs s'. receive_bytes r n s = Some (bs, s') \<and> shbuf s' = shbuf s \<and> sent s' = sent s \<and>
    part s' r = (part s r)\<lparr>readOffset := readOffset (part s r) + n\<rparr> \<and> (\<forall>q. q \<noteq> r \<longrightarrow> part s' q = part s q) \<and> got s' r = got s r @ bs \<and>
    length (machines s') = length (machines s) \<and> disciplined_step\<^sup>*\<^sup>* s s'"
  using assms
proof (induction n arbitrary: s)
  case (Suc n)
  have r: "r < length (machines s)" using Suc.prems(1) by (simp add: ready_reader_def)
  let ?s = "\<lambda>x. updated s r ((part s r)\<lparr>readOffset := readOffset (part s r) + 1\<rparr>) (shbuf s) (sent s) (got s r @ [x])"
  obtain x where x: "inb r SHARED_BUFFER_PORT s = Some (x, ?s x)"
    using inb_get [OF Suc.prems(1,2)] Suc.prems(3) by auto
  have "ready_reader r (?s x)" using Suc.prems(1) r by (simp add: ready_reader_def)
  then obtain bs s' where *: "receive_bytes r n (?s x) = Some (bs, s')" "shbuf s' = shbuf s" "sent s' = sent s"
    "part s' r = (part s r)\<lparr>readOffset := readOffset (part s r) + Suc n\<rparr>" "\<forall>q. q \<noteq> r \<longrightarrow> part s' q = part s q" "got s' r = got s r @ x # bs"
    "length (machines s') = length (machines s)" "disciplined_step\<^sup>*\<^sup>* (?s x) s'"
    using Suc.IH [of "?s x"] Suc.prems(2,3) r by auto
  have "disciplined_step\<^sup>*\<^sup>* s s'"
    by (rule converse_rtranclp_into_rtranclp [OF reader_steps(2) [OF x Suc.prems(1)] *(8)])
  then show ?case using x * by auto
qed simp

text \<open>The whole of \<^verbatim>\<open>read_shared_buffer\<close>'s port sequence, for a reader that has not begun this round.\<close>

lemma read_shared_buffer_succeeds:
  assumes ok: "rounds_ok s" and r: "r \<in> {1..<length (machines s)}" and ready: "ready_reader r s"
    and new: "lastReadGeneration (part s r) \<noteq> generation (shbuf s)"
    and act: "activeReadGeneration (part s r) = lastReadGeneration (part s r)"
  shows "\<exists>s'. read_shared_buffer r s = Some (Some (take BUFFER_SIZE (sent s)), s') \<and>
    shbuf s' = notify_all ((shbuf s)\<lparr>completedReaders := completedReaders (shbuf s) + 1\<rparr>) \<and> sent s' = sent s \<and>
    (\<forall>q. q \<noteq> r \<longrightarrow> part s' q = part s q) \<and> length (machines s') = length (machines s) \<and> disciplined_step\<^sup>*\<^sup>* s s' \<and>
    modeDelivered (part s' r) \<and> lastReadGeneration (part s' r) = generation (shbuf s) \<and> activeReadGeneration (part s' r) = generation (shbuf s) \<and>
    (\<exists>s2 x. disciplined_step\<^sup>*\<^sup>* s s2 \<and> length (machines s2) = length (machines s) \<and> sent s2 = sent s \<and>
       activeReadGeneration (part s2 r) \<noteq> 0 \<and> outl r SHARED_BUFFER_STATUS_PORT x s2 = Some s')"
proof -
  let ?n = "sb_size (shbuf s)" and ?gen = "generation (shbuf s)"
  have inv: "round_inv 0 {1..<length (machines s)} (part s) (shbuf s) (sent s) (got s)"
    using ok by (simp add: rounds_ok_def)
  then have ri: "reader_inv (shbuf s) (sent s) (got s r) (part s r)" using r by (simp add: round_inv_def)
  have rl: "r < length (machines s)" using r by simp
  have less: "lastReadGeneration (part s r) < ?gen" using ri new by (auto simp: reader_inv_def)
  have gen: "?gen \<noteq> 0" using less by auto
  define g1 where "g1 = (part s r)\<lparr>readOffset := 0, activeReadGeneration := ?gen, readCompleted := False\<rparr>"
  define s1 where "s1 = updated s r g1 (shbuf s) (sent s) []"
  have b: "inl r SHARED_BUFFER_PORT s = Some (of_nat ?n, s1)"
    unfolding s1_def g1_def by (rule inl_begin [OF ready less act])
  have r1: "ready_reader r s1" "part s1 = (part s)(r := g1)" using ready rl by (simp_all add: ready_reader_def s1_def g1_def)
  obtain bs s2 where rec: "receive_bytes r ?n s1 = Some (bs, s2)" "shbuf s2 = shbuf s" "sent s2 = sent s"
    "part s2 r = g1\<lparr>readOffset := ?n\<rparr>" "\<forall>q. q \<noteq> r \<longrightarrow> part s2 q = part s q" "got s2 r = bs" "length (machines s2) = length (machines s)"
    "disciplined_step\<^sup>*\<^sup>* s1 s2"
  proof -
    have s1: "shbuf s1 = shbuf s" "sent s1 = sent s" "got s1 r = []" "length (machines s1) = length (machines s)"
      "part s1 r = g1" "\<And>q. q \<noteq> r \<Longrightarrow> part s1 q = part s q"
      using rl by (simp_all add: s1_def)
    have g: "activeReadGeneration g1 = ?gen" "readOffset g1 = 0" by (simp_all add: g1_def)
    have "activeReadGeneration (part s1 r) = generation (shbuf s1)" "readOffset (part s1 r) + ?n \<le> sb_size (shbuf s1)"
      by (simp_all add: s1 g)
    from receive_bytes_succeeds [OF r1(1) this] obtain bs s2 where *: "receive_bytes r (sb_size (shbuf s1)) s1 = Some (bs, s2)"
      "shbuf s2 = shbuf s1" "sent s2 = sent s1" "part s2 r = (part s1 r)\<lparr>readOffset := readOffset (part s1 r) + sb_size (shbuf s1)\<rparr>"
      "\<forall>q. q \<noteq> r \<longrightarrow> part s2 q = part s1 q" "got s2 r = got s1 r @ bs" "length (machines s2) = length (machines s1)"
      "disciplined_step\<^sup>*\<^sup>* s1 s2" unfolding s1(1) by metis
    have q: "\<forall>q. q \<noteq> r \<longrightarrow> part s2 q = part s q" using *(5) s1(6) by metis
    have o: "part s2 r = g1\<lparr>readOffset := ?n\<rparr>" using *(4) unfolding s1 g by simp
    have l: "got s2 r = bs" "length (machines s2) = length (machines s)" using *(6,7) s1(3,4) by simp_all
    show thesis
      by (rule that [OF *(1) [unfolded s1] *(2) [unfolded s1] *(3) [unfolded s1] o q l *(8)])
  qed
  have "r \<notin> acknowledged {1..<length (machines s)} (part s) ?gen" using new by (simp add: acknowledged_def)
  moreover have "acknowledged {1..<length (machines s)} (part s) ?gen \<subseteq> {1..<length (machines s)}"
    by (simp only: acknowledged_def Collect_subset)
  ultimately have "acknowledged {1..<length (machines s)} (part s) ?gen \<subset> {1..<length (machines s)}"
    using r by (metis psubsetI)
  then have "card (acknowledged {1..<length (machines s)} (part s) ?gen) < card {1..<length (machines s)}"
    by (intro psubset_card_mono) auto
  then have cnt: "completedReaders (shbuf s) < readerCount (shbuf s)"
    using inv ready by (simp add: round_inv_def ready_reader_def)
  define s3 where "s3 = updated s2 r (g1\<lparr>readOffset := ?n, readCompleted := True, lastReadGeneration := ?gen,
    transferCompleted := True\<rparr>) (notify_all ((shbuf s)\<lparr>completedReaders := completedReaders (shbuf s) + 1\<rparr>)) (sent s) bs"
  have r2: "ready_reader r s2" using ready rec by (simp add: ready_reader_def g1_def)
  have f: "outl r SHARED_BUFFER_STATUS_PORT (of_nat ?n) s2 = Some s3"
    using outl_finish [OF r2] rec cnt sb_size_bound [OF ok] by (simp add: g1_def s3_def)
  have act2: "activeReadGeneration (part s2 r) \<noteq> 0" by (simp add: rec g1_def gen)
  have steps2: "disciplined_step\<^sup>*\<^sup>* s s2"
    by (rule converse_rtranclp_into_rtranclp [OF reader_steps(1) [OF b ready] rec(8)])
  with reader_steps(3) [OF f r2 act2] have steps: "disciplined_step\<^sup>*\<^sup>* s s3" by simp
  have "got s3 r = take BUFFER_SIZE (sent s3)"
    using acknowledged_got [OF rounds_ok_steps [OF steps ok], of r] r rec(7) rl ready by (simp add: s3_def ready_reader_def)
  then have "bs = take BUFFER_SIZE (sent s)" by (simp add: s3_def)
  moreover have "unat (of_nat ?n :: u32) = ?n" using sb_size_bound [OF ok] by (simp add: unat_of_nat BUFFER_SIZE_def)
  ultimately have "read_shared_buffer r s = Some (Some (take BUFFER_SIZE (sent s)), s3)"
    using b rec(1) f sb_size_bound [OF ok] by (simp add: read_shared_buffer_def)
  moreover have "\<forall>q. q \<noteq> r \<longrightarrow> part s3 q = part s q" using rec(4,5,7) rl by (simp add: s3_def)
  moreover have "\<exists>s2 x. disciplined_step\<^sup>*\<^sup>* s s2 \<and> length (machines s2) = length (machines s) \<and> sent s2 = sent s \<and>
       activeReadGeneration (part s2 r) \<noteq> 0 \<and> outl r SHARED_BUFFER_STATUS_PORT x s2 = Some s3"
    using steps2 rec(3,7) act2 f by blast
  moreover have "modeDelivered (part s3 r)" "lastReadGeneration (part s3 r) = ?gen" "activeReadGeneration (part s3 r) = ?gen"
    using rec(7) rl ready by (simp_all add: s3_def g1_def ready_reader_def)
  ultimately show ?thesis using steps rec(7) by (auto simp: s3_def)
qed

subsection \<open>A whole round\<close>

fun all_read :: "nat list \<Rightarrow> rounds \<Rightarrow> (u8 list option list \<times> rounds) option" where
  "all_read [] s = Some ([], s)"
| "all_read (r # rs) s =
     (case read_shared_buffer r s of None \<Rightarrow> None | Some (x, s) \<Rightarrow>
        (case all_read rs s of None \<Rightarrow> None | Some (xs, s) \<Rightarrow> Some (x # xs, s)))"

definition broadcast :: "u8 list \<Rightarrow> nat list \<Rightarrow> rounds \<Rightarrow> (u32 \<times> u8 list option list \<times> rounds) option" where
  "broadcast bs rs s =
     (case write_shared_buffer_send 0 bs s of None \<Rightarrow> None | Some s \<Rightarrow>
      case all_read rs s of None \<Rightarrow> None | Some (xs, s) \<Rightarrow>
      map_option (\<lambda>(written, s). (written, xs, s)) (write_shared_buffer_wait 0 s))"

definition waiting :: "nat \<Rightarrow> rounds \<Rightarrow> bool" where
  "waiting r s \<longleftrightarrow> ready_reader r s \<and> r \<in> {1..<length (machines s)} \<and>
     lastReadGeneration (part s r) \<noteq> generation (shbuf s) \<and>
     activeReadGeneration (part s r) = lastReadGeneration (part s r)"

lemma all_read_succeeds:
  assumes "rounds_ok s" and "\<forall>r\<in>set rs. waiting r s" and "distinct rs"
  shows "\<exists>s'. all_read rs s = Some (replicate (length rs) (Some (take BUFFER_SIZE (sent s))), s') \<and>
    (\<exists>C. shbuf s' = (shbuf s)\<lparr>completedReaders := completedReaders (shbuf s) + length rs, condition := C\<rparr>) \<and> sent s' = sent s \<and>
    (\<forall>q. q \<notin> set rs \<longrightarrow> part s' q = part s q) \<and> length (machines s') = length (machines s) \<and> disciplined_step\<^sup>*\<^sup>* s s'"
  using assms
proof (induction rs arbitrary: s)
  case Nil
  have "shbuf s = (shbuf s)\<lparr>completedReaders := completedReaders (shbuf s) + length [], condition := condition (shbuf s)\<rparr>" by simp
  then show ?case by (intro exI [of _ s] conjI exI [of _ "condition (shbuf s)"]) simp_all
next
  case (Cons r rs)
  have "waiting r s" using Cons.prems(2) by simp
  then have w: "r \<in> {1..<length (machines s)}" "ready_reader r s" "lastReadGeneration (part s r) \<noteq> generation (shbuf s)"
    "activeReadGeneration (part s r) = lastReadGeneration (part s r)" by (auto simp: waiting_def)
  obtain s1 where s1: "read_shared_buffer r s = Some (Some (take BUFFER_SIZE (sent s)), s1)"
    "shbuf s1 = notify_all ((shbuf s)\<lparr>completedReaders := completedReaders (shbuf s) + 1\<rparr>)" "sent s1 = sent s"
    "\<forall>q. q \<noteq> r \<longrightarrow> part s1 q = part s q" "length (machines s1) = length (machines s)" "disciplined_step\<^sup>*\<^sup>* s s1"
    using read_shared_buffer_succeeds [OF Cons.prems(1) w] by auto
  have "rounds_ok s1" by (rule rounds_ok_steps [OF s1(6) Cons.prems(1)])
  moreover have "waiting q s1" if "q \<in> set rs" for q
  proof -
    have "waiting q s" "q \<noteq> r" using Cons.prems(2,3) that by auto
    moreover from this have "part s1 q = part s q" using s1(4) by simp
    ultimately show ?thesis using s1(2,5) by (simp add: waiting_def ready_reader_def)
  qed
  ultimately obtain s2 C where s2: "all_read rs s1 = Some (replicate (length rs) (Some (take BUFFER_SIZE (sent s1))), s2)"
    "shbuf s2 = (shbuf s1)\<lparr>completedReaders := completedReaders (shbuf s1) + length rs, condition := C\<rparr>" "sent s2 = sent s1"
    "\<forall>q. q \<notin> set rs \<longrightarrow> part s2 q = part s1 q" "length (machines s2) = length (machines s1)" "disciplined_step\<^sup>*\<^sup>* s1 s2"
    using Cons.IH [of s1] Cons.prems(3) by auto
  have "disciplined_step\<^sup>*\<^sup>* s s2" by (rule rtranclp_trans [OF s1(6) s2(6)])
  moreover have "shbuf s2 = (shbuf s)\<lparr>completedReaders := completedReaders (shbuf s) + length (r # rs), condition := C\<rparr>"
    using s1(2) s2(2) by (simp add: notify_all_def)
  ultimately show ?case using s1 s2(1,3-6) by (intro exI [of _ s2] conjI exI [of _ C]) auto
qed

lemma inl_finish:
  assumes "ready_writer s" and "dataReady (shbuf s)" and "completedReaders (shbuf s) = readerCount (shbuf s)"
    and "writeGeneration (part s 0) = generation (shbuf s)" and "generation (shbuf s) \<noteq> 0"
  shows "inl 0 SHARED_BUFFER_STATUS_PORT s = Some (of_nat (sb_size (shbuf s)), updated s 0
      ((part s 0)\<lparr>writeGeneration := 0, transferCompleted := True\<rparr>) (notify_all ((shbuf s)\<lparr>roundInProgress := False\<rparr>))
      (sent s) (got s 0))"
proof -
  let ?m = "store32 (\<lambda>_. 0) 1024 (of_nat (sb_size (shbuf s)))"
  have "sharedBufferIo (part s 0) (shbuf s) \<lparr>io_direction = KVM_EXIT_IO_IN, io_size = 4,
        io_port = SHARED_BUFFER_STATUS_PORT, io_count = 1, io_data_offset = 1024\<rparr> (\<lambda>_. 0) 1024 =
      Done (True, (part s 0)\<lparr>writeGeneration := 0, transferCompleted := True\<rparr>, notify_all ((shbuf s)\<lparr>roundInProgress := False\<rparr>), ?m)"
    using assms
    by (simp add: sharedBufferIo_def ready_writer_def finishWriterRound_def writeUint32_def shared_buffer_consts)
  then show ?thesis
    using port_try_done by (simp add: inl_def mem32.ld_st_same shared_buffer_consts)
qed

lemma waiting_after_send:
  assumes ok: "rounds_ok s" and idle: "\<not> roundInProgress (shbuf s)" and sent: "round_sent s bs s1"
    and modes: "\<forall>r<length (machines s). modeDelivered (part s r)"
    and gen: "generation (shbuf s) \<noteq> - 1" "generation (shbuf s) + 1 \<noteq> - 1" and r: "r \<in> {1..<length (machines s)}"
  shows "waiting r s1" and "lastReadGeneration (part s1 r) \<noteq> generation (shbuf s) + 1"
proof -
  have ri: "reader_inv (shbuf s) (sent s) (got s r) (part s r)" and
    l: "lastReadGeneration (part s r) = generation (shbuf s)"
    using ok idle r by (simp_all add: rounds_ok_def round_inv_def)
  then have "activeReadGeneration (part s r) = generation (shbuf s)" "sb_mode (part s r) = VM_MODE_READER"
    by (auto simp: reader_inv_def)
  moreover have p: "part s1 r = part s r" using sent r by (simp add: round_sent_def)
  moreover note word_le_succ(2) [OF order_refl gen(1)]
  ultimately show "waiting r s1" "lastReadGeneration (part s1 r) \<noteq> generation (shbuf s) + 1"
    using sent modes r l gen(2) by (simp_all add: waiting_def ready_reader_def round_sent_def)
qed

lemma broadcast_succeeds:
  assumes ok: "rounds_ok s" and w: "ready_writer s" and idle: "\<not> roundInProgress (shbuf s)"
    and "length bs < 2 ^ 32" and modes: "\<forall>r<length (machines s). modeDelivered (part s r)"
    and gen: "generation (shbuf s) + 1 \<noteq> - 1"
    and rs: "distinct rs" "set rs = {1..<length (machines s)}"
  shows "\<exists>s'. broadcast bs rs s =
      Some (of_nat (min (length bs) BUFFER_SIZE), replicate (length rs) (Some (take BUFFER_SIZE bs)), s') \<and>
    \<not> roundInProgress (shbuf s') \<and> disciplined_step\<^sup>*\<^sup>* s s' \<and>
    (\<exists>s2. disciplined_step\<^sup>*\<^sup>* s s2 \<and> length (machines s2) = length (machines s) \<and> sent s2 = bs \<and>
       write_shared_buffer_wait 0 s2 = Some (of_nat (min (length bs) BUFFER_SIZE), s'))"
proof -
  let ?R = "{1..<length (machines s)}" and ?gen = "generation (shbuf s)"
  have inv: "round_inv 0 ?R (part s) (shbuf s) (sent s) (got s)" using ok by (simp add: rounds_ok_def)
  obtain s1 where s1: "write_shared_buffer_send 0 bs s = Some s1" "round_sent s bs s1"
    using write_shared_buffer_send_succeeds [OF w idle assms(4)] by auto
  have ok1: "rounds_ok s1" using s1(2) ok rounds_ok_steps by (auto simp: round_sent_def)
  have b1: "dataReady (shbuf s1)" "\<not> stopped (shbuf s1)" "sent s1 = bs" "generation (shbuf s1) = ?gen + 1"
    "length (machines s1) = length (machines s)" "writeGeneration (part s1 0) = ?gen + 1"
    "\<And>r. r \<noteq> 0 \<Longrightarrow> part s1 r = part s r" "part s1 0 = (part s 0)\<lparr>writeGeneration := ?gen + 1\<rparr>" "disciplined_step\<^sup>*\<^sup>* s s1"
    using s1(2) by (simp_all add: round_sent_def)
  have "?gen \<noteq> - 1" using w by (simp add: ready_writer_def)
  note g = word_le_succ [OF order_refl this]
  note after = waiting_after_send [OF ok idle s1(2) modes \<open>?gen \<noteq> - 1\<close> gen]
  have wait: "waiting r s1" if "r \<in> set rs" for r using after(1) rs(2) that by simp
  obtain s2 C where s2: "all_read rs s1 = Some (replicate (length rs) (Some (take BUFFER_SIZE (sent s1))), s2)"
    "shbuf s2 = (shbuf s1)\<lparr>completedReaders := completedReaders (shbuf s1) + length rs, condition := C\<rparr>"
    "\<forall>q. q \<notin> set rs \<longrightarrow> part s2 q = part s1 q" "length (machines s2) = length (machines s1)" "disciplined_step\<^sup>*\<^sup>* s1 s2"
    "sent s2 = sent s1"
    using all_read_succeeds [OF ok1 _ rs(1)] wait by auto
  have inv1: "round_inv 0 ?R (part s1) (shbuf s1) bs (got s1)" using ok1 b1 by (simp add: rounds_ok_def)
  have "acknowledged ?R (part s1) (?gen + 1) = {}"
    by (rule acknowledged_none) (use after(2) in blast)
  then have "completedReaders (shbuf s1) = 0" using inv1 b1 by (simp add: round_inv_def)
  moreover have "length rs = length (machines s) - 1" using rs by (metis card_atLeastLessThan distinct_card)
  moreover have "readerCount (shbuf s1) = length (machines s) - 1" using inv1 by (simp add: round_inv_def)
  ultimately have all: "completedReaders (shbuf s2) = readerCount (shbuf s2)" using s2(2) by simp
  have "0 \<notin> set rs" using rs by simp
  then have p0: "part s2 0 = part s1 0" using s2(3) by simp
  have "ready_writer s2" using w b1 s2(2,4) p0 gen by (auto simp: ready_writer_def)
  note f = inl_finish [OF this]
  have sz: "sb_size (shbuf s2) = min (length bs) BUFFER_SIZE"
    using inv1 b1 s2(2) by (simp add: round_inv_def data_inv_def)
  define s3 where "s3 = updated s2 0 ((part s2 0)\<lparr>writeGeneration := 0, transferCompleted := True\<rparr>)
    (notify_all ((shbuf s2)\<lparr>roundInProgress := False\<rparr>)) (sent s2) (got s2 0)"
  have f3: "inl 0 SHARED_BUFFER_STATUS_PORT s2 = Some (of_nat (min (length bs) BUFFER_SIZE), s3)"
    unfolding s3_def sz [symmetric]
    by (rule f) (use b1 s2(2) p0 all g(3) in auto)
  have "disciplined_step s2 s3"
    using f3 \<open>ready_writer s2\<close>
    by (auto simp: inl_def ready_writer_def intro: port_try_step disciplined_writer)
  then have "disciplined_step\<^sup>*\<^sup>* s s3" using b1(9) s2(5) by (meson rtranclp.rtrancl_into_rtrancl rtranclp_trans)
  moreover have "broadcast bs rs s =
      Some (of_nat (min (length bs) BUFFER_SIZE), replicate (length rs) (Some (take BUFFER_SIZE bs)), s3)"
    using s1(1) s2(1) f3 b1(3) by (simp add: broadcast_def write_shared_buffer_wait_def)
  moreover have "\<not> roundInProgress (shbuf s3)" by (simp add: s3_def)
  moreover have "disciplined_step\<^sup>*\<^sup>* s s2" by (rule rtranclp_trans [OF b1(9) s2(5)])
  moreover have "length (machines s2) = length (machines s)" "sent s2 = bs" using s2(4,6) b1 by simp_all
  ultimately show ?thesis using f3 unfolding write_shared_buffer_wait_def by blast
qed

subsection \<open>The first interrupt: modes\<close>

fun read_modes :: "nat list \<Rightarrow> rounds \<Rightarrow> (u8 list \<times> rounds) option" where
  "read_modes [] s = Some ([], s)"
| "read_modes (i # is) s =
     (case inb i SHARED_BUFFER_PORT s of None \<Rightarrow> None | Some (x, s) \<Rightarrow>
        (case read_modes is s of None \<Rightarrow> None | Some (xs, s) \<Rightarrow> Some (x # xs, s)))"

lemma inb_mode:
  assumes "\<not> modeDelivered (part s i)"
  shows "inb i SHARED_BUFFER_PORT s = Some (sb_mode (part s i),
    updated s i ((part s i)\<lparr>modeDelivered := True\<rparr>) (shbuf s) (sent s) (got s i))"
proof -
  have "sharedBufferIo (part s i) (shbuf s) \<lparr>io_direction = KVM_EXIT_IO_IN, io_size = 1,
        io_port = SHARED_BUFFER_PORT, io_count = 1, io_data_offset = 1024\<rparr> (\<lambda>_. 0) 1024 =
      Done (True, (part s i)\<lparr>modeDelivered := True\<rparr>, shbuf s, (\<lambda>_. 0)(1024 := sb_mode (part s i)))"
    using assms by (simp add: sharedBufferIo_def deliverMode_def)
  then show ?thesis using port_try_done assms by (simp add: inb_def)
qed

lemma read_modes_succeeds:
  assumes "distinct is" and "\<forall>i\<in>set is. i < length (machines s) \<and> \<not> modeDelivered (part s i)"
    and "generation (shbuf s) \<noteq> - 1"
  shows "\<exists>s'. read_modes is s = Some (map (\<lambda>i. sb_mode (part s i)) is, s') \<and> shbuf s' = shbuf s \<and>
    (\<forall>i. part s' i = (if i \<in> set is then (part s i)\<lparr>modeDelivered := True\<rparr> else part s i)) \<and>
    length (machines s') = length (machines s) \<and> disciplined_step\<^sup>*\<^sup>* s s'"
  using assms
proof (induction "is" arbitrary: s)
  case (Cons i "is")
  let ?s = "updated s i ((part s i)\<lparr>modeDelivered := True\<rparr>) (shbuf s) (sent s) (got s i)"
  have i: "i < length (machines s)" "\<not> modeDelivered (part s i)" using Cons.prems(2) by auto
  note x = inb_mode [OF i(2)]
  have p: "part ?s j = (if j = i then (part s i)\<lparr>modeDelivered := True\<rparr> else part s j)" for j using i by simp
  have "\<forall>j\<in>set is. j < length (machines ?s) \<and> \<not> modeDelivered (part ?s j)"
    using Cons.prems(1,2) p by auto
  then obtain s' where s': "read_modes is ?s = Some (map (\<lambda>i. sb_mode (part ?s i)) is, s')" "shbuf s' = shbuf s"
    "\<And>j. part s' j = (if j \<in> set is then (part ?s j)\<lparr>modeDelivered := True\<rparr> else part ?s j)"
    "length (machines s') = length (machines s)" "disciplined_step\<^sup>*\<^sup>* ?s s'"
    using Cons.IH [of ?s] Cons.prems(1,3) by auto
  have "disciplined_step s ?s"
    using x i Cons.prems(3) by (auto simp: inb_def intro: port_try_step port_disciplined)
  then have st: "disciplined_step\<^sup>*\<^sup>* s s'" using s'(5) by (rule converse_rtranclp_into_rtranclp)
  have "map (\<lambda>i. sb_mode (part ?s i)) is = map (\<lambda>i. sb_mode (part s i)) is" by (simp add: p)
  then have "read_modes (i # is) s = Some (map (\<lambda>i. sb_mode (part s i)) (i # is), s')" using x s'(1) by simp
  moreover have "part s' j = (if j \<in> set (i # is) then (part s j)\<lparr>modeDelivered := True\<rparr> else part s j)" for j
    unfolding s'(3) p by simp
  ultimately show ?case using s'(2,4) st by blast
qed simp

lemma booted_rounds:
  assumes "configured ms b"
  obtains s where "read_modes [0..<length ms] (start_rounds ms b) =
      Some (VM_MODE_WRITER # replicate (length ms - 1) VM_MODE_READER, s)"
    "reachable_disciplined ms b s" "ready_writer s" "shbuf s = b" "\<forall>r<length ms. modeDelivered (part s r)" "length (machines s) = length ms"
proof -
  let ?s = "start_rounds ms b"
  have p: "part ?s i = initial_SharedBufferVmState\<lparr>sb_mode := if i = 0 then VM_MODE_WRITER else VM_MODE_READER\<rparr>"
    if "i < length ms" for i using assms that by (simp add: configured_def start_rounds_def part_def)
  have b: "generation (shbuf ?s) = 0" "\<not> stopped (shbuf ?s)" "shbuf ?s = b" "machines ?s = ms" "ms \<noteq> []"
    using assms by (auto simp: configured_def start_rounds_def initial_SharedBufferState_def)
  have "\<forall>i\<in>set [0..<length ms]. i < length (machines ?s) \<and> \<not> modeDelivered (part ?s i)"
    using p b(4) by (simp add: initial_SharedBufferVmState_def)
  then obtain s where s: "read_modes [0..<length ms] ?s = Some (map (\<lambda>i. sb_mode (part ?s i)) [0..<length ms], s)"
    "shbuf s = b" "\<And>i. part s i = (if i < length ms then (part ?s i)\<lparr>modeDelivered := True\<rparr> else part ?s i)"
    "length (machines s) = length ms" "disciplined_step\<^sup>*\<^sup>* ?s s"
    using read_modes_succeeds [of "[0..<length ms]" ?s] b by auto
  obtain n where n: "length ms = Suc n" using b(5) by (cases ms) auto
  have "map (\<lambda>i. sb_mode (part ?s i)) [0..<length ms] =
      map (\<lambda>i. if i = 0 then VM_MODE_WRITER else VM_MODE_READER) [0..<length ms]"
    using p by (simp add: initial_SharedBufferVmState_def)
  also have "\<dots> = VM_MODE_WRITER # replicate (length ms - 1) VM_MODE_READER"
  proof -
    have "map (\<lambda>i. if i = 0 then VM_MODE_WRITER else VM_MODE_READER) [1..<Suc n] = replicate n VM_MODE_READER"
      by (rule nth_equalityI) (simp_all del: upt_Suc)
    then show ?thesis unfolding n by (simp add: upt_conv_Cons del: upt_Suc)
  qed
  finally have m: "map (\<lambda>i. sb_mode (part ?s i)) [0..<length ms] = VM_MODE_WRITER # replicate (length ms - 1) VM_MODE_READER" .
  have "reachable_disciplined ms b s" using assms s(5) by (simp add: reachable_disciplined_def)
  moreover have "ready_writer s" using s p [of 0] b n by (auto simp: ready_writer_def)
  moreover have "\<forall>r<length ms. modeDelivered (part s r)" using s(3) by simp
  ultimately show thesis using that s(1,2,4) m by simp
qed

subsection \<open>Properties\<close>

text \<open>A writer and two readers.\<close>

definition three_machines :: "GuestContext list" where
  "three_machines = map (\<lambda>i. initial_GuestContext\<lparr>gid := i, sharedBuffer := initial_SharedBufferVmState
     \<lparr>sb_mode := if i = 0 then VM_MODE_WRITER else VM_MODE_READER\<rparr>\<rparr>) [0..<3]"

definition three_buffer :: SharedBufferState where
  "three_buffer = initial_SharedBufferState\<lparr>readerCount := 2\<rparr>"

lemma configured_three: "configured three_machines three_buffer"
  by (auto simp: configured_def three_machines_def three_buffer_def less_Suc_eq numeral_eq_Suc)

lemma three_booted:
  obtains s where "reachable_disciplined three_machines three_buffer s" "ready_writer s" "shbuf s = three_buffer"
    "\<forall>r<3. modeDelivered (part s r)" "length (machines s) = 3"
  by (rule booted_rounds [OF configured_three]) (use that in \<open>simp add: three_machines_def\<close>)

text \<open>
  C3. The rendezvous, for disciplined readers: provided no reader has acknowledged anything
  before it began its first round (the premise \<open>reachable_disciplined\<close>; see
  \<open>premature_acknowledgement_accepted\<close> for what happens otherwise), whatever else the machines
  have done so far and in whatever order, when the writer's status read succeeds then every
  reader has acknowledged this round, every reader was handed exactly the first 256 bytes the
  writer sent, and the number the writer is told is the number of these bytes.
\<close>

theorem writer_completes_after_readers:
  assumes "reachable_disciplined ms b s"
    and "handleSharedBufferIo (machines s ! 0) (shbuf s) v = Done (True, c', b', v')"
    and "io_port (io (run v)) = SHARED_BUFFER_STATUS_PORT"
  shows "load32 (run_data (run v')) (data_offset v) = of_nat (min (length (sent s)) BUFFER_SIZE) \<and>
    (\<forall>r\<in>{1..<length (machines s)}. lastReadGeneration (part s r) = generation (shbuf s) \<and>
       got s r = take BUFFER_SIZE (sent s))"
proof -
  have ok: "rounds_ok s" by (rule reachable_disciplined_ok [OF assms(1)])
  then have inv: "round_inv 0 {1..<length (machines s)} (part s) (shbuf s) (sent s) (got s)"
    by (simp add: rounds_ok_def)
  then have w: "sb_mode (part s 0) = VM_MODE_WRITER" by (simp add: round_inv_def writer_inv_def)
  have ports: "SHARED_BUFFER_STATUS_PORT \<noteq> SHARED_BUFFER_PORT" "VM_MODE_WRITER \<noteq> VM_MODE_READER"
    by (simp_all add: shared_buffer_consts)
  obtain g' m' where io: "sharedBufferIo (part s 0) (shbuf s) (io (run v)) (run_data (run v)) (data_offset v) = Done (True, g', b', m')"
    and v': "v' = set_run_data v m'"
    by (rule handle_success [OF assms(2)]) (simp add: part_def)
  from io show ?thesis
  proof (cases rule: sharedBufferIo_cases)
    case finish_write
    have all: "\<forall>r\<in>{1..<length (machines s)}. lastReadGeneration (part s r) = generation (shbuf s)"
      by (rule round_inv_finish_write(1) [OF inv finish_write(8,10)])
    then have "\<forall>r\<in>{1..<length (machines s)}. got s r = take BUFFER_SIZE (sent s)"
      using acknowledged_got [OF ok _ finish_write(8)] by blast
    moreover have "sb_size (shbuf s) = min (length (sent s)) BUFFER_SIZE"
      using inv finish_write(8) by (simp add: round_inv_def data_inv_def)
    ultimately show ?thesis using all finish_write(13) by (simp add: v' mem32.ld_st_same)
  qed (use assms(3) w ports in simp_all)
qed

theorem writer_completes_after_readers_witness:
  "\<exists>s. reachable_disciplined three_machines three_buffer s \<and> got s 1 = [5, 6] \<and> got s 2 = [5, 6] \<and>
     lastReadGeneration (part s 2) = generation (shbuf s)"
proof -
  obtain s where s: "reachable_disciplined three_machines three_buffer s" "ready_writer s" "shbuf s = three_buffer"
    "\<forall>r<3. modeDelivered (part s r)" "length (machines s) = 3" by (rule three_booted)
  have "\<not> roundInProgress (shbuf s)" "generation (shbuf s) + 1 \<noteq> - 1"
    by (simp_all add: s(3) three_buffer_def initial_SharedBufferState_def)
  moreover have "set [1, 2] = {1..<length (machines s)}" by (auto simp: s(5))
  ultimately obtain s2 s' where s2: "disciplined_step\<^sup>*\<^sup>* s s2" "length (machines s2) = 3" "sent s2 = [5, 6]"
    "write_shared_buffer_wait 0 s2 = Some (2, s')"
    using broadcast_succeeds [OF reachable_disciplined_ok [OF s(1)] s(2), of "[5, 6]" "[1, 2]"] s(4,5)
    by (auto simp: BUFFER_SIZE_def)
  let ?v = "port_exit KVM_EXIT_IO_IN SHARED_BUFFER_STATUS_PORT 4 (\<lambda>_. 0)"
  obtain c' b' v' where h: "handleSharedBufferIo (machines s2 ! 0) (shbuf s2) ?v = Done (True, c', b', v')"
    using s2(4) by (auto simp: write_shared_buffer_wait_def inl_def port_try_def split: outcome.splits prod.splits bool.splits)
  have r: "reachable_disciplined three_machines three_buffer s2"
    using s(1) s2(1) by (auto simp: reachable_disciplined_def)
  have "\<forall>r\<in>{1..<length (machines s2)}. lastReadGeneration (part s2 r) = generation (shbuf s2) \<and>
      got s2 r = take BUFFER_SIZE (sent s2)"
    using writer_completes_after_readers [OF r h] by simp
  then show ?thesis using r s2(2,3) by (auto simp: BUFFER_SIZE_def)
qed

text \<open>
  C23. A reader's acknowledgement is truthful, provided no reader at all, this one or another,
  has acknowledged anything before it began its first round (\<open>reachable_disciplined\<close>; a premature
  acknowledgement by one reader can end a round under another): when the host then accepts the
  byte count of a reader that has begun a round, the round's data was complete, the reader was
  handed exactly the bytes the writer sent (the first 256 of them), and the count it reported
  is their number.
\<close>

theorem acknowledgement_is_truthful:
  assumes "reachable_disciplined ms b s" and "r \<in> {1..<length (machines s)}"
    and "activeReadGeneration (part s r) \<noteq> 0"
    and "handleSharedBufferIo (machines s ! r) (shbuf s) v = Done (True, c', b', v')"
    and "io_port (io (run v)) = SHARED_BUFFER_STATUS_PORT"
  shows "dataReady (shbuf s) \<and> got s r = take BUFFER_SIZE (sent s) \<and>
    unat (load32 (run_data (run v)) (data_offset v)) = length (got s r) \<and>
    transferCompleted (sharedBuffer c')"
proof -
  have ok: "rounds_ok s" by (rule reachable_disciplined_ok [OF assms(1)])
  then have inv: "round_inv 0 {1..<length (machines s)} (part s) (shbuf s) (sent s) (got s)"
    by (simp add: rounds_ok_def)
  then have m: "sb_mode (part s r) = VM_MODE_READER" using assms(2) by (simp add: round_inv_def reader_inv_def)
  have ports: "SHARED_BUFFER_STATUS_PORT \<noteq> SHARED_BUFFER_PORT" "VM_MODE_READER \<noteq> VM_MODE_WRITER"
    by (simp_all add: shared_buffer_consts)
  obtain g' m' where io: "sharedBufferIo (part s r) (shbuf s) (io (run v)) (run_data (run v)) (data_offset v) = Done (True, g', b', m')"
    and c': "c' = (machines s ! r)\<lparr>sharedBuffer := g'\<rparr>"
    by (rule handle_success [OF assms(4)]) (simp add: part_def)
  from io show ?thesis
  proof (cases rule: sharedBufferIo_cases)
    case finish_read
    note f = round_inv_finish_read [OF inv assms(2) finish_read(8,9,7) assms(3)]
    have "sb_size (shbuf s) = min (length (sent s)) BUFFER_SIZE"
      using inv f(1) by (simp add: round_inv_def data_inv_def)
    then show ?thesis using f(1,2) finish_read(10,12) by (simp add: c')
  qed (use assms(5) m ports in simp_all)
qed

theorem acknowledgement_is_truthful_witness:
  "\<exists>s. reachable_disciplined three_machines three_buffer s \<and> dataReady (shbuf s) \<and> got s 2 = [5, 6, 7]"
proof -
  obtain s where s: "reachable_disciplined three_machines three_buffer s" "ready_writer s" "shbuf s = three_buffer"
    "\<forall>r<3. modeDelivered (part s r)" "length (machines s) = 3" by (rule three_booted)
  have g: "\<not> roundInProgress (shbuf s)" "generation (shbuf s) \<noteq> - 1" "generation (shbuf s) + 1 \<noteq> - 1"
    by (simp_all add: s(3) three_buffer_def initial_SharedBufferState_def)
  obtain s1 where s1: "round_sent s [5, 6, 7] s1"
    using write_shared_buffer_send_succeeds [OF s(2) g(1), of "[5, 6, 7]"] by auto
  have w: "waiting 2 s1" by (rule waiting_after_send [OF reachable_disciplined_ok [OF s(1)] g(1) s1]) (use s g in auto)
  have r1: "reachable_disciplined three_machines three_buffer s1" using s(1) s1 by (auto simp: reachable_disciplined_def round_sent_def)
  obtain s2 x s' where s2: "disciplined_step\<^sup>*\<^sup>* s1 s2" "length (machines s2) = 3" "sent s2 = [5, 6, 7]"
    "activeReadGeneration (part s2 2) \<noteq> 0" "outl 2 SHARED_BUFFER_STATUS_PORT x s2 = Some s'"
    using read_shared_buffer_succeeds [OF reachable_disciplined_ok [OF r1], of 2] w s1 s(5)
    by (auto simp: waiting_def round_sent_def)
  let ?v = "port_exit KVM_EXIT_IO_OUT SHARED_BUFFER_STATUS_PORT 4 (store32 (\<lambda>_. 0) 1024 x)"
  obtain c' b' v' where h: "handleSharedBufferIo (machines s2 ! 2) (shbuf s2) ?v = Done (True, c', b', v')"
    using s2(5) by (auto simp: outl_def port_try_def split: outcome.splits prod.splits bool.splits)
  have r2: "reachable_disciplined three_machines three_buffer s2" using r1 s2(1) by (auto simp: reachable_disciplined_def)
  have "dataReady (shbuf s2) \<and> got s2 2 = take BUFFER_SIZE (sent s2)"
    using acknowledgement_is_truthful [OF r2 _ s2(4) h] s2(2) by simp
  then show ?thesis using r2 s2(3) by (auto simp: BUFFER_SIZE_def)
qed

text \<open>
  C4. Liveness: from every state between two rounds that disciplined readers and the writer can
  reach (no reader acknowledged before it began its first round), not stopped, with every
  machine's mode delivered and at least two generations left, a writer that follows
  \<^verbatim>\<open>write_shared_buffer\<close> and readers that follow \<^verbatim>\<open>read_shared_buffer\<close>, in any order, complete a
  round for any data: no call is rejected or blocks for good, each reader gets the first 256
  bytes, the writer is told their number, and the next round can start.
\<close>

theorem round_completes:
  assumes "reachable_disciplined ms b s" and "\<not> stopped (shbuf s)" and "\<not> roundInProgress (shbuf s)"
    and "\<forall>i<length (machines s). modeDelivered (part s i)" and "generation (shbuf s) < 0xFFFFFFFFFFFFFFFE"
    and "length bs < 2 ^ 32" and "distinct rs" and "set rs = {1..<length (machines s)}"
  shows "\<exists>s'. broadcast bs rs s =
      Some (of_nat (min (length bs) BUFFER_SIZE), replicate (length rs) (Some (take BUFFER_SIZE bs)), s') \<and>
    reachable_disciplined ms b s' \<and> \<not> roundInProgress (shbuf s')"
proof -
  have ok: "rounds_ok s" by (rule reachable_disciplined_ok [OF assms(1)])
  have g: "generation (shbuf s) \<noteq> - 1" "generation (shbuf s) + 1 \<noteq> - 1"
  proof -
    show "generation (shbuf s) \<noteq> - 1" using assms(5) by auto
    show "generation (shbuf s) + 1 \<noteq> - 1"
    proof
      assume "generation (shbuf s) + 1 = - 1"
      then have "generation (shbuf s) = - 1 - 1" by (metis add_diff_cancel_right')
      then show False using assms(5) by simp
    qed
  qed
  have "sb_mode (part s 0) = VM_MODE_WRITER" "machines s \<noteq> []"
    using ok by (simp_all add: rounds_ok_def round_inv_def writer_inv_def)
  then have "ready_writer s" using assms(2,4) g(1) by (auto simp: ready_writer_def)
  from broadcast_succeeds [OF ok this assms(3,6,4) g(2) assms(7,8)] show ?thesis
    using assms(1) by (auto simp: reachable_disciplined_def)
qed

theorem round_completes_witness:
  "\<exists>s s'. reachable_disciplined three_machines three_buffer s \<and>
     broadcast [7] [2, 1] s = Some (1, [Some [7], Some [7]], s') \<and> \<not> roundInProgress (shbuf s')"
proof -
  obtain s where s: "reachable_disciplined three_machines three_buffer s" "ready_writer s" "shbuf s = three_buffer"
    "\<forall>r<3. modeDelivered (part s r)" "length (machines s) = 3" by (rule three_booted)
  have b: "\<not> roundInProgress (shbuf s)" "\<not> stopped (shbuf s)" "generation (shbuf s) < 0xFFFFFFFFFFFFFFFE"
    by (simp_all add: s(3) three_buffer_def initial_SharedBufferState_def)
  have "set [2, 1] = {1..<length (machines s)}" by (auto simp: s(5))
  then have "\<exists>s'. broadcast [7] [2, 1] s = Some (1, [Some [7], Some [7]], s') \<and>
      reachable_disciplined three_machines three_buffer s' \<and> \<not> roundInProgress (shbuf s')"
    using round_completes [OF s(1) b(2,1) _ b(3), of "[7]" "[2, 1]"] s(4,5) by (simp add: BUFFER_SIZE_def)
  then show ?thesis using s(1) by blast
qed

text \<open>A reader that has not acknowledged the round has a call that succeeds.\<close>

lemma reader_can_move:
  assumes ok: "rounds_ok s" and "\<not> stopped (shbuf s)" and "dataReady (shbuf s)"
    and "\<forall>i<length (machines s). modeDelivered (part s i)" and "generation (shbuf s) \<noteq> - 1"
    and r: "r \<in> {1..<length (machines s)}" and new: "lastReadGeneration (part s r) \<noteq> generation (shbuf s)"
  shows "if activeReadGeneration (part s r) = lastReadGeneration (part s r) then inl r SHARED_BUFFER_PORT s \<noteq> None
       else if readOffset (part s r) < sb_size (shbuf s) then inb r SHARED_BUFFER_PORT s \<noteq> None
       else outl r SHARED_BUFFER_STATUS_PORT (of_nat (sb_size (shbuf s))) s \<noteq> None"
proof -
  let ?R = "{1..<length (machines s)}" and ?gen = "generation (shbuf s)"
  have inv: "round_inv 0 ?R (part s) (shbuf s) (sent s) (got s)" using ok by (simp add: rounds_ok_def)
  then have cnt: "completedReaders (shbuf s) = card (acknowledged ?R (part s) ?gen)" "readerCount (shbuf s) = card ?R"
    using assms(3) by (simp_all add: round_inv_def)
  have ri: "reader_inv (shbuf s) (sent s) (got s r) (part s r)" using inv r by (simp add: round_inv_def)
  have ready: "ready_reader r s"
    using ri assms r by (auto simp: ready_reader_def reader_inv_def)
  have less: "lastReadGeneration (part s r) < ?gen" using ri new by (auto simp: reader_inv_def)
  have "acknowledged ?R (part s) ?gen \<subseteq> ?R - {r}" using new unfolding acknowledged_def by blast
  then have "card (acknowledged ?R (part s) ?gen) \<le> card (?R - {r})" by (intro card_mono) auto
  also have "\<dots> < card ?R" by (rule card_Diff1_less [OF finite_atLeastLessThan r])
  finally have c: "completedReaders (shbuf s) < readerCount (shbuf s)" using cnt by simp
  show ?thesis
  proof (cases "activeReadGeneration (part s r) = lastReadGeneration (part s r)")
    case True
    then show ?thesis using inl_begin [OF ready less] by simp
  next
    case False
    then have a: "activeReadGeneration (part s r) = ?gen" "\<not> readCompleted (part s r)"
      "readOffset (part s r) \<le> sb_size (shbuf s)" using ri assms(3) by (auto simp: reader_inv_def)
    show ?thesis
    proof (cases "readOffset (part s r) < sb_size (shbuf s)")
      case True
      then show ?thesis using inb_get [OF ready a(1)] False by auto
    next
      case o: False
      then show ?thesis using outl_finish [OF ready a(1) _ a(2) c sb_size_bound [OF ok]] a(3) False by auto
    qed
  qed
qed

text \<open>
  C24. No reader gets stuck inside a round, under four conditions: no reader has acknowledged
  anything before it began its first round (\<open>reachable_disciplined\<close>), the transfer has not been
  stopped, every machine has read its mode, and the generation has not reached its maximum.
  Then, while the data is ready and the round is not over, a reader that has not acknowledged
  it has a call that succeeds at once (begin, next byte, or the acknowledgement, by how far it
  has come); and once all have, the writer's status read succeeds.
\<close>

theorem round_never_stuck:
  assumes "reachable_disciplined ms b s" and "\<not> stopped (shbuf s)" and "dataReady (shbuf s)" and "roundInProgress (shbuf s)"
    and "\<forall>i<length (machines s). modeDelivered (part s i)" and "generation (shbuf s) \<noteq> - 1"
  shows "(\<forall>r\<in>{1..<length (machines s)}. lastReadGeneration (part s r) \<noteq> generation (shbuf s) \<longrightarrow>
      (if activeReadGeneration (part s r) = lastReadGeneration (part s r) then inl r SHARED_BUFFER_PORT s \<noteq> None
       else if readOffset (part s r) < sb_size (shbuf s) then inb r SHARED_BUFFER_PORT s \<noteq> None
       else outl r SHARED_BUFFER_STATUS_PORT (of_nat (sb_size (shbuf s))) s \<noteq> None)) \<and>
    ((\<forall>r\<in>{1..<length (machines s)}. lastReadGeneration (part s r) = generation (shbuf s)) \<longrightarrow>
      inl 0 SHARED_BUFFER_STATUS_PORT s \<noteq> None)"
proof -
  let ?R = "{1..<length (machines s)}" and ?gen = "generation (shbuf s)"
  have ok: "rounds_ok s" by (rule reachable_disciplined_ok [OF assms(1)])
  then have inv: "round_inv 0 ?R (part s) (shbuf s) (sent s) (got s)" and ms: "machines s \<noteq> []"
    by (simp_all add: rounds_ok_def)
  have cnt: "completedReaders (shbuf s) = card (acknowledged ?R (part s) ?gen)" "readerCount (shbuf s) = card ?R"
    using inv assms(3) by (simp_all add: round_inv_def)
  have "if activeReadGeneration (part s r) = lastReadGeneration (part s r) then inl r SHARED_BUFFER_PORT s \<noteq> None
       else if readOffset (part s r) < sb_size (shbuf s) then inb r SHARED_BUFFER_PORT s \<noteq> None
       else outl r SHARED_BUFFER_STATUS_PORT (of_nat (sb_size (shbuf s))) s \<noteq> None"
    if "r \<in> ?R" "lastReadGeneration (part s r) \<noteq> ?gen" for r
    by (rule reader_can_move [OF ok assms(2,3,5,6) that])
  moreover have "inl 0 SHARED_BUFFER_STATUS_PORT s \<noteq> None" if "\<forall>r\<in>?R. lastReadGeneration (part s r) = ?gen"
  proof -
    have "acknowledged ?R (part s) ?gen = ?R" using that unfolding acknowledged_def by blast
    then have c: "completedReaders (shbuf s) = readerCount (shbuf s)" using cnt by simp
    have w: "writer_inv (shbuf s) (part s 0)" and "0 < ?gen"
      using inv assms(3) by (simp_all add: round_inv_def data_inv_def)
    then have "ready_writer s" "writeGeneration (part s 0) = ?gen" "?gen \<noteq> 0"
      using assms ms by (auto simp: ready_writer_def writer_inv_def)
    then show ?thesis using inl_finish [OF _ assms(3) c] by simp
  qed
  ultimately show ?thesis by blast
qed

theorem round_never_stuck_witness:
  "\<exists>s. reachable_disciplined three_machines three_buffer s \<and> sent s = [5] \<and> inl 1 SHARED_BUFFER_PORT s \<noteq> None"
proof -
  obtain s where s: "reachable_disciplined three_machines three_buffer s" "ready_writer s" "shbuf s = three_buffer"
    "\<forall>r<3. modeDelivered (part s r)" "length (machines s) = 3" by (rule three_booted)
  have g: "\<not> roundInProgress (shbuf s)" "generation (shbuf s) \<noteq> - 1" "generation (shbuf s) + 1 \<noteq> - 1"
    by (simp_all add: s(3) three_buffer_def initial_SharedBufferState_def)
  obtain s1 where s1: "round_sent s [5] s1"
    using write_shared_buffer_send_succeeds [OF s(2) g(1), of "[5]"] by auto
  have r1: "reachable_disciplined three_machines three_buffer s1" using s(1) s1 by (auto simp: reachable_disciplined_def round_sent_def)
  have w: "waiting 1 s1" by (rule waiting_after_send [OF reachable_disciplined_ok [OF s(1)] g(1) s1]) (use s g in auto)
  have "\<forall>i<length (machines s1). modeDelivered (part s1 i)" using s1 s(4,5) by (simp add: round_sent_def)
  then have "inl 1 SHARED_BUFFER_PORT s1 \<noteq> None"
    using round_never_stuck [OF r1] s1 w by (auto simp: round_sent_def waiting_def ready_reader_def)
  then show ?thesis using r1 s1 by (auto simp: round_sent_def)
qed

text \<open>A writer and one reader that does not wait for the data.\<close>

definition two_guests :: "GuestContext list" where
  "two_guests = [initial_GuestContext\<lparr>sharedBuffer := initial_SharedBufferVmState\<lparr>sb_mode := VM_MODE_WRITER\<rparr>\<rparr>,
     initial_GuestContext\<lparr>gid := 1\<rparr>]"

definition hasty_reader :: "(u8 \<times> u32 \<times> u8 list \<times> bool) option" where
  "hasty_reader =
     Option.bind (read_modes [0, 1] (start_rounds two_guests (initial_SharedBufferState\<lparr>readerCount := 1\<rparr>))) (\<lambda>(_, s).
     Option.bind (outl 0 SHARED_BUFFER_PORT 1 s) (\<lambda>s.
     Option.bind (inb 1 SHARED_BUFFER_PORT s) (\<lambda>(x, s).
     Option.bind (outl 1 SHARED_BUFFER_STATUS_PORT 1 s) (\<lambda>s.
     Option.bind (outb 0 SHARED_BUFFER_PORT 7 s) (\<lambda>s.
     Option.bind (inl 0 SHARED_BUFFER_STATUS_PORT s) (\<lambda>(w, s).
     Some (x, w, sent s, transferCompleted (part s 1))))))))"

text \<open>
  Why the discipline is needed: \<open>readSharedByte\<close> and \<open>finishReaderRound\<close> do not look at
  \<open>dataReady\<close>. In the first round a reader that never began it can be handed a byte of the
  buffer before the writer has sent any, and its acknowledgement is accepted and counted: the
  writer then sends 7, is told that one byte was transferred, and the only reader has 0.
\<close>

lemma premature_acknowledgement_accepted: "hasty_reader = Some (0, 1, [7], True)"
  by code_simp

end
