(* ===== verification/Guest_Transfer.thy ===== *)
theory Guest_Transfer
  imports Guest_Program Broadcast
begin

text \<open>
  The guest's interrupt handler, \<^verbatim>\<open>guest/src/interrupts.c\<close>: the writer broadcasts the file
  \<^verbatim>\<open>guest.txt\<close>, a reader saves what it is handed in \<^verbatim>\<open>reader.txt\<close>. The port sequences are
  those of the theory \<open>Broadcast\<close>, now executed against the whole host: the first section
  shows that an access which succeeds there succeeds here with the same effect.
\<close>

subsection \<open>Ports of the machine and ports of the round protocol\<close>

text \<open>Machine \<open>i\<close> of the protocol state \<open>r\<close> is the guest \<open>s\<close>.\<close>

definition linked :: "nat \<Rightarrow> rounds \<Rightarrow> guest \<Rightarrow> bool" where
  "linked i r s \<longleftrightarrow> i < length (machines r) \<and> part r i = sharedBuffer (g_context s) \<and>
     shbuf r = buffer_state (w_shared (g_world s)) \<and> 1028 \<le> mapping_size (g_vm s)"

text \<open>An access to the shared buffer leaves the files, the console and the memory alone.\<close>

definition shifted :: "guest \<Rightarrow> SharedBufferVmState \<Rightarrow> SharedBufferState \<Rightarrow> kvm_run \<Rightarrow> memory \<Rightarrow> guest" where
  "shifted s g b rn m = \<lparr>g_context = (g_context s)\<lparr>sharedBuffer := g\<rparr>, g_vm = (g_vm s)\<lparr>run := rn, mem := m\<rparr>,
     g_world = set_buffer (g_world s) b\<rparr>"

lemma shifted_shifted [simp]: "shifted (shifted s g b rn m) g' b' rn' m' = shifted s g' b' rn' m'"
  by (simp add: shifted_def set_buffer_def)

lemma shifted_self: "shifted s (sharedBuffer (g_context s)) (buffer_state (w_shared (g_world s))) (run (g_vm s)) (mem (g_vm s)) = s"
  by (simp add: shifted_def set_buffer_def)

lemma shifted_mem [simp]: "mem (g_vm (shifted s g b rn m)) = m"
  by (simp add: shifted_def)

definition buffer_only :: "guest \<Rightarrow> guest \<Rightarrow> bool" where
  "buffer_only s s' \<longleftrightarrow> (\<exists>g b rn. s' = shifted s g b rn (mem (g_vm s)))"

lemma buffer_only_trans: "buffer_only s s1 \<Longrightarrow> buffer_only s1 s2 \<Longrightarrow> buffer_only s s2"
  unfolding buffer_only_def by fastforce

lemma buffer_only_refl: "buffer_only s s"
  unfolding buffer_only_def using shifted_self [of s] by metis

definition agree :: "nat \<Rightarrow> memory \<Rightarrow> memory \<Rightarrow> bool" where
  "agree n m m' \<longleftrightarrow> load_bytes m 1024 n = load_bytes m' 1024 n"

lemma agree_1: "agree (Suc 0) m m' \<longleftrightarrow> m 1024 = m' 1024"
  by (simp add: agree_def load_bytes_def)

lemma agree_4: "agree 4 m m' \<longleftrightarrow> load32 m 1024 = load32 m' 1024"
proof -
  have "load_bytes k 1024 4 = le_bytes 4 (load32 k 1024)" for k
    using le_bytes_le_word [where 'a = 32, of "load_bytes k 1024 4"] by (simp add: load32_def)
  then show ?thesis by (metis agree_def load32_def)
qed

lemma sharedBufferIo_agree:
  assumes "sharedBufferIo g b i m 1024 = Done (True, g', b', m')" and "io_direction i = KVM_EXIT_IO_OUT \<Longrightarrow> agree (unat (io_size i)) m n"
  shows "\<exists>n'. sharedBufferIo g b i n 1024 = Done (True, g', b', n') \<and> agree (unat (io_size i)) m' n'"
proof -
  note io_defs = sharedBufferIo_def shared_buffer_consts Let_def readUint32_def writeUint32_def agree_1 agree_4 mem32.ld_st_same
  from assms(1) show ?thesis
  proof (cases rule: sharedBufferIo_cases)
    case mode
    then show ?thesis using assms(2) by (simp add: io_defs deliverMode_def)
  next
    case begin_empty
    then show ?thesis using assms(2) by (simp add: io_defs beginWriterRound_def beginWriter_state_def)
  next
    case (begin_write k)
    then show ?thesis using assms(2) by (simp add: io_defs beginWriterRound_def beginWriter_state_def)
  next
    case (put d)
    then show ?thesis using assms(2) by (simp add: io_defs writeSharedByte_def)
  next
    case (put_last d)
    then show ?thesis using assms(2) by (simp add: io_defs writeSharedByte_def)
  next
    case finish_write
    then show ?thesis using assms(2) by (simp add: io_defs finishWriterRound_def)
  next
    case begin_read
    then show ?thesis using assms(2) by (simp add: io_defs beginReaderRound_def)
  next
    case get
    then show ?thesis using assms(2) by (simp add: io_defs readSharedByte_def)
  next
    case finish_read
    then show ?thesis using assms(1,2) by (simp add: io_defs finishReaderRound_def)
  qed
qed


lemma port_linked:
  assumes link: "linked i r s" and port: "port = SHARED_BUFFER_PORT \<or> port = SHARED_BUFFER_STATUS_PORT" and sz: "sz = 1 \<or> sz = 4"
    and tr: "port_try i (port_exit dir port sz m) r = Some (m', r')"
    and data: "dir = KVM_EXIT_IO_OUT \<Longrightarrow> agree (unat sz) m (store_bytes (run_data (run (g_vm s))) 1024 data)"
  shows "\<exists>s'. port_call dir port sz data s = Some s' \<and> agree (unat sz) m' (run_data (run (g_vm s'))) \<and>
    linked i r' s' \<and> buffer_only s s'"
proof -
  let ?v = "port_exit dir port sz m" and ?m = "store_bytes (run_data (run (g_vm s))) 1024 data"
  let ?io = "\<lparr>io_direction = dir, io_size = sz, io_port = port, io_count = 1, io_data_offset = 1024\<rparr>"
  define rn where "rn = (run (g_vm s))\<lparr>exit_reason := KVM_EXIT_IO, io := ?io, run_data := ?m\<rparr>"
  have i: "i < length (machines r)" "part r i = sharedBuffer (g_context s)" "shbuf r = buffer_state (w_shared (g_world s))"
    "1028 \<le> mapping_size (g_vm s)" using link by (simp_all add: linked_def)
  obtain c' b' v' where h: "handleSharedBufferIo (machines r ! i) (shbuf r) ?v = Done (True, c', b', v')"
    and r': "r' = accessed r i ?v c' b' v'" and m': "m' = run_data (run v')"
    using tr by (auto simp: port_try_def split: outcome.splits prod.splits bool.splits)
  obtain g' k where sb: "sharedBufferIo (part r i) (shbuf r) ?io m 1024 = Done (True, g', b', k)"
    and c': "c' = (machines r ! i)\<lparr>sharedBuffer := g'\<rparr>" and k: "m' = k"
    by (rule handle_success [OF h]) (use m' in \<open>auto simp: part_def\<close>)
  obtain n' where n': "sharedBufferIo (part r i) (shbuf r) ?io ?m 1024 = Done (True, g', b', n')" "agree (unat sz) m' n'"
    using sharedBufferIo_agree [OF sb, of ?m] data k by auto
  have "getIoData ((g_vm s)\<lparr>run := rn\<rparr>) = Some 1024"
    using i(4) sz by (auto simp: getIoData_def data_in_mapping_iff rn_def mapping_size_def)
  then have dev: "port_device (g_context s, g_world s) ((g_vm s)\<lparr>run := rn\<rparr>) =
      Done (True, ((g_context s)\<lparr>sharedBuffer := g'\<rparr>, set_buffer (g_world s) b'), (g_vm s)\<lparr>run := rn\<lparr>run_data := n'\<rparr>\<rparr>)"
    using n'(1) port i(2,3)
    by (auto simp: port_device_def shared_buffer_device_def handleSharedBufferIo_def rn_def FILE_IO_PORT_def shared_buffer_consts)
  let ?s' = "\<lparr>g_context = (g_context s)\<lparr>sharedBuffer := g'\<rparr>, g_vm = (g_vm s)\<lparr>run := rn\<lparr>run_data := n'\<rparr>\<rparr>, g_world = set_buffer (g_world s) b'\<rparr>"
  have "port_call dir port sz data s = Some ?s'" using dev by (simp add: port_call_def rn_def Let_def)
  moreover have "linked i r' ?s'"
    using i part_accessed [OF i(1), where v = ?v and c = "machines r ! i" and g = g' and b' = b' and v' = v']
    by (simp add: linked_def r' c' set_buffer_def mapping_size_def accessed_def)
  moreover have "?s' = shifted s g' b' (rn\<lparr>run_data := n'\<rparr>) (mem (g_vm s))" by (simp add: shifted_def)
  then have "buffer_only s ?s'" unfolding buffer_only_def by blast
  ultimately show ?thesis using n'(2) by (intro exI [of _ ?s']) simp
qed

lemma outl_linked:
  assumes "linked i r s" and "port = SHARED_BUFFER_PORT \<or> port = SHARED_BUFFER_STATUS_PORT" and "outl i port x r = Some r'"
  shows "\<exists>s'. cpu_outl port x s = Some s' \<and> linked i r' s' \<and> buffer_only s s'"
proof -
  obtain m' where "port_try i (port_exit KVM_EXIT_IO_OUT port 4 (store32 (\<lambda>_. 0) 1024 x)) r = Some (m', r')"
    using assms(3) by (auto simp: outl_def)
  from port_linked [OF assms(1,2) _ this, of "le_bytes 4 x"] show ?thesis
    by (auto simp: cpu_outl_def agree_4 mem32.ld_st_same simp flip: store32_def)
qed

lemma outb_linked:
  assumes "linked i r s" and "outb i SHARED_BUFFER_PORT x r = Some r'"
  shows "\<exists>s'. cpu_outb SHARED_BUFFER_PORT x s = Some s' \<and> linked i r' s' \<and> buffer_only s s'"
proof -
  obtain m' where "port_try i (port_exit KVM_EXIT_IO_OUT SHARED_BUFFER_PORT 1 ((\<lambda>_. 0)(1024 := x))) r = Some (m', r')"
    using assms(2) by (auto simp: outb_def)
  from port_linked [OF assms(1) _ _ this, of "[x]"] show ?thesis
    by (auto simp: cpu_outb_def agree_1 store_bytes_def)
qed

lemma inl_linked:
  assumes "linked i r s" and "port = SHARED_BUFFER_PORT \<or> port = SHARED_BUFFER_STATUS_PORT" and "inl i port r = Some (x, r')"
  shows "\<exists>s'. cpu_inl port s = Some (x, s') \<and> linked i r' s' \<and> buffer_only s s'"
proof -
  obtain m' where m': "port_try i (port_exit KVM_EXIT_IO_IN port 4 (\<lambda>_. 0)) r = Some (m', r')" "x = load32 m' 1024"
    using assms(3) by (auto simp: inl_def)
  from port_linked [OF assms(1,2) _ m'(1), of "[]"] show ?thesis by (auto simp: cpu_inl_def agree_4 m'(2))
qed

lemma inb_linked:
  assumes "linked i r s" and "inb i SHARED_BUFFER_PORT r = Some (x, r')"
  shows "\<exists>s'. cpu_inb SHARED_BUFFER_PORT s = Some (x, s') \<and> linked i r' s' \<and> buffer_only s s'"
proof -
  obtain m' where m': "port_try i (port_exit KVM_EXIT_IO_IN SHARED_BUFFER_PORT 1 (\<lambda>_. 0)) r = Some (m', r')" "x = m' 1024"
    using assms(2) by (auto simp: inb_def)
  from port_linked [OF assms(1) _ _ m'(1), of "[]"] show ?thesis by (auto simp: cpu_inb_def agree_1 m'(2))
qed

lemma kept_linked:
  assumes "linked i r s" and "kept s s'"
  shows "linked i r s'"
  using assms(1) kept_context(3) [OF assms(2)] assms(2) by (simp add: linked_def kept_def)

subsection \<open>The handler's two transfers\<close>

text \<open>Where the stack has room for a request, where the two names are, and the buffer.\<close>

record transfer_layout =
  xl_sp :: nat
  xl_guest :: nat
  xl_reader :: nat
  xl_buffer :: nat

text \<open>\<^verbatim>\<open>outb(SHARED_BUFFER_PORT, buffer[i])\<close> and \<^verbatim>\<open>buffer[i] = inb(SHARED_BUFFER_PORT)\<close>, \<open>n\<close> times.\<close>

fun send_from :: "nat \<Rightarrow> nat \<Rightarrow> guest \<Rightarrow> guest option" where
  "send_from a 0 s = Some s"
| "send_from a (Suc n) s = do { s \<leftarrow> cpu_outb SHARED_BUFFER_PORT (mem (g_vm s) a) s; send_from (Suc a) n s }"

fun receive_into :: "nat \<Rightarrow> nat \<Rightarrow> guest \<Rightarrow> guest option" where
  "receive_into a 0 s = Some s"
| "receive_into a (Suc n) s = do { (x, s) \<leftarrow> cpu_inb SHARED_BUFFER_PORT s; receive_into (Suc a) n (poke a [x] s) }"

definition bytes_counted :: "i32 \<Rightarrow> u32" where
  "bytes_counted bytes_read = (if 0 \<le> sint bytes_read then bytes_read else 0)"

definition broadcast_file :: "transfer_layout \<Rightarrow> guest \<Rightarrow> (i32 \<times> i32 \<times> guest) option" where
  "broadcast_file L s = do {
     (fd, s) \<leftarrow> guest_open (xl_sp L) (xl_guest L) FILE_OPEN_READ s;
     (bytes_read, s) \<leftarrow> (if 0 \<le> sint fd then guest_read (xl_sp L) fd (xl_buffer L) (of_nat (BUFFER_SIZE + 1)) s else Some (-1, s));
     (close_result, s) \<leftarrow> (if 0 \<le> sint fd then guest_close (xl_sp L) fd s else Some (-1, s));
     s \<leftarrow> cpu_outl SHARED_BUFFER_PORT (bytes_counted bytes_read) s;
     s \<leftarrow> send_from (xl_buffer L) (unat (bytes_counted bytes_read)) s;
     Some (bytes_read, close_result, s) }"

definition await_readers :: "i32 \<Rightarrow> i32 \<Rightarrow> guest \<Rightarrow> (bool \<times> guest) option" where
  "await_readers bytes_read close_result s = do {
     (written, s) \<leftarrow> cpu_inl SHARED_BUFFER_STATUS_PORT s;
     let cnt = unat (bytes_counted bytes_read);
         expected = (if cnt > BUFFER_SIZE then BUFFER_SIZE else cnt)
     in Some (0 \<le> sint bytes_read \<and> close_result = 0 \<and> unat written = expected, s) }"

definition guest_write_shared_buffer :: "transfer_layout \<Rightarrow> guest \<Rightarrow> (bool \<times> guest) option" where
  "guest_write_shared_buffer L s = do { (bytes_read, close_result, s) \<leftarrow> broadcast_file L s; await_readers bytes_read close_result s }"

definition save_received :: "transfer_layout \<Rightarrow> u32 \<Rightarrow> guest \<Rightarrow> (bool \<times> guest) option" where
  "save_received L cnt s = do {
     (fd, s) \<leftarrow> guest_open (xl_sp L) (xl_reader L) (FILE_OPEN_WRITE OR FILE_OPEN_CREATE) s;
     (seek_result, s) \<leftarrow> (if 0 \<le> sint fd then guest_lseek (xl_sp L) fd 0 FILE_SEEK_SET s else Some (-1, s));
     (bytes_written, s) \<leftarrow> (if seek_result = 0 then guest_write (xl_sp L) fd (xl_buffer L) cnt s else Some (-1, s));
     (close_result, s) \<leftarrow> (if 0 \<le> sint fd then guest_close (xl_sp L) fd s else Some (-1, s));
     Some (bytes_written = cnt \<and> close_result = 0, s) }"

definition guest_read_shared_buffer :: "transfer_layout \<Rightarrow> guest \<Rightarrow> (bool \<times> guest) option" where
  "guest_read_shared_buffer L s = do {
     (cnt, s) \<leftarrow> cpu_inl SHARED_BUFFER_PORT s;
     (if unat cnt > BUFFER_SIZE then do { s \<leftarrow> cpu_outl SHARED_BUFFER_STATUS_PORT 0 s; Some (False, s) }
      else do {
        s \<leftarrow> receive_into (xl_buffer L) (unat cnt) s;
        s \<leftarrow> cpu_outl SHARED_BUFFER_STATUS_PORT cnt s;
        save_received L cnt s }) }"

subsection \<open>The interrupt handler\<close>

record transfer_vars =
  transfer_finished :: bool
  transfer_succeeded :: bool
  vm_mode :: u8
  mode_initialized :: bool

definition irq0_handler :: "transfer_layout \<Rightarrow> transfer_vars \<Rightarrow> guest \<Rightarrow> (transfer_vars \<times> guest) option" where
  "irq0_handler L g s =
     (if \<not> mode_initialized g then do {
        (mode, s) \<leftarrow> cpu_inb SHARED_BUFFER_PORT s;
        s \<leftarrow> print_bytes (bytes_of ((if mode = VM_MODE_WRITER then ''Mode: writer'' else ''Mode: reader'') @ newline)) s;
        Some (g\<lparr>vm_mode := mode, mode_initialized := True\<rparr>, s) }
      else do {
        (ok, s) \<leftarrow> (if vm_mode g = VM_MODE_WRITER then guest_write_shared_buffer L s else guest_read_shared_buffer L s);
        Some (g\<lparr>transfer_succeeded := ok, transfer_finished := True\<rparr>, s) })"

subsection \<open>The loops\<close>

lemma send_linked:
  assumes "linked i r s" and "send_bytes i bs r = Some r'" and "guest_bytes s a (length bs) = bs"
  shows "\<exists>s'. send_from a (length bs) s = Some s' \<and> linked i r' s' \<and> buffer_only s s'"
  using assms
proof (induction bs arbitrary: a s r)
  case Nil
  then show ?case by (simp add: buffer_only_refl)
next
  case (Cons x xs)
  have x: "mem (g_vm s) a = x" "guest_bytes s (Suc a) (length xs) = xs"
    using Cons.prems(3) load_bytes_append [of "mem (g_vm s)" a 1 "length xs"] by (simp_all add: load_bytes_def)
  obtain r1 where r1: "outb i SHARED_BUFFER_PORT x r = Some r1" "send_bytes i xs r1 = Some r'"
    using Cons.prems(2) by (auto simp: bind_eq_Some_conv)
  obtain s1 where s1: "cpu_outb SHARED_BUFFER_PORT x s = Some s1" "linked i r1 s1" "buffer_only s s1"
    using outb_linked [OF Cons.prems(1) r1(1)] by blast
  have "guest_bytes s1 (Suc a) (length xs) = xs" using s1(3) x(2) by (auto simp: buffer_only_def)
  with Cons.IH [OF s1(2) r1(2)] obtain s' where "send_from (Suc a) (length xs) s1 = Some s'" "linked i r' s'" "buffer_only s1 s'"
    by blast
  then show ?case using s1(1,3) x(1) buffer_only_trans by auto
qed

text \<open>Receiving changes, beside the protocol's state, only the buffer.\<close>

definition received :: "nat \<Rightarrow> nat \<Rightarrow> guest \<Rightarrow> guest \<Rightarrow> bool" where
  "received a n s s' \<longleftrightarrow> (\<exists>g b rn m. s' = shifted s g b rn m) \<and>
     (\<forall>c k. disjoint_areas a n c k \<longrightarrow> guest_bytes s' c k = guest_bytes s c k)"

lemma received_trans:
  assumes "received a n s s1" and "received a n s1 s2"
  shows "received a n s s2"
proof -
  obtain g b rn m g' b' rn' m' where "s1 = shifted s g b rn m" "s2 = shifted s1 g' b' rn' m'"
    using assms unfolding received_def by blast
  then have "s2 = shifted s g' b' rn' m'" by simp
  then show ?thesis using assms unfolding received_def by auto
qed

lemma received_part: "received a n s s' \<Longrightarrow> b \<le> a \<Longrightarrow> a + n \<le> b + k \<Longrightarrow> received b k s s'"
  unfolding received_def disjoint_areas_def by auto

lemma buffer_only_received: "buffer_only s s' \<Longrightarrow> received a n s s'"
  unfolding buffer_only_def received_def by auto

lemma poke_received: "received a 1 s (poke a [x] s)"
proof -
  have "poke a [x] s = shifted s (sharedBuffer (g_context s)) (buffer_state (w_shared (g_world s))) (run (g_vm s))
      (store_bytes (mem (g_vm s)) a [x])"
    by (simp add: poke_def shifted_def set_buffer_def)
  moreover have "disjoint_areas a 1 c k \<longrightarrow> guest_bytes (poke a [x] s) c k = guest_bytes s c k" for c k
    using poke_elsewhere [of a "[x]" c k s] by simp
  ultimately show ?thesis unfolding received_def by blast
qed

lemma linked_poke [simp]: "linked i r (poke a bs s) = linked i r s"
  by (simp add: linked_def)

lemma receive_linked:
  assumes "linked i r s" and "receive_bytes i n r = Some (bs, r')"
  shows "\<exists>s'. receive_into a n s = Some s' \<and> linked i r' s' \<and> guest_bytes s' a n = bs \<and> received a n s s'"
  using assms
proof (induction n arbitrary: a s r bs)
  case 0
  then show ?case by (simp add: buffer_only_received [OF buffer_only_refl] load_bytes_def)
next
  case (Suc n)
  obtain x r1 xs where r1: "inb i SHARED_BUFFER_PORT r = Some (x, r1)" "receive_bytes i n r1 = Some (xs, r')" "bs = x # xs"
    using Suc.prems(2) by (auto split: option.splits)
  obtain s1 where s1: "cpu_inb SHARED_BUFFER_PORT s = Some (x, s1)" "linked i r1 s1" "buffer_only s s1"
    using inb_linked [OF Suc.prems(1) r1(1)] by blast
  have "linked i r1 (poke a [x] s1)" using s1(2) by simp
  from Suc.IH [OF this r1(2), of "Suc a"] obtain s' where s': "receive_into (Suc a) n (poke a [x] s1) = Some s'" "linked i r' s'"
      "guest_bytes s' (Suc a) n = xs" "received (Suc a) n (poke a [x] s1) s'"
    by blast
  have "received a (Suc n) s s'"
    using received_trans [OF received_trans [OF buffer_only_received [OF s1(3)] received_part [OF poke_received]] received_part [OF s'(4)]]
    by simp
  moreover have "guest_bytes s' a 1 = [x]"
  proof -
    have "disjoint_areas (Suc a) n a 1" by (simp add: disjoint_areas_def)
    then have "guest_bytes s' a 1 = guest_bytes (poke a [x] s1) a 1" using s'(4) by (simp add: received_def)
    then show ?thesis by (simp add: poke_def)
  qed
  then have "guest_bytes s' a (Suc n) = x # xs" using s'(3) load_bytes_append [of "mem (g_vm s')" a 1 n] by simp
  ultimately show ?case using s1(1) s'(1,2) r1(3) by auto
qed

subsection \<open>The writer\<close>

text \<open>The names are in memory, the buffer has room and is clear of everything else.\<close>

definition transfer_ready :: "transfer_layout \<Rightarrow> guest \<Rightarrow> bool" where
  "transfer_ready L s \<longleftrightarrow> (let n = BUFFER_SIZE + 1 in
     room (xl_sp L) s \<and> names_file (xl_sp L) (xl_guest L) ''guest.txt'' s \<and> names_file (xl_sp L) (xl_reader L) ''reader.txt'' s \<and>
     apart (xl_sp L) (xl_buffer L) n s \<and>
     disjoint_areas (xl_buffer L) n (xl_guest L) (length ''guest.txt'' + 1) \<and>
     disjoint_areas (xl_buffer L) n (xl_reader L) (length ''reader.txt'' + 1))"

lemma read_flags:
  "areValidOpenFlags FILE_OPEN_READ" "hasReadAccess FILE_OPEN_READ" "\<not> hf_creat (toHostOpenFlags FILE_OPEN_READ)"
  "areValidOpenFlags (FILE_OPEN_WRITE OR FILE_OPEN_CREATE)" "hasWriteAccess (FILE_OPEN_WRITE OR FILE_OPEN_CREATE)"
  by (simp_all add: areValidOpenFlags_iff hasReadAccess_def hasWriteAccess_def access_mode_def toHostOpenFlags_def open_flags)

lemma open_existing:
  assumes "open_target s n fl shd i" and "\<not> hf_creat (toHostOpenFlags fl)"
  shows "h_data (guest_host s) i = target_data s n"
    and "opens_on s n shd i h' \<Longrightarrow> h_data h' = h_data (guest_host s) \<and> h_names h' = h_names (guest_host s)"
proof -
  show d: "h_data (guest_host s) i = target_data s n"
    using assms by (auto simp: open_target_def open_reaches_def target_data_def reached_data_def Let_def split: option.splits)
  show "opens_on s n shd i h' \<Longrightarrow> h_data h' = h_data (guest_host s) \<and> h_names h' = h_names (guest_host s)"
    using assms d by (auto simp: opens_on_def open_target_def open_reaches_def Let_def split: option.splits)
qed

text \<open>The file part: the first bytes of \<^verbatim>\<open>guest.txt\<close> are in the buffer and nothing else has changed.\<close>

lemma load_file:
  assumes ready: "transfer_ready L s" and target: "open_target s ''guest.txt'' FILE_OPEN_READ shd i"
  defines "bs \<equiv> take (BUFFER_SIZE + 1) (target_data s ''guest.txt'')" and "k \<equiv> nextDescriptor (fileState (g_context s))"
  shows "\<exists>s1 s2 s3. guest_open (xl_sp L) (xl_guest L) FILE_OPEN_READ s = Some (k, s1) \<and>
    guest_read (xl_sp L) k (xl_buffer L) (of_nat (BUFFER_SIZE + 1)) s1 = Some (of_nat (length bs), s2) \<and>
    guest_close (xl_sp L) k s2 = Some (0, s3) \<and> guest_bytes s3 (xl_buffer L) (length bs) = bs \<and> kept s s3 \<and>
    table (g_context s3) = table (g_context s) \<and> h_names (guest_host s3) = h_names (guest_host s) \<and>
    h_data (guest_host s3) = h_data (guest_host s)"
proof -
  let ?sp = "xl_sp L"
  have L: "room ?sp s" "names_file ?sp (xl_guest L) ''guest.txt'' s" "apart ?sp (xl_buffer L) (BUFFER_SIZE + 1) s"
    using ready by (simp_all add: transfer_ready_def Let_def)
  obtain s1 f where s1: "guest_open ?sp (xl_guest L) FILE_OPEN_READ s = Some (k, s1)" "opened s1 k FILE_OPEN_READ shd i 0" "kept s s1"
      "table (g_context s1) = (k, f) # table (g_context s)" "map_of (table (g_context s)) k = None"
      "opens_on s ''guest.txt'' shd i (guest_host s1)"
    using call_open [OF L(1,2) read_flags(1) target] unfolding k_def by blast
  note same = open_existing(2) [OF target read_flags(3) s1(6)]
  have bs: "take (BUFFER_SIZE + 1) (drop 0 (h_data (guest_host s1) i)) = bs"
    using open_existing(1) [OF target read_flags(3)] same by (simp add: bs_def)
  obtain s2 where s2: "guest_read ?sp k (xl_buffer L) (of_nat (BUFFER_SIZE + 1)) s1 = Some (of_nat (length bs), s2)"
      "opened s2 k FILE_OPEN_READ shd i (0 + length bs)" "kept s1 s2" "guest_bytes s2 (xl_buffer L) (length bs) = bs"
      "g_context s2 = g_context s1" "h_names (guest_host s2) = h_names (guest_host s1)" "h_data (guest_host s2) = h_data (guest_host s1)"
    using call_read [OF room_kept [OF L(1) s1(3)] s1(2) read_flags(2) apart_kept [OF L(3) s1(3)]]
    unfolding bs by (auto simp: BUFFER_SIZE_def)
  have k2: "kept s s2" by (rule kept_trans [OF s1(3) s2(3)])
  obtain s3 where s3: "guest_close ?sp k s2 = Some (0, s3)" "table (g_context s3) = erase k (table (g_context s2))" "kept s2 s3"
      "mem_kept ?sp s2 s3" "h_names (guest_host s3) = h_names (guest_host s2)" "h_data (guest_host s3) = h_data (guest_host s2)"
    using call_close [OF room_kept [OF L(1) k2] s2(2)] by blast
  have "clear_of ?sp (xl_buffer L) (length bs)" using L(3) by (auto simp: apart_def clear_of_def bs_def)
  then have "guest_bytes s3 (xl_buffer L) (length bs) = bs" using s3(4) s2(4) by (simp add: mem_kept_def)
  moreover have "table (g_context s3) = table (g_context s)" using s3(2) s2(5) s1(4,5) by simp
  ultimately show ?thesis
    using s1(1) s2(1,6,7) s3(1,5,6) same kept_trans [OF k2 s3(3)] by (intro exI [of _ s1] exI [of _ s2] exI [of _ s3]) simp
qed

text \<open>The port part: the bytes in the buffer become the round.\<close>

lemma send_round:
  assumes "linked 0 r s" and "ready_writer r" and "\<not> roundInProgress (shbuf r)" and "guest_bytes s a (length bs) = bs" and "length bs < 2 ^ 31"
  shows "\<exists>s1 s2 r'. cpu_outl SHARED_BUFFER_PORT (of_nat (length bs)) s = Some s1 \<and> send_from a (length bs) s1 = Some s2 \<and>
    linked 0 r' s2 \<and> round_sent r bs r' \<and> buffer_only s s2"
proof -
  obtain r' where r': "write_shared_buffer_send 0 bs r = Some r'" "round_sent r bs r'"
    using write_shared_buffer_send_succeeds [OF assms(2,3), of bs] assms(5) by auto
  then obtain r1 where r1: "outl 0 SHARED_BUFFER_PORT (of_nat (length bs)) r = Some r1" "send_bytes 0 bs r1 = Some r'"
    by (auto simp: write_shared_buffer_send_def bind_eq_Some_conv)
  obtain s1 where s1: "cpu_outl SHARED_BUFFER_PORT (of_nat (length bs)) s = Some s1" "linked 0 r1 s1" "buffer_only s s1"
    using outl_linked [OF assms(1) _ r1(1)] by blast
  have "guest_bytes s1 a (length bs) = bs" using assms(4) s1(3) by (auto simp: buffer_only_def)
  from send_linked [OF s1(2) r1(2) this] obtain s2 where s2: "send_from a (length bs) s1 = Some s2" "linked 0 r' s2" "buffer_only s1 s2"
    by blast
  then show ?thesis using s1(1) r'(2) buffer_only_trans [OF s1(3)] by blast
qed

lemma bytes_counted_nat: "n < 2 ^ 31 \<Longrightarrow> bytes_counted (of_nat n) = of_nat n \<and> unat (of_nat n :: u32) = n"
  using sint_of_small [of n] by (simp add: bytes_counted_def unat_of_nat)

subsection \<open>Two machines with files\<close>

text \<open>Machine 0 has \<^verbatim>\<open>guest.txt\<close>; machine 1 has a \<^verbatim>\<open>reader.txt\<close> from an earlier run.\<close>

definition transfer_host :: host where
  "transfer_host = \<lparr>h_names = [''vm_files/vm_0/guest.txt'' \<mapsto> 0, ''vm_files/vm_1/reader.txt'' \<mapsto> 1], h_dirs = (\<lambda>_. False),
     h_data = (\<lambda>i. if i = 0 then [7] else [1, 2, 3, 4]), h_owner_write = (\<lambda>_. True), h_next = 2, h_fds = [], h_faults = []\<rparr>"

definition transfer_guest :: "nat \<Rightarrow> rounds \<Rightarrow> guest" where
  "transfer_guest i r = \<lparr>g_context = initial_GuestContext\<lparr>gid := i, sharedBuffer := part r i\<rparr>,
     g_vm = (blank_vm 512)\<lparr>mem := store_bytes (store_bytes (\<lambda>_. 0) 64 (bytes_of ''guest.txt'')) 96 (bytes_of ''reader.txt'')\<rparr>,
     g_world = quiet_world\<lparr>w_shared := initial_SharedState\<lparr>buffer_state := shbuf r\<rparr>, w_host := transfer_host\<rparr>\<rparr>"

definition demo_transfer :: transfer_layout where
  "demo_transfer = \<lparr>xl_sp = 16, xl_guest = 64, xl_reader = 96, xl_buffer = 128\<rparr>"

lemma transfer_memory:
  "guest_bytes (transfer_guest i r) 64 (length ''guest.txt'') = bytes_of ''guest.txt''" "guest_bytes (transfer_guest i r) 73 1 = [0]"
  "guest_bytes (transfer_guest i r) 96 (length ''reader.txt'') = bytes_of ''reader.txt''" "guest_bytes (transfer_guest i r) 106 1 = [0]"
  by (simp_all add: transfer_guest_def load_store_disjoint) (simp_all add: load_bytes_def store_bytes_def)

lemma transfer_guest_ready: "transfer_ready demo_transfer (transfer_guest i r)"
proof -
  have valid: "isValidGuestFileName ''guest.txt''" "isValidGuestFileName ''reader.txt''" by code_simp+
  have sz: "mem_size (g_vm (transfer_guest i r)) = 512" "1028 \<le> mapping_size (g_vm (transfer_guest i r))"
    by (simp_all add: transfer_guest_def blank_vm_def mapping_size_def)
  have "map (\<lambda>b. char_of (unat b)) (bytes_of n) = n" for n using text_of_bytes [of n] unfolding text_of_def .
  then have "string_at (transfer_guest i r) 64 ''guest.txt''" "string_at (transfer_guest i r) 96 ''reader.txt''"
    using transfer_memory by (simp_all add: string_at_def)
  then show ?thesis
    using valid sz
    by (simp add: transfer_ready_def demo_transfer_def Let_def names_file_def apart_def clear_of_def disjoint_areas_def room_def
        FILE_NAME_MAX_def file_request_size_def BUFFER_SIZE_def)
qed

lemma transfer_guest_linked: "i < length (machines r) \<Longrightarrow> linked i r (transfer_guest i r)"
  by (simp add: linked_def transfer_guest_def mapping_size_def blank_vm_def)

lemma transfer_guest_simps:
  "own_path (transfer_guest i r) n = local_path i n" "guest_host (transfer_guest i r) = transfer_host"
  "h_faults transfer_host = []" "h_names transfer_host = [''vm_files/vm_0/guest.txt'' \<mapsto> 0, ''vm_files/vm_1/reader.txt'' \<mapsto> 1]"
  "h_dirs transfer_host p = False" "h_data transfer_host 0 = [7]" "h_data transfer_host (Suc 0) = [1, 2, 3, 4]"
  "h_owner_write transfer_host k" "numbered (g_context (transfer_guest i r))" "nextDescriptor (fileState (g_context (transfer_guest i r))) = 3"
  by (simp_all add: transfer_guest_def transfer_host_def numbered_def table_def initial_GuestContext_def initial_FileState_def)

lemma transfer_paths: "local_path 0 ''guest.txt'' = ''vm_files/vm_0/guest.txt''" "local_path 1 ''reader.txt'' = ''vm_files/vm_1/reader.txt''"
  by code_simp+

lemma transfer_targets:
  "open_target (transfer_guest 0 r) ''guest.txt'' FILE_OPEN_READ False 0" "target_data (transfer_guest 0 r) ''guest.txt'' = [7]"
  "open_target (transfer_guest 1 r) ''reader.txt'' (FILE_OPEN_WRITE OR FILE_OPEN_CREATE) False 1"
  "target_data (transfer_guest 1 r) ''reader.txt'' = [1, 2, 3, 4]"
proof -
  have "no_file_above transfer_host ''vm_files/vm_1/reader.txt''" by code_simp
  then show "open_target (transfer_guest 1 r) ''reader.txt'' (FILE_OPEN_WRITE OR FILE_OPEN_CREATE) False 1"
    by (simp add: open_target_def open_reaches_def transfer_guest_simps transfer_paths [unfolded One_nat_def] Let_def)
  show "open_target (transfer_guest 0 r) ''guest.txt'' FILE_OPEN_READ False 0"
    using read_flags(3) by (simp add: open_target_def open_reaches_def transfer_guest_simps transfer_paths Let_def toHostOpenFlags_def access_mode_def open_flags)
  show "target_data (transfer_guest 0 r) ''guest.txt'' = [7]" "target_data (transfer_guest 1 r) ''reader.txt'' = [1, 2, 3, 4]"
    by (simp_all add: target_data_def reached_data_def transfer_guest_simps transfer_paths [unfolded One_nat_def] Let_def)
qed

text \<open>
  C12. The writer's interrupt handler puts the file into the round: when the host's calls
  succeed, after the handler's port sequence the round holds exactly the first 257 bytes of
  the machine's \<^verbatim>\<open>guest.txt\<close> (its own file, or the shared one), the data is ready for the
  readers, and files and descriptors are as before.
\<close>

theorem writer_broadcasts_file:
  assumes "transfer_ready L s" and "open_target s ''guest.txt'' FILE_OPEN_READ shd i"
    and "0 \<le> sint (nextDescriptor (fileState (g_context s)))"
    and "linked 0 r s" and "ready_writer r" and "\<not> roundInProgress (shbuf r)"
  shows "\<exists>s' r'. broadcast_file L s = Some (of_nat (length (take 257 (target_data s ''guest.txt''))), 0, s') \<and> linked 0 r' s' \<and>
    round_sent r (take 257 (target_data s ''guest.txt'')) r' \<and> table (g_context s') = table (g_context s) \<and>
    h_names (guest_host s') = h_names (guest_host s) \<and> h_data (guest_host s') = h_data (guest_host s)"
proof -
  let ?bs = "take 257 (target_data s ''guest.txt'')"
  have n: "BUFFER_SIZE + 1 = 257" by (simp add: BUFFER_SIZE_def)
  obtain s1 s2 s3 where s3: "guest_open (xl_sp L) (xl_guest L) FILE_OPEN_READ s = Some (nextDescriptor (fileState (g_context s)), s1)"
      "guest_read (xl_sp L) (nextDescriptor (fileState (g_context s))) (xl_buffer L) (of_nat 257) s1 = Some (of_nat (length ?bs), s2)"
      "guest_close (xl_sp L) (nextDescriptor (fileState (g_context s))) s2 = Some (0, s3)"
      "guest_bytes s3 (xl_buffer L) (length ?bs) = ?bs" "kept s s3" "table (g_context s3) = table (g_context s)"
      "h_names (guest_host s3) = h_names (guest_host s)" "h_data (guest_host s3) = h_data (guest_host s)"
    using load_file [OF assms(1,2)] unfolding n by blast
  have len: "length ?bs < 2 ^ 31" by simp
  obtain s4 s5 r' where s5: "cpu_outl SHARED_BUFFER_PORT (of_nat (length ?bs)) s3 = Some s4" "send_from (xl_buffer L) (length ?bs) s4 = Some s5"
      "linked 0 r' s5" "round_sent r ?bs r'" "buffer_only s3 s5"
    using send_round [OF kept_linked [OF assms(4) s3(5)] assms(5,6) s3(4) len] by blast
  then have eff: "table (g_context s5) = table (g_context s3)" "guest_host s5 = guest_host s3"
    by (auto simp: buffer_only_def shifted_def set_buffer_def table_def)
  have "broadcast_file L s = Some (of_nat (length ?bs), 0, s5)"
    unfolding broadcast_file_def n using s3(1-3) s5(1,2) assms(3) bytes_counted_nat [OF len] by (simp del: length_take)
  then show ?thesis using s5(3,4) eff s3(6-8) by (intro exI [of _ s5] exI [of _ r']) simp
qed

theorem writer_broadcasts_file_witness:
  "\<exists>r s' r'. reachable_disciplined three_machines three_buffer r \<and> broadcast_file demo_transfer (transfer_guest 0 r) = Some (1, 0, s') \<and>
     linked 0 r' s' \<and> round_sent r [7] r'"
proof -
  obtain r where r: "reachable_disciplined three_machines three_buffer r" "ready_writer r" "shbuf r = three_buffer"
    "\<forall>i<3. modeDelivered (part r i)" "length (machines r) = 3" by (rule three_booted)
  have idle: "\<not> roundInProgress (shbuf r)" by (simp add: r(3) three_buffer_def initial_SharedBufferState_def)
  have link: "linked 0 r (transfer_guest 0 r)" using r(5) by (intro transfer_guest_linked) simp
  have "0 \<le> sint (nextDescriptor (fileState (g_context (transfer_guest 0 r))))" by (simp add: transfer_guest_simps)
  from writer_broadcasts_file [OF transfer_guest_ready transfer_targets(1) this link r(2) idle]
  obtain s' r' where "broadcast_file demo_transfer (transfer_guest 0 r) = Some (1, 0, s')" "linked 0 r' s'" "round_sent r [7] r'"
    by (auto simp: transfer_targets)
  then show ?thesis using r(1) by blast
qed

subsection \<open>The reader\<close>

text \<open>What receiving keeps of the premises of the file part.\<close>

lemma received_keeps:
  assumes "received a n s s'"
  shows "room sp s' = room sp s" "apart sp b k s' = apart sp b k s" "open_target s' m fl shd j = open_target s m fl shd j"
    "target_data s' m = target_data s m" "guest_host s' = guest_host s" "table (g_context s') = table (g_context s)"
    "nextDescriptor (fileState (g_context s')) = nextDescriptor (fileState (g_context s))" "own_path s' m = own_path s m"
proof -
  obtain g b rn m where s': "s' = shifted s g b rn m" using assms by (auto simp: received_def)
  have w: "g_context s' = (g_context s)\<lparr>sharedBuffer := g\<rparr>" "g_world s' = set_buffer (g_world s) b"
    by (simp_all add: s' shifted_def)
  then have f: "guest_host s' = guest_host s" "fileState (g_context s') = fileState (g_context s)" "gid (g_context s') = gid (g_context s)"
    "sharedFiles (w_shared (g_world s')) = sharedFiles (w_shared (g_world s))" by (simp_all add: set_buffer_def)
  then show "guest_host s' = guest_host s" "table (g_context s') = table (g_context s)"
    "nextDescriptor (fileState (g_context s')) = nextDescriptor (fileState (g_context s))" by (simp_all add: table_def)
  show "own_path s' k = own_path s k" for k by (simp add: f(3))
  show "room sp s' = room sp s" "apart sp b k s' = apart sp b k s" for b k
    by (simp_all add: room_def apart_def s' shifted_def mapping_size_def)
  have "numbered (g_context s') = numbered (g_context s)" by (simp add: numbered_def table_def f(2))
  then show "open_target s' k fl shd j = open_target s k fl shd j" for k
    unfolding open_target_def open_reaches_def f by simp
  show "target_data s' k = target_data s k" for k unfolding target_data_def reached_data_def f by simp
qed

lemma received_names:
  assumes "received a n s s'" and "names_file sp b m s" and "disjoint_areas a n b (length m + 1)"
  shows "names_file sp b m s'"
proof -
  have "disjoint_areas a n b (length m)" "disjoint_areas a n (b + length m) 1" using assms(3) by (auto simp: disjoint_areas_def)
  then have "string_at s' b m" using assms(1,2) by (simp add: received_def names_file_def string_at_def)
  then show ?thesis using assms(2) received_keeps(2) [OF assms(1)] by (simp add: names_file_def)
qed

lemma apart_less: "apart sp a n s \<Longrightarrow> m \<le> n \<Longrightarrow> apart sp a m s"
  by (auto simp: apart_def clear_of_def)

lemma save_received_saves:
  assumes "room (xl_sp L) s" and "names_file (xl_sp L) (xl_reader L) ''reader.txt'' s" and "apart (xl_sp L) (xl_buffer L) n s"
    and "n < 2 ^ 31" and "guest_bytes s (xl_buffer L) n = bs"
    and target: "open_target s ''reader.txt'' (FILE_OPEN_WRITE OR FILE_OPEN_CREATE) False j"
    and desc: "0 \<le> sint (nextDescriptor (fileState (g_context s)))"
  shows "\<exists>s'. save_received L (of_nat n) s = Some (True, s') \<and> kept s s' \<and> table (g_context s') = table (g_context s) \<and>
    h_names (guest_host s') = (h_names (guest_host s))(own_path s ''reader.txt'' \<mapsto> j) \<and>
    h_data (guest_host s') = (h_data (guest_host s))(j := patch (target_data s ''reader.txt'') 0 bs)"
proof -
  let ?sp = "xl_sp L" and ?fl = "FILE_OPEN_WRITE OR FILE_OPEN_CREATE" and ?k = "nextDescriptor (fileState (g_context s))"
  obtain s1 f where s1: "guest_open ?sp (xl_reader L) ?fl s = Some (?k, s1)" "opened s1 ?k ?fl False j 0" "kept s s1" "mem_kept ?sp s s1"
      "table (g_context s1) = (?k, f) # table (g_context s)" "map_of (table (g_context s)) ?k = None"
      "opens_on s ''reader.txt'' False j (guest_host s1)"
    using call_open [OF assms(1,2) read_flags(4) target] by blast
  obtain s2 where s2: "guest_lseek ?sp ?k 0 FILE_SEEK_SET s1 = Some (0, s2)" "opened s2 ?k ?fl False j 0" "kept s1 s2" "mem_kept ?sp s1 s2"
      "g_context s2 = g_context s1" "h_names (guest_host s2) = h_names (guest_host s1)" "h_data (guest_host s2) = h_data (guest_host s1)"
    using call_seek [OF room_kept [OF assms(1) s1(3)] s1(2), of 0] by auto
  have k2: "kept s s2" by (rule kept_trans [OF s1(3) s2(3)])
  have b2: "guest_bytes s2 (xl_buffer L) n = bs"
    using mem_keptD [OF mem_kept_trans [OF s1(4) s2(4)] assms(3)] assms(5) by simp
  obtain s3 where s3: "guest_write ?sp ?k (xl_buffer L) (of_nat n) s2 = Some (of_nat n, s3)" "opened s3 ?k ?fl False j (0 + n)" "kept s2 s3"
      "g_context s3 = g_context s2" "h_names (guest_host s3) = h_names (guest_host s2)"
      "h_data (guest_host s3) = (h_data (guest_host s2))(j := patch (h_data (guest_host s2) j) 0 bs)"
    using call_write [OF room_kept [OF assms(1) k2] s2(2) read_flags(5) apart_kept [OF assms(3) k2] assms(4)] unfolding b2 by auto
  have k3: "kept s s3" by (rule kept_trans [OF k2 s3(3)])
  obtain s4 where s4: "guest_close ?sp ?k s3 = Some (0, s4)" "table (g_context s4) = erase ?k (table (g_context s3))" "kept s3 s4"
      "h_names (guest_host s4) = h_names (guest_host s3)" "h_data (guest_host s4) = h_data (guest_host s3)"
    using call_close [OF room_kept [OF assms(1) k3] s3(2)] by blast
  have "save_received L (of_nat n) s = Some (True, s4)"
    using s1(1) s2(1) s3(1) s4(1) desc by (simp add: save_received_def)
  moreover have "kept s s4" by (rule kept_trans [OF k3 s4(3)])
  moreover have "table (g_context s4) = table (g_context s)" using s4(2) s3(4) s2(5) s1(5,6) by simp
  ultimately show ?thesis
    using s1(7) s2(6,7) s3(5,6) s4(4,5) by (intro exI [of _ s4]) (simp add: opens_on_def)
qed

text \<open>The port sequence of a reader that has not begun the round: what it holds is in the buffer.\<close>

lemma receive_round:
  assumes "read_shared_buffer i r = Some (Some bs, r')" and "linked i r s"
  shows "\<exists>s1 s2 s3 x. cpu_inl SHARED_BUFFER_PORT s = Some (x, s1) \<and> unat x \<le> BUFFER_SIZE \<and> unat x = length bs \<and>
    receive_into a (length bs) s1 = Some s2 \<and> cpu_outl SHARED_BUFFER_STATUS_PORT x s2 = Some s3 \<and> linked i r' s3 \<and>
    guest_bytes s3 a (length bs) = bs \<and> received a (length bs) s s3"
proof -
  obtain x r1 r2 where r: "inl i SHARED_BUFFER_PORT r = Some (x, r1)" "\<not> unat x > BUFFER_SIZE" "receive_bytes i (unat x) r1 = Some (bs, r2)"
      "outl i SHARED_BUFFER_STATUS_PORT x r2 = Some r'"
    using assms(1) by (auto simp: read_shared_buffer_def split: option.splits if_splits)
  obtain s1 where s1: "cpu_inl SHARED_BUFFER_PORT s = Some (x, s1)" "linked i r1 s1" "buffer_only s s1"
    using inl_linked [OF assms(2) _ r(1)] by blast
  obtain s2 where s2: "receive_into a (unat x) s1 = Some s2" "linked i r2 s2" "guest_bytes s2 a (unat x) = bs" "received a (unat x) s1 s2"
    using receive_linked [OF s1(2) r(3), of a] by blast
  obtain s3 where s3: "cpu_outl SHARED_BUFFER_STATUS_PORT x s2 = Some s3" "linked i r' s3" "buffer_only s2 s3"
    using outl_linked [OF s2(2) _ r(4)] by blast
  have len: "length bs = unat x" using s2(3) by auto
  have "received a (unat x) s s3"
    using received_trans [OF received_trans [OF buffer_only_received [OF s1(3)] s2(4)] buffer_only_received [OF s3(3)]] .
  moreover have "guest_bytes s3 a (unat x) = bs" using s2(3) s3(3) by (auto simp: buffer_only_def)
  ultimately show ?thesis using s1(1) s2(1) s3(1,2) r(2) unfolding len by (intro exI [of _ s1] exI [of _ s2] exI [of _ s3] exI [of _ x]) simp
qed

text \<open>
  C11. The reader's interrupt handler saves the round: when the data of a round is ready and the
  host's calls succeed, the handler returns success, the reader has acknowledged the round, and
  the first bytes of \<^verbatim>\<open>reader.txt\<close> in its own directory are exactly the bytes the writer sent
  (at most 256); what an older and longer file had behind them is still there, and no other
  file and no descriptor changes.
\<close>

theorem reader_saves_round:
  assumes "transfer_ready L s" and "open_target s ''reader.txt'' (FILE_OPEN_WRITE OR FILE_OPEN_CREATE) False j"
    and "0 \<le> sint (nextDescriptor (fileState (g_context s)))"
    and "reachable_disciplined ms b r" and "waiting i r" and "linked i r s"
  shows "\<exists>s' r'. guest_read_shared_buffer L s = Some (True, s') \<and> linked i r' s' \<and> disciplined_step\<^sup>*\<^sup>* r r' \<and>
    completedReaders (shbuf r') = completedReaders (shbuf r) + 1 \<and> table (g_context s') = table (g_context s) \<and>
    h_names (guest_host s') = (h_names (guest_host s))(own_path s ''reader.txt'' \<mapsto> j) \<and>
    h_data (guest_host s') = (h_data (guest_host s))(j := take BUFFER_SIZE (sent r) @ drop (min BUFFER_SIZE (length (sent r))) (target_data s ''reader.txt''))"
proof -
  let ?bs = "take BUFFER_SIZE (sent r)"
  have w: "i \<in> {1..<length (machines r)}" "ready_reader i r" "lastReadGeneration (part r i) \<noteq> generation (shbuf r)"
    "activeReadGeneration (part r i) = lastReadGeneration (part r i)" using assms(5) by (auto simp: waiting_def)
  obtain r' where r': "read_shared_buffer i r = Some (Some ?bs, r')" "shbuf r' = notify_all ((shbuf r)\<lparr>completedReaders := completedReaders (shbuf r) + 1\<rparr>)"
      "disciplined_step\<^sup>*\<^sup>* r r'"
    using read_shared_buffer_succeeds [OF reachable_disciplined_ok [OF assms(4)] w] by auto
  obtain s1 s2 s3 x where p: "cpu_inl SHARED_BUFFER_PORT s = Some (x, s1)" "unat x \<le> BUFFER_SIZE" "unat x = length ?bs"
      "receive_into (xl_buffer L) (length ?bs) s1 = Some s2" "cpu_outl SHARED_BUFFER_STATUS_PORT x s2 = Some s3" "linked i r' s3"
      "guest_bytes s3 (xl_buffer L) (length ?bs) = ?bs" "received (xl_buffer L) (length ?bs) s s3"
    using receive_round [OF r'(1) assms(6), of "xl_buffer L"] by blast
  note keeps = received_keeps [OF p(8)]
  have len: "length ?bs \<le> BUFFER_SIZE + 1" "length ?bs < 2 ^ 31" by (simp_all add: BUFFER_SIZE_def)
  have L: "room (xl_sp L) s3" "apart (xl_sp L) (xl_buffer L) (length ?bs) s3"
    using assms(1) len(1) unfolding keeps by (auto simp: transfer_ready_def Let_def intro: apart_less)
  have "names_file (xl_sp L) (xl_reader L) ''reader.txt'' s3"
    by (rule received_names [OF received_part [OF p(8), of "xl_buffer L" "BUFFER_SIZE + 1"]])
      (use assms(1) len(1) in \<open>simp_all add: transfer_ready_def Let_def\<close>)
  from save_received_saves [OF L(1) this L(2) len(2) p(7)] obtain s' where s': "save_received L (of_nat (length ?bs)) s3 = Some (True, s')" "kept s3 s'"
      "table (g_context s') = table (g_context s3)" "h_names (guest_host s') = (h_names (guest_host s3))(own_path s3 ''reader.txt'' \<mapsto> j)"
      "h_data (guest_host s') = (h_data (guest_host s3))(j := patch (target_data s3 ''reader.txt'') 0 ?bs)"
    using assms(2,3) by (auto simp: keeps)
  have "x = of_nat (length ?bs)" unfolding p(3) [symmetric] by simp
  then have "guest_read_shared_buffer L s = Some (True, s')"
    using p(1-5) s'(1) by (simp add: guest_read_shared_buffer_def del: length_take)
  moreover have "linked i r' s'" by (rule kept_linked [OF p(6) s'(2)])
  moreover have "patch d 0 ?bs = ?bs @ drop (min BUFFER_SIZE (length (sent r))) d" for d
    by (simp add: patch_def min.commute)
  ultimately show ?thesis using s'(3-5) r'(2,3) by (intro exI [of _ s'] exI [of _ r']) (simp add: keeps)
qed

theorem reader_saves_round_witness:
  "\<exists>r s'. reachable_disciplined three_machines three_buffer r \<and> sent r = [7] \<and>
     guest_read_shared_buffer demo_transfer (transfer_guest 1 r) = Some (True, s') \<and> h_data (guest_host s') 1 = [7, 2, 3, 4]"
proof -
  obtain q where q: "reachable_disciplined three_machines three_buffer q" "ready_writer q" "shbuf q = three_buffer"
    "\<forall>i<3. modeDelivered (part q i)" "length (machines q) = 3" by (rule three_booted)
  have b: "\<not> roundInProgress (shbuf q)" "generation (shbuf q) = 0" by (simp_all add: q(3) three_buffer_def initial_SharedBufferState_def)
  obtain r where r: "round_sent q [7] r" using write_shared_buffer_send_succeeds [OF q(2) b(1), of "[7]"] by auto
  have reach: "reachable_disciplined three_machines three_buffer r" using q(1) r by (auto simp: reachable_disciplined_def round_sent_def)
  have "waiting 1 r"
    by (rule waiting_after_send(1) [OF reachable_disciplined_ok [OF q(1)] b(1) r]) (use q(4,5) b(2) in auto)
  moreover have "linked 1 r (transfer_guest 1 r)" using q(5) r by (intro transfer_guest_linked) (simp add: round_sent_def)
  ultimately obtain s' where s': "guest_read_shared_buffer demo_transfer (transfer_guest 1 r) = Some (True, s')"
      "h_data (guest_host s') = (h_data transfer_host)(1 := take BUFFER_SIZE (sent r) @
        drop (min BUFFER_SIZE (length (sent r))) (target_data (transfer_guest 1 r) ''reader.txt''))"
    using reader_saves_round [OF transfer_guest_ready transfer_targets(3) _ reach] by (auto simp: transfer_guest_simps)
  have sr: "sent r = [7]" using r by (simp add: round_sent_def)
  then have "h_data (guest_host s') 1 = [7, 2, 3, 4]"
    using s'(2) transfer_targets(4) by (simp add: BUFFER_SIZE_def)
  then show ?thesis using reach sr s'(1) by blast
qed

end
