(* ===== verification/Guest_Main.thy ===== *)
theory Guest_Main
  imports Guest_Transfer
begin

text \<open>
  The rest of \<^verbatim>\<open>guest/src/main.c\<close> and \<^verbatim>\<open>guest/src/interrupts.c\<close>: the descriptor tables with
  which the guest takes the host's interrupt, and what the program prints when its transfer
  is over. The instructions that load the tables and the waiting loop are in \<open>Guest_Start\<close>.
\<close>

subsection \<open>Descriptor tables\<close>

record idt_entry =
  offset_low :: u16
  selector :: u16
  ist :: u8
  type_attr :: u8
  offset_mid :: u16
  offset_high :: u32
  ie_reserved :: u32

record gdt_entry =
  limit_low :: u16
  base_low :: u16
  base_mid :: u8
  access_byte :: u8
  flags_limit :: u8
  base_high :: u8

record dt_ptr =
  dt_limit :: u16
  dt_base :: u64

definition IDT_ENTRIES :: nat where "IDT_ENTRIES = 64"

definition idt_entry_size :: nat where "idt_entry_size = 16"

definition gdt_entry_size :: nat where "gdt_entry_size = 8"

definition zero_idt_entry :: idt_entry where
  "zero_idt_entry = \<lparr>offset_low = 0, selector = 0, ist = 0, type_attr = 0, offset_mid = 0, offset_high = 0, ie_reserved = 0\<rparr>"

definition zero_gdt_entry :: gdt_entry where
  "zero_gdt_entry = \<lparr>limit_low = 0, base_low = 0, base_mid = 0, access_byte = 0, flags_limit = 0, base_high = 0\<rparr>"

definition set_idt_gate :: "nat \<Rightarrow> u64 \<Rightarrow> idt_entry list \<Rightarrow> idt_entry list" where
  "set_idt_gate n addr idt = idt[n := (idt ! n)
     \<lparr>offset_low := ucast (addr AND 0xFFFF), selector := 0x08, ist := 0, type_attr := 0x8E,
      offset_mid := ucast (drop_bit 16 addr AND 0xFFFF), offset_high := ucast (drop_bit 32 addr AND 0xFFFFFFFF),
      ie_reserved := 0\<rparr>]"

text \<open>The table at \<open>base\<close> with the handler's address, and the operand of \<^verbatim>\<open>lidt\<close>.\<close>

definition init_idt :: "u64 \<Rightarrow> u64 \<Rightarrow> idt_entry list \<times> dt_ptr" where
  "init_idt base handler =
     (set_idt_gate 32 handler (replicate IDT_ENTRIES zero_idt_entry),
      \<lparr>dt_limit = of_nat (IDT_ENTRIES * idt_entry_size - 1), dt_base = base\<rparr>)"

definition start_gdt :: "u64 \<Rightarrow> gdt_entry list \<times> dt_ptr" where
  "start_gdt base =
     ([zero_gdt_entry,
       zero_gdt_entry\<lparr>limit_low := 0xFFFF, access_byte := 0x9A, flags_limit := 0xAF\<rparr>,
       zero_gdt_entry\<lparr>limit_low := 0xFFFF, access_byte := 0x92, flags_limit := 0xCF\<rparr>],
      \<lparr>dt_limit = of_nat (3 * gdt_entry_size - 1), dt_base = base\<rparr>)"

subsection \<open>How the processor takes an interrupt\<close>

text \<open>
  AMD64, volume 2, section 8.9: the vector selects a 16-byte gate inside the table's limit; the
  gate must be a present interrupt gate, and its selector must name a present 64-bit code
  segment of ring 0 inside the limit of the global table. Then execution continues at the
  gate's offset.
\<close>

definition gate_offset :: "idt_entry \<Rightarrow> u64" where
  "gate_offset e = ucast (offset_low e) OR push_bit 16 (ucast (offset_mid e)) OR push_bit 32 (ucast (offset_high e))"

definition long_code_segment :: "gdt_entry \<Rightarrow> bool" where
  "long_code_segment d \<longleftrightarrow> access_byte d AND 0xF8 = 0x98 \<and> flags_limit d AND 0x60 = 0x20"

definition interrupt_target :: "idt_entry list \<times> dt_ptr \<Rightarrow> gdt_entry list \<times> dt_ptr \<Rightarrow> nat \<Rightarrow> u64 option" where
  "interrupt_target idt gdt n =
     (if n * idt_entry_size + (idt_entry_size - 1) > unat (dt_limit (snd idt)) then None else
      let e = fst idt ! n; k = unat (selector e) div gdt_entry_size in
      if type_attr e AND 0x9F = 0x8E \<and> selector e AND 7 = 0 \<and> k \<noteq> 0 \<and>
         k * gdt_entry_size + (gdt_entry_size - 1) \<le> unat (dt_limit (snd gdt)) \<and> long_code_segment (fst gdt ! k)
      then Some (gate_offset e) else None)"

lemma gate_offset_split:
  "ucast (ucast (addr AND 0xFFFF) :: u16) OR push_bit 16 (ucast (ucast (drop_bit 16 addr AND 0xFFFF) :: u16)) OR
     push_bit 32 (ucast (ucast (drop_bit 32 addr AND 0xFFFFFFFF) :: u32)) = (addr :: u64)"
proof -
  have masks: "(0xFFFF :: u64) = mask 16" "(0xFFFFFFFF :: u64) = mask 32" by (simp_all add: mask_eq_exp_minus_1)
  show ?thesis unfolding masks
  proof (rule bit_word_eqI)
    fix n assume "n < LENGTH(64)"
    then consider "n < 16" | "16 \<le> n" "n < 32" | "32 \<le> n" "n < 64" by force
    then show "bit (ucast (ucast (addr AND mask 16) :: u16) OR push_bit 16 (ucast (ucast (drop_bit 16 addr AND mask 16) :: u16)) OR
        push_bit 32 (ucast (ucast (drop_bit 32 addr AND mask 32) :: u32)) :: u64) n = bit addr n"
      by cases (auto simp: bit_simps)
  qed
qed

text \<open>
  The interrupt the host injects runs the guest's handler: with the tables the guest has
  loaded, the vector of \<^verbatim>\<open>inject_irq\<close> selects a present 64-bit interrupt gate inside the
  table, its selector names the ring-0 long-mode code segment, and its three offset fields put
  together are the handler's address, for every address.
\<close>

lemma injected_interrupt_reaches_handler:
  "interrupt_target (init_idt base handler) (start_gdt base') (unat IRQ_NUM) = Some handler"
proof -
  let ?e = "\<lparr>offset_low = ucast (handler AND 0xFFFF), selector = 0x08, ist = 0, type_attr = 0x8E,
    offset_mid = ucast (drop_bit 16 handler AND 0xFFFF), offset_high = ucast (drop_bit 32 handler AND 0xFFFFFFFF), ie_reserved = 0\<rparr>"
  have "fst (init_idt base handler) ! 32 = ?e"
    by (simp add: init_idt_def set_idt_gate_def IDT_ENTRIES_def zero_idt_entry_def)
  moreover have "gate_offset ?e = handler" unfolding gate_offset_def using gate_offset_split by simp
  moreover have "dt_limit (snd (init_idt base handler)) = 1023" "dt_limit (snd (start_gdt base')) = 23"
    by (simp_all add: init_idt_def start_gdt_def IDT_ENTRIES_def idt_entry_size_def gdt_entry_size_def)
  moreover have "long_code_segment (fst (start_gdt base') ! 1)" by (simp add: start_gdt_def long_code_segment_def)
  ultimately show ?thesis
    by (simp add: interrupt_target_def IRQ_NUM_def idt_entry_size_def gdt_entry_size_def Let_def)
qed

subsection \<open>After the transfer\<close>

text \<open>\<^verbatim>\<open>ud2\<close>, or the loop of \<^verbatim>\<open>hlt\<close> in which the program stays.\<close>

datatype main_end = Invalid_Opcode | Halt_Loop

definition main_tail :: "bool \<Rightarrow> guest \<Rightarrow> (main_end \<times> guest) option" where
  "main_tail succeeded s =
     (if \<not> succeeded then do {
        s \<leftarrow> print_bytes (bytes_of (''Shared buffer transfer failed.'' @ newline)) s;
        Some (Invalid_Opcode, s) }
      else do {
        s \<leftarrow> print_bytes (bytes_of (''Shared buffer transfer complete.'' @ newline)) s;
        s \<leftarrow> print_bytes (bytes_of (''Hello, world!'' @ newline)) s;
        s \<leftarrow> print_bytes (bytes_of ''Enter one character: '') s;
        (input, s) \<leftarrow> cpu_inb 0xE9 s;
        s \<leftarrow> print_bytes (bytes_of ''Guest received: '') s;
        s \<leftarrow> cpu_outb 0xE9 input s;
        s \<leftarrow> cpu_outb 0xE9 10 s;
        Some (Halt_Loop, s) })"

definition says :: "string \<Rightarrow> guest \<Rightarrow> guest \<Rightarrow> bool" where
  "says t s s' \<longleftrightarrow> printed (g_context s) (to_out t (w_console (g_world s))) s s'"

lemma bytes_of_line: "bytes_of (n @ newline) = bytes_of n @ [10]"
  by (simp add: bytes_of_def newline_def)

lemma printed_room: "printed c con s s' \<Longrightarrow> 1025 \<le> mapping_size (g_vm s) \<Longrightarrow> 1025 \<le> mapping_size (g_vm s')"
  by (auto simp: printed_def mapping_size_def)

lemma printed_console: "printed c con s s' \<Longrightarrow> w_console (g_world s') = con"
  by (auto simp: printed_def)

lemma printed_trans: "printed c con s s1 \<Longrightarrow> printed c' con' s1 s2 \<Longrightarrow> printed c' con' s s2"
  by (auto simp: printed_def)

lemma line_printed:
  assumes "1025 \<le> mapping_size (g_vm s)" and "10 \<notin> set bs" and "serialOutputBuffer (g_context s) = []"
  shows "\<exists>s'. print_bytes (bs @ [10]) s = Some s' \<and> says (tagged_line s (text_of bs @ newline)) s s'"
  using print_bytes_writes [OF assms(1) line_written [OF assms(2,3)]]
  by (simp add: says_def tagged_line_def vm_prefix_def)

lemma serial_in:
  assumes "1025 \<le> mapping_size (g_vm s)" and "flushSerialOutput (g_context s) True (w_console (g_world s)) = (c', con')"
    and "con_in con' = x # rest"
  shows "\<exists>s'. cpu_inb 0xE9 s = Some (of_nat (of_char x), s') \<and> printed c' (con'\<lparr>con_in := rest\<rparr>) s s'"
proof -
  define rn where "rn = (run (g_vm s))\<lparr>exit_reason := KVM_EXIT_IO,
     io := \<lparr>io_direction = KVM_EXIT_IO_IN, io_size = 1, io_port = 0xE9, io_count = 1, io_data_offset = 1024\<rparr>\<rparr>"
  define rn' where "rn' = rn\<lparr>run_data := (run_data rn)(1024 := of_nat (of_char x))\<rparr>"
  have rn: "io rn = \<lparr>io_direction = KVM_EXIT_IO_IN, io_size = 1, io_port = 0xE9, io_count = 1, io_data_offset = 1024\<rparr>"
    by (simp add: rn_def)
  have "handleSerialIo (g_context s) ((g_vm s)\<lparr>run := rn\<rparr>) (w_console (g_world s)) =
      (True, c', (g_vm s)\<lparr>run := rn'\<rparr>, con'\<lparr>con_in := rest\<rparr>)"
    using assms by (simp add: handleSerialIo_def rn rn'_def mapping_size_def)
  then have "port_device (g_context s, g_world s) ((g_vm s)\<lparr>run := rn\<rparr>) =
      Done (True, (c', (g_world s)\<lparr>w_console := con'\<lparr>con_in := rest\<rparr>\<rparr>), (g_vm s)\<lparr>run := rn'\<rparr>)"
    by (simp add: port_device_def serial_device_def rn FILE_IO_PORT_def shared_buffer_consts)
  moreover have "(run (g_vm s))\<lparr>exit_reason := KVM_EXIT_IO,
     io := \<lparr>io_direction = KVM_EXIT_IO_IN, io_size = 1, io_port = 0xE9, io_count = 1, io_data_offset = 1024\<rparr>,
     run_data := run_data (run (g_vm s))\<rparr> = rn" by (simp add: rn_def)
  ultimately have "port_call KVM_EXIT_IO_IN 0xE9 1 [] s = Some \<lparr>g_context = c', g_vm = (g_vm s)\<lparr>run := rn'\<rparr>,
      g_world = (g_world s)\<lparr>w_console := con'\<lparr>con_in := rest\<rparr>\<rparr>\<rparr>"
    by (simp add: port_call_def Let_def)
  then show ?thesis by (auto simp: cpu_inb_def rn'_def printed_def)
qed

text \<open>A prompt without a newline is completed and shown when the guest reads.\<close>

lemma prompt_and_read:
  assumes "1025 \<le> mapping_size (g_vm s)" and "10 \<notin> set bs" and "bs \<noteq> []" and "serialOutputBuffer (g_context s) = []"
    and "con_in (w_console (g_world s)) = x # rest"
  shows "\<exists>s1 s2. print_bytes bs s = Some s1 \<and> cpu_inb 0xE9 s1 = Some (of_nat (of_char x), s2) \<and>
    printed (g_context s) ((to_out (tagged_line s (text_of bs @ newline)) (w_console (g_world s)))\<lparr>con_in := rest\<rparr>) s s2"
proof -
  let ?c = "(g_context s)\<lparr>serialOutputBuffer := text_of bs\<rparr>" and ?con = "w_console (g_world s)"
  have "serial_write (g_context s) bs ?con = (?c, ?con)" using serial_write_plain [OF assms(2)] assms(4) by simp
  from print_bytes_writes [OF assms(1) this] obtain s1 where s1: "print_bytes bs s = Some s1" "printed ?c ?con s s1" by blast
  have ne: "text_of bs \<noteq> []" "last (text_of bs) \<noteq> char_of (10 :: nat)"
  proof -
    show "text_of bs \<noteq> []" using assms(3) by (simp add: text_of_def)
    have "last bs \<noteq> 10" using assms(2,3) last_in_set by metis
    then show "last (text_of bs) \<noteq> char_of (10 :: nat)"
      using assms(3) newline_byte [of "last bs"] by (simp add: text_of_def last_map char_of_eq_iff take_bit_eq_mod)
  qed
  have back_c: "(g_context s)\<lparr>serialOutputBuffer := []\<rparr> = g_context s" using assms(4) by simp
  have "flushSerialOutput (g_context s1) True (w_console (g_world s1)) =
      (g_context s, to_out (tagged_line s (text_of bs @ newline)) ?con)"
    using s1(2) ne back_c
    by (auto simp: printed_def flushSerialOutput_def to_out_def vm_prefix_def tagged_line_def)
  from serial_in [OF printed_room [OF s1(2) assms(1)] this, of x rest] assms(5)
  obtain s2 where "cpu_inb 0xE9 s1 = Some (of_nat (of_char x), s2)"
    "printed (g_context s) ((to_out (tagged_line s (text_of bs @ newline)) ?con)\<lparr>con_in := rest\<rparr>) s1 s2"
    by (auto simp: to_out_def)
  moreover from this(2) s1(2) have "printed (g_context s) ((to_out (tagged_line s (text_of bs @ newline)) ?con)\<lparr>con_in := rest\<rparr>) s s2"
    by (auto simp: printed_def)
  ultimately show ?thesis using s1(1) by blast
qed

text \<open>The whole of the successful end, for a character that is no newline.\<close>

lemma main_tail_output:
  assumes "1025 \<le> mapping_size (g_vm s)" and "serialOutputBuffer (g_context s) = []"
    and "con_in (w_console (g_world s)) = x # rest" and "of_char x \<noteq> (10 :: nat)"
  shows "\<exists>s'. main_tail True s = Some (Halt_Loop, s') \<and> printed (g_context s) ((w_console (g_world s))
    \<lparr>con_out := con_out (w_console (g_world s)) @ tagged_line s (''Shared buffer transfer complete.'' @ newline) @
       tagged_line s (''Hello, world!'' @ newline) @ tagged_line s (''Enter one character: '' @ newline) @
       tagged_line s (''Guest received: '' @ [x] @ newline), con_in := rest\<rparr>) s s'"
proof -
  let ?con = "w_console (g_world s)" and ?c = "g_context s" and ?y = "of_nat (of_char x) :: u8"
  let ?l1 = "bytes_of ''Shared buffer transfer complete.''" and ?l2 = "bytes_of ''Hello, world!''"
  let ?p = "bytes_of ''Enter one character: ''" and ?r = "bytes_of ''Guest received: ''"
  have y: "text_of [?y] = [x]" using text_of_bytes [of "[x]"] by (simp add: bytes_of_def)
  have "?y \<noteq> 10"
  proof
    assume "?y = 10"
    then have "[x] = text_of [10]" using y by simp
    then show False using assms(4) by (simp add: newline_def)
  qed
  then have clean: "10 \<notin> set ?l1" "10 \<notin> set ?l2" "10 \<notin> set ?p" "?p \<noteq> []" "10 \<notin> set (?r @ [?y])"
    by (simp_all add: bytes_of_def)
  obtain s1 where s1: "print_bytes (?l1 @ [10]) s = Some s1" "printed ?c (to_out (tagged_line s (text_of ?l1 @ newline)) ?con) s s1"
    using line_printed [OF assms(1) clean(1) assms(2)] by (auto simp: says_def)
  have c1: "1025 \<le> mapping_size (g_vm s1)" "g_context s1 = ?c" using printed_room [OF s1(2) assms(1)] s1(2) by (auto simp: printed_def)
  obtain s2 where s2: "print_bytes (?l2 @ [10]) s1 = Some s2"
      "printed ?c (to_out (tagged_line s1 (text_of ?l2 @ newline)) (w_console (g_world s1))) s1 s2"
    using line_printed [OF c1(1) clean(2)] c1(2) assms(2) by (auto simp: says_def)
  have c2: "1025 \<le> mapping_size (g_vm s2)" "g_context s2 = ?c" using printed_room [OF s2(2) c1(1)] s2(2) by (auto simp: printed_def)
  have in2: "con_in (w_console (g_world s2)) = x # rest" using s1(2) s2(2) assms(3) by (auto simp: printed_def to_out_def)
  obtain s3 s4 where s3: "print_bytes ?p s2 = Some s3" and s4: "cpu_inb 0xE9 s3 = Some (?y, s4)"
      "printed ?c ((to_out (tagged_line s2 (text_of ?p @ newline)) (w_console (g_world s2)))\<lparr>con_in := rest\<rparr>) s2 s4"
    using prompt_and_read [OF c2(1) clean(3,4) _ in2] c2(2) assms(2) by auto
  have c4: "1025 \<le> mapping_size (g_vm s4)" "g_context s4 = ?c" using printed_room [OF s4(2) c2(1)] s4(2) by (auto simp: printed_def)
  obtain s5 where s5: "print_bytes ((?r @ [?y]) @ [10]) s4 = Some s5"
      "printed ?c (to_out (tagged_line s4 (text_of (?r @ [?y]) @ newline)) (w_console (g_world s4))) s4 s5"
    using line_printed [OF c4(1) clean(5)] c4(2) assms(2) by (auto simp: says_def)
  have "main_tail True s = Some (Halt_Loop, s5)"
    using s1(1) s2(1) s3 s4(1) s5(1) unfolding main_tail_def bytes_of_line
    by (simp add: print_bytes_append bind_eq_Some_conv) blast
  moreover have "printed ?c (w_console (g_world s5)) s s5"
    by (rule printed_trans [OF printed_trans [OF printed_trans [OF s1(2) s2(2)] s4(2)] s5(2), folded printed_console [OF s5(2)]])
  moreover have "tagged_line t n = tagged_line s n" if "g_context t = ?c" for t n using that by (simp add: tagged_line_def)
  note tags = this [OF c1(2)] this [OF c2(2)] this [OF c4(2)]
  have "w_console (g_world s5) = ?con\<lparr>con_out := con_out ?con @ tagged_line s (''Shared buffer transfer complete.'' @ newline) @
       tagged_line s (''Hello, world!'' @ newline) @ tagged_line s (''Enter one character: '' @ newline) @
       tagged_line s (''Guest received: '' @ [x] @ newline), con_in := rest\<rparr>"
    unfolding printed_console [OF s5(2)] printed_console [OF s4(2)] printed_console [OF s2(2)] printed_console [OF s1(2)]
      text_of_append y text_of_bytes tags by (simp add: to_out_def)
  ultimately show ?thesis by (intro exI [of _ s5]) simp
qed

subsection \<open>The first interrupt\<close>

text \<open>It stores the mode the host delivers and prints it; the next one transfers.\<close>

lemma first_interrupt:
  assumes "\<not> mode_initialized g" and "linked i r s" and "\<not> modeDelivered (part r i)" and "serialOutputBuffer (g_context s) = []"
  shows "\<exists>s' r'. irq0_handler L g s = Some (g\<lparr>vm_mode := sb_mode (part r i), mode_initialized := True\<rparr>, s') \<and> linked i r' s' \<and>
    part r' i = (part r i)\<lparr>modeDelivered := True\<rparr> \<and> shbuf r' = shbuf r \<and> guest_host s' = guest_host s \<and>
    con_out (w_console (g_world s')) = con_out (w_console (g_world s)) @
      tagged_line s ((if sb_mode (part r i) = VM_MODE_WRITER then ''Mode: writer'' else ''Mode: reader'') @ newline)"
proof -
  let ?m = "if sb_mode (part r i) = VM_MODE_WRITER then ''Mode: writer'' else ''Mode: reader''"
  let ?r = "updated r i ((part r i)\<lparr>modeDelivered := True\<rparr>) (shbuf r) (sent r) (got r i)"
  have i: "i < length (machines r)" using assms(2) by (simp add: linked_def)
  obtain s1 where s1: "cpu_inb SHARED_BUFFER_PORT s = Some (sb_mode (part r i), s1)" "linked i ?r s1" "buffer_only s s1"
    using inb_linked [OF assms(2) inb_mode [OF assms(3)]] by blast
  have c1: "serialOutputBuffer (g_context s1) = []" "1025 \<le> mapping_size (g_vm s1)" "tagged_line s1 n = tagged_line s n"
    "g_world s1 = set_buffer (g_world s) (buffer_state (w_shared (g_world s1)))" for n
    using s1(2,3) assms(4) by (auto simp: buffer_only_def shifted_def tagged_line_def linked_def set_buffer_def)
  have clean: "10 \<notin> set (bytes_of ?m)" by (simp add: bytes_of_def)
  obtain s2 where s2: "print_bytes (bytes_of ?m @ [10]) s1 = Some s2" "says (tagged_line s1 (text_of (bytes_of ?m) @ newline)) s1 s2"
    using line_printed [OF c1(2) clean c1(1)] by blast
  have "irq0_handler L g s = Some (g\<lparr>vm_mode := sb_mode (part r i), mode_initialized := True\<rparr>, s2)"
    using s1(1) s2(1) assms(1) by (simp add: irq0_handler_def bytes_of_line)
  moreover have "linked i ?r s2" using s1(2) s2(2) by (auto simp: linked_def says_def printed_def mapping_size_def)
  moreover have "guest_host s2 = guest_host s" "con_out (w_console (g_world s2)) = con_out (w_console (g_world s)) @ tagged_line s (?m @ newline)"
    using s2(2) arg_cong [OF c1(4), of w_host] arg_cong [OF c1(4), of w_console] c1(3)
    by (auto simp: says_def printed_def to_out_def set_buffer_def)
  ultimately show ?thesis using i by (intro exI [of _ s2] exI [of _ ?r]) simp
qed

end
