(* ===== verification/Guest_Start.thy ===== *)
theory Guest_Start
  imports Guest_Main
begin

text \<open>
  \<^verbatim>\<open>_start\<close> of \<^verbatim>\<open>guest/src/main.c\<close>: the inline assembly that loads the tables and the segment
  registers, and the whole program as a step relation. The processor checks what it loads; a
  check that fails is \<open>None\<close> (the program has no handler for the exception). Interrupts arrive
  in the waiting loop: the host injects at most two (the theory \<open>Vm_Runner\<close>), and the loop ends
  only when the second one has been handled. Between the steps of one program the others may
  change everything machines share.
\<close>

subsection \<open>The processor\<close>

record processor =
  gdtr :: "gdt_entry list \<times> dt_ptr"
  idtr :: "idt_entry list \<times> dt_ptr"
  reg_cs :: u16
  reg_ds :: u16
  reg_es :: u16
  reg_ss :: u16
  interrupts_on :: bool

text \<open>
  AMD64, volume 2, sections 4.7 and 4.8, at privilege level 0: a selector with bit 2 names the
  local table, which is not set up; the entry lies inside the limit. A far return to 64-bit
  code needs a present ring-0 long-mode code segment, a data register any present data or
  readable code segment that its privilege level allows, the stack register a present writable
  data segment of ring 0. In 64-bit mode the null selector may be loaded into the last two kinds.
\<close>

definition descriptor_of :: "processor \<Rightarrow> u16 \<Rightarrow> gdt_entry option" where
  "descriptor_of p sel =
     (let k = unat sel div gdt_entry_size in
      if sel AND 4 = 0 \<and> k * gdt_entry_size + (gdt_entry_size - 1) \<le> unat (dt_limit (snd (gdtr p))) \<and> k < length (fst (gdtr p))
      then Some (fst (gdtr p) ! k) else None)"

definition null_selector :: "u16 \<Rightarrow> bool" where
  "null_selector sel \<longleftrightarrow> sel AND 0xFFFC = 0"

definition data_segment :: "u16 \<Rightarrow> gdt_entry \<Rightarrow> bool" where
  "data_segment sel d \<longleftrightarrow> access_byte d AND 0x90 = 0x90 \<and> (access_byte d AND 0x08 = 0 \<or> access_byte d AND 0x02 = 0x02) \<and>
     unat (sel AND 3) \<le> unat (drop_bit 5 (access_byte d) AND 3)"

definition stack_segment :: "u16 \<Rightarrow> gdt_entry \<Rightarrow> bool" where
  "stack_segment sel d \<longleftrightarrow> access_byte d AND 0xFA = 0x92 \<and> sel AND 3 = 0"

definition far_return :: "u16 \<Rightarrow> processor \<Rightarrow> processor option" where
  "far_return sel p =
     (case descriptor_of p sel of None \<Rightarrow> None
      | Some d \<Rightarrow> if \<not> null_selector sel \<and> sel AND 3 = 0 \<and> long_code_segment d then Some (p\<lparr>reg_cs := sel\<rparr>) else None)"

definition loadable :: "(gdt_entry \<Rightarrow> bool) \<Rightarrow> u16 \<Rightarrow> processor \<Rightarrow> bool" where
  "loadable ok sel p \<longleftrightarrow> null_selector sel \<or> (case descriptor_of p sel of None \<Rightarrow> False | Some d \<Rightarrow> ok d)"

definition move_ds :: "u16 \<Rightarrow> processor \<Rightarrow> processor option" where
  "move_ds sel p = (if loadable (data_segment sel) sel p then Some (p\<lparr>reg_ds := sel\<rparr>) else None)"

definition move_es :: "u16 \<Rightarrow> processor \<Rightarrow> processor option" where
  "move_es sel p = (if loadable (data_segment sel) sel p then Some (p\<lparr>reg_es := sel\<rparr>) else None)"

definition move_ss :: "u16 \<Rightarrow> processor \<Rightarrow> processor option" where
  "move_ss sel p = (if loadable (stack_segment sel) sel p then Some (p\<lparr>reg_ss := sel\<rparr>) else None)"

subsection \<open>The start-up code\<close>

text \<open>Where the linker puts the two tables and the handler.\<close>

record program_layout =
  pl_gdt :: u64
  pl_idt :: u64
  pl_handler :: u64
  pl_test :: test_layout
  pl_transfer :: transfer_layout

definition start_processor :: "program_layout \<Rightarrow> processor \<Rightarrow> processor option" where
  "start_processor L p = do {
     let p = p\<lparr>gdtr := start_gdt (pl_gdt L)\<rparr>;
     p \<leftarrow> far_return 0x08 p;
     p \<leftarrow> move_ds 0x10 p;
     p \<leftarrow> move_es 0x10 p;
     p \<leftarrow> move_ss 0x10 p;
     Some (p\<lparr>idtr := init_idt (pl_idt L) (pl_handler L)\<rparr>) }"

text \<open>An interrupt of the vector is taken to the handler.\<close>

definition interrupt_reaches :: "processor \<Rightarrow> nat \<Rightarrow> u64 \<Rightarrow> bool" where
  "interrupt_reaches p n handler \<longleftrightarrow> interrupts_on p \<and> interrupt_target (idtr p) (gdtr p) n = Some handler"

lemma start_descriptors:
  "gdtr p = start_gdt base \<Longrightarrow> descriptor_of p 0x08 = Some (zero_gdt_entry\<lparr>limit_low := 0xFFFF, access_byte := 0x9A, flags_limit := 0xAF\<rparr>)"
  "gdtr p = start_gdt base \<Longrightarrow> descriptor_of p 0x10 = Some (zero_gdt_entry\<lparr>limit_low := 0xFFFF, access_byte := 0x92, flags_limit := 0xCF\<rparr>)"
  by (simp_all add: descriptor_of_def start_gdt_def gdt_entry_size_def Let_def)

lemma start_processor_eq:
  "start_processor L p = Some (p\<lparr>gdtr := start_gdt (pl_gdt L), idtr := init_idt (pl_idt L) (pl_handler L),
     reg_cs := 0x08, reg_ds := 0x10, reg_es := 0x10, reg_ss := 0x10\<rparr>)"
  by (simp add: start_processor_def far_return_def move_ds_def move_es_def move_ss_def loadable_def start_descriptors
      null_selector_def long_code_segment_def data_segment_def stack_segment_def zero_gdt_entry_def)

text \<open>
  C29. The start-up code always succeeds and arms the interrupt: whatever the processor held and
  wherever the tables and the handler are, every load of a segment register passes the
  processor's checks, the code segment is the 64-bit one and the data registers the writable
  data segment, interrupts stay as they were, and once they are enabled the vector of
  \<^verbatim>\<open>inject_irq\<close> is taken to the handler through a present gate inside the table.
\<close>

theorem start_up_arms_interrupt:
  "\<exists>p'. start_processor L p = Some p' \<and> reg_cs p' = 0x08 \<and> reg_ds p' = 0x10 \<and> reg_es p' = 0x10 \<and> reg_ss p' = 0x10 \<and>
     interrupts_on p' = interrupts_on p \<and> interrupt_reaches (p'\<lparr>interrupts_on := True\<rparr>) (unat IRQ_NUM) (pl_handler L)"
  unfolding start_processor_eq by (simp add: interrupt_reaches_def injected_interrupt_reaches_handler)

subsection \<open>The program\<close>

text \<open>
  The instructions of \<^verbatim>\<open>_start\<close> up to the waiting loop, with the calls of \<^verbatim>\<open>init_idt\<close> and
  \<^verbatim>\<open>test_file_io\<close>; the loads of the segment registers are single instructions.
\<close>

datatype start_instruction =
    Load_Gdt | Far_Return u16 | Move_Ds u16 | Move_Es u16 | Move_Ss u16 | Init_Idt | Test_File_Io | Set_Interrupt_Flag

definition start_code :: "start_instruction list" where
  "start_code = [Load_Gdt, Far_Return 0x08, Move_Ds 0x10, Move_Es 0x10, Move_Ss 0x10, Init_Idt, Test_File_Io, Set_Interrupt_Flag]"

fun on_processor :: "program_layout \<Rightarrow> start_instruction \<Rightarrow> processor \<Rightarrow> processor option" where
  "on_processor L Load_Gdt p = Some (p\<lparr>gdtr := start_gdt (pl_gdt L)\<rparr>)"
| "on_processor L (Far_Return sel) p = far_return sel p"
| "on_processor L (Move_Ds sel) p = move_ds sel p"
| "on_processor L (Move_Es sel) p = move_es sel p"
| "on_processor L (Move_Ss sel) p = move_ss sel p"
| "on_processor L Init_Idt p = Some (p\<lparr>idtr := init_idt (pl_idt L) (pl_handler L)\<rparr>)"
| "on_processor L Test_File_Io p = Some p"
| "on_processor L Set_Interrupt_Flag p = Some (p\<lparr>interrupts_on := True\<rparr>)"

text \<open>
  \<open>Starting\<close>: the instructions still to come. \<open>Awaiting\<close>: the handler has sent the file and its status read waits for the readers; the
  two results of its file part are on its stack.
\<close>

datatype program_phase = Starting "start_instruction list" | Waiting_Loop | Awaiting i32 i32 | Program_Ended main_end

record program =
  pr_phase :: program_phase
  pr_processor :: processor
  pr_interrupts :: int   \<comment> \<open>what the host still has to inject\<close>
  pr_vars :: transfer_vars
  pr_guest :: guest

text \<open>The static variables are zero, and the host starts the machine with interrupts off.\<close>

definition initial_vars :: transfer_vars where
  "initial_vars = \<lparr>transfer_finished = False, transfer_succeeded = False, vm_mode = 0, mode_initialized = False\<rparr>"

definition program_begin :: "processor \<Rightarrow> guest \<Rightarrow> program" where
  "program_begin p s = \<lparr>pr_phase = Starting start_code, pr_processor = p\<lparr>interrupts_on := False\<rparr>, pr_interrupts = IRQ_COUNT,
     pr_vars = initial_vars, pr_guest = s\<rparr>"

definition on_guest :: "program_layout \<Rightarrow> start_instruction \<Rightarrow> guest \<Rightarrow> guest option" where
  "on_guest L i s = (if i = Test_File_Io then test_file_io (pl_test L) s else Some s)"

definition execute :: "program_layout \<Rightarrow> start_instruction \<Rightarrow> program \<Rightarrow> program option" where
  "execute L i m = do {
     p \<leftarrow> on_processor L i (pr_processor m);
     s \<leftarrow> on_guest L i (pr_guest m);
     Some (m\<lparr>pr_processor := p, pr_guest := s\<rparr>) }"

text \<open>The start-up without anybody in between.\<close>

fun run_start :: "program_layout \<Rightarrow> start_instruction list \<Rightarrow> program \<Rightarrow> program option" where
  "run_start L [] m = Some (m\<lparr>pr_phase := Waiting_Loop\<rparr>)"
| "run_start L (i # is) m = do { m \<leftarrow> execute L i (m\<lparr>pr_phase := Starting is\<rparr>); run_start L is m }"

definition start_program :: "program_layout \<Rightarrow> program \<Rightarrow> program option" where
  "start_program L m = run_start L start_code m"

lemma start_program_eq:
  "start_program L m = do {
     p \<leftarrow> start_processor L (pr_processor m);
     s \<leftarrow> test_file_io (pl_test L) (pr_guest m);
     Some (m\<lparr>pr_phase := Waiting_Loop, pr_processor := p\<lparr>interrupts_on := True\<rparr>, pr_guest := s\<rparr>) }"
  by (cases m, cases "test_file_io (pl_test L) (pr_guest m)")
    (simp_all add: start_program_def start_code_def execute_def on_guest_def start_processor_def far_return_def move_ds_def move_es_def
      move_ss_def loadable_def start_descriptors null_selector_def long_code_segment_def data_segment_def stack_segment_def
      zero_gdt_entry_def)

text \<open>
  The gate clears the interrupt flag while the handler runs, and its return sets it again:
  \<open>interrupts_on\<close> is the flag outside of the handler, and no step takes an interrupt inside it.
\<close>

definition take_interrupt :: "program_layout \<Rightarrow> program \<Rightarrow> program option" where
  "take_interrupt L m =
     (if pr_interrupts m \<le> 0 \<or> \<not> interrupt_reaches (pr_processor m) (unat IRQ_NUM) (pl_handler L) then None else
      let m = m\<lparr>pr_interrupts := pr_interrupts m - 1\<rparr> in
      if mode_initialized (pr_vars m) \<and> vm_mode (pr_vars m) = VM_MODE_WRITER then do {
        (bytes_read, close_result, s) \<leftarrow> broadcast_file (pl_transfer L) (pr_guest m);
        Some (m\<lparr>pr_phase := Awaiting bytes_read close_result, pr_guest := s\<rparr>) }
      else do {
        (g, s) \<leftarrow> irq0_handler (pl_transfer L) (pr_vars m) (pr_guest m);
        Some (m\<lparr>pr_vars := g, pr_guest := s\<rparr>) })"

definition end_handler :: "i32 \<Rightarrow> i32 \<Rightarrow> program \<Rightarrow> program option" where
  "end_handler bytes_read close_result m = do {
     (ok, s) \<leftarrow> await_readers bytes_read close_result (pr_guest m);
     Some (m\<lparr>pr_phase := Waiting_Loop, pr_vars := (pr_vars m)\<lparr>transfer_succeeded := ok, transfer_finished := True\<rparr>, pr_guest := s\<rparr>) }"

definition communication_finished :: "transfer_vars \<Rightarrow> bool" where
  [simp]: "communication_finished g \<longleftrightarrow> transfer_finished g"

definition communication_succeeded :: "transfer_vars \<Rightarrow> bool" where
  [simp]: "communication_succeeded g \<longleftrightarrow> transfer_succeeded g"

definition leave_loop :: "program \<Rightarrow> program option" where
  "leave_loop m = do {
     (e, s) \<leftarrow> main_tail (communication_succeeded (pr_vars m)) (pr_guest m);
     Some (m\<lparr>pr_phase := Program_Ended e, pr_guest := s\<rparr>) }"

inductive program_step :: "program_layout \<Rightarrow> program \<Rightarrow> program \<Rightarrow> bool" for L where
  started: "pr_phase m = Starting start_code \<Longrightarrow> start_program L m = Some m' \<Longrightarrow> program_step L m m'"
| interrupted: "pr_phase m = Waiting_Loop \<Longrightarrow> take_interrupt L m = Some m' \<Longrightarrow> program_step L m m'"
| handled: "pr_phase m = Awaiting bytes_read close_result \<Longrightarrow> end_handler bytes_read close_result m = Some m' \<Longrightarrow> program_step L m m'"
| left: "pr_phase m = Waiting_Loop \<Longrightarrow> communication_finished (pr_vars m) \<Longrightarrow> leave_loop m = Some m' \<Longrightarrow> program_step L m m'"

inductive_cases program_stepE: "program_step L m m'"

text \<open>The same with every instruction of the start-up as a step.\<close>

inductive instruction_step :: "program_layout \<Rightarrow> program \<Rightarrow> program \<Rightarrow> bool" for L where
  instruction: "pr_phase m = Starting (i # is) \<Longrightarrow> execute L i (m\<lparr>pr_phase := Starting is\<rparr>) = Some m' \<Longrightarrow> instruction_step L m m'"
| looping: "pr_phase m = Starting [] \<Longrightarrow> instruction_step L m (m\<lparr>pr_phase := Waiting_Loop\<rparr>)"
| later: "(\<nexists>is. pr_phase m = Starting is) \<Longrightarrow> program_step L m m' \<Longrightarrow> instruction_step L m m'"

inductive_simps ended_step: "program_step L (m\<lparr>pr_phase := Program_Ended e\<rparr>) m'"

text \<open>With nobody in between, the two halves of the writer's handler are the handler.\<close>

lemma handler_halves:
  assumes "mode_initialized (pr_vars m)" and "vm_mode (pr_vars m) = VM_MODE_WRITER" and "pr_phase m = Waiting_Loop"
    and "take_interrupt L m = Some m1" and "pr_phase m1 = Awaiting br cr" and "end_handler br cr m1 = Some m2"
  shows "irq0_handler (pl_transfer L) (pr_vars m) (pr_guest m) = Some (pr_vars m2, pr_guest m2)"
proof -
  obtain s where s: "broadcast_file (pl_transfer L) (pr_guest m) = Some (br, cr, s)"
    "m1 = m\<lparr>pr_interrupts := pr_interrupts m - 1, pr_phase := Awaiting br cr, pr_guest := s\<rparr>"
    using assms(1,2,4,5) by (auto simp: take_interrupt_def Let_def bind_eq_Some_conv split: if_splits)
  then show ?thesis
    using assms(1,2,6) by (auto simp: end_handler_def irq0_handler_def guest_write_shared_buffer_def bind_eq_Some_conv)
qed

subsection \<open>A machine of its own\<close>

text \<open>
  The steps of one program, each instruction of its start-up by itself, between which the others
  may change what machines share.
\<close>

inductive program_run :: "program_layout \<Rightarrow> program \<Rightarrow> program \<Rightarrow> bool" for L m where
  none: "program_run L m m"
| step: "program_run L m m1 \<Longrightarrow> instruction_step L m1 m2 \<Longrightarrow> program_run L m m2"
| others: "program_run L m m1 \<Longrightarrow> program_run L m (m1\<lparr>pr_guest := (pr_guest m1)\<lparr>g_world := w\<rparr>\<rparr>)"

text \<open>What holds of the program at each point.\<close>

definition armed :: "program_layout \<Rightarrow> processor \<Rightarrow> bool" where
  "armed L p \<longleftrightarrow> interrupt_reaches p (unat IRQ_NUM) (pl_handler L) \<and>
     reg_cs p = 0x08 \<and> reg_ds p = 0x10 \<and> reg_es p = 0x10 \<and> reg_ss p = 0x10"

lemma program_run_start:
  "run_start L is m1 = Some m2 \<Longrightarrow> pr_phase m1 = Starting is \<Longrightarrow> program_run L m m1 \<Longrightarrow> program_run L m m2"
proof (induction "is" arbitrary: m1)
  case Nil
  then show ?case using program_run.step [OF _ instruction_step.looping] by fastforce
next
  case (Cons i "is")
  then obtain m3 where m3: "execute L i (m1\<lparr>pr_phase := Starting is\<rparr>) = Some m3" "run_start L is m3 = Some m2"
    by (auto simp: bind_eq_Some_conv)
  then have "pr_phase m3 = Starting is" by (auto simp: execute_def bind_eq_Some_conv)
  moreover have "program_run L m m3"
    using program_run.step [OF Cons.prems(3) instruction_step.instruction [OF Cons.prems(2) m3(1)]] .
  ultimately show ?case using Cons.IH m3(2) by blast
qed

lemma program_run_step: "program_run L m m1 \<Longrightarrow> program_step L m1 m2 \<Longrightarrow> program_run L m m2"
proof (cases "\<exists>is. pr_phase m1 = Starting is")
  case True
  assume run: "program_run L m m1" and step: "program_step L m1 m2"
  from step have "pr_phase m1 = Starting start_code \<and> run_start L start_code m1 = Some m2"
    by (cases rule: program_step.cases) (use True in \<open>simp_all add: start_program_def\<close>)
  then show "program_run L m m2" using program_run_start run by blast
next
  case False
  assume run: "program_run L m m1" and step: "program_step L m1 m2"
  show "program_run L m m2" by (rule program_run.step [OF run instruction_step.later [OF False step]])
qed

definition interrupts_left :: "program_phase \<Rightarrow> transfer_vars \<Rightarrow> int" where
  "interrupts_left ph g =
     (if \<not> mode_initialized g then 2 else if \<not> transfer_finished g \<and> ph = Waiting_Loop then 1 else 0)"

text \<open>How far the start-up has come: what has been executed since interrupts were off.\<close>

fun executed :: "program_layout \<Rightarrow> start_instruction list \<Rightarrow> processor \<Rightarrow> processor option" where
  "executed L [] p = Some p"
| "executed L (i # is) p = do { p \<leftarrow> on_processor L i p; executed L is p }"

definition started_up :: "program_layout \<Rightarrow> start_instruction list \<Rightarrow> processor \<Rightarrow> bool" where
  "started_up L rest p \<longleftrightarrow> (\<exists>before p0. start_code = before @ rest \<and> \<not> interrupts_on p0 \<and> executed L before p0 = Some p)"

definition program_inv :: "program_layout \<Rightarrow> program \<Rightarrow> bool" where
  "program_inv L m \<longleftrightarrow> (let g = pr_vars m in
     (case pr_phase m of Starting is \<Rightarrow> started_up L is (pr_processor m) | _ \<Rightarrow> armed L (pr_processor m)) \<and>
     pr_interrupts m = interrupts_left (pr_phase m) g \<and>
     (case pr_phase m of
        Starting is \<Rightarrow> \<not> mode_initialized g \<and> \<not> transfer_finished g
      | Waiting_Loop \<Rightarrow> transfer_finished g \<longrightarrow> mode_initialized g
      | Awaiting br cr \<Rightarrow> mode_initialized g \<and> vm_mode g = VM_MODE_WRITER \<and> \<not> transfer_finished g
      | Program_Ended e \<Rightarrow> mode_initialized g \<and> transfer_finished g \<and> (e = Halt_Loop \<longleftrightarrow> transfer_succeeded g)))"

lemma main_tail_end: "main_tail ok s = Some (e, s') \<Longrightarrow> e = Halt_Loop \<longleftrightarrow> ok"
  by (auto simp: main_tail_def bind_eq_Some_conv split: if_splits)

lemma handler_vars:
  assumes "irq0_handler L g s = Some (g', s')"
  shows "mode_initialized g' \<and> (transfer_finished g' \<longleftrightarrow> mode_initialized g \<or> transfer_finished g)"
proof (cases "mode_initialized g")
  case True
  then obtain ok where "g' = g\<lparr>transfer_succeeded := ok, transfer_finished := True\<rparr>"
    using assms by (auto simp: irq0_handler_def bind_eq_Some_conv)
  then show ?thesis using True by simp
next
  case False
  then obtain mode where "g' = g\<lparr>vm_mode := mode, mode_initialized := True\<rparr>"
    using assms by (auto simp: irq0_handler_def bind_eq_Some_conv simp del: print_bytes.simps)
  then show ?thesis using False by simp
qed

lemma armed_started: "armed L (p\<lparr>gdtr := start_gdt (pl_gdt L), idtr := init_idt (pl_idt L) (pl_handler L),
     reg_cs := 0x08, reg_ds := 0x10, reg_es := 0x10, reg_ss := 0x10, interrupts_on := True\<rparr>)"
  by (simp add: armed_def interrupt_reaches_def injected_interrupt_reaches_handler)

lemma executed_append: "executed L (is @ js) p = do { p \<leftarrow> executed L is p; executed L js p }"
  by (induction "is" arbitrary: p) (auto split: bind_split)

lemma started_up_execute:
  assumes "started_up L (i # is) p" and "on_processor L i p = Some p'"
  shows "started_up L is p'"
proof -
  obtain before p0 where "start_code = before @ i # is" "\<not> interrupts_on p0" "executed L before p0 = Some p"
    using assms(1) by (auto simp: started_up_def)
  then show ?thesis unfolding started_up_def
    by (intro exI [of _ "before @ [i]"] exI [of _ p0]) (simp add: executed_append assms(2))
qed

text \<open>Interrupts stay off until the last instruction, and then everything is loaded.\<close>

lemma processor_loads:
  assumes "on_processor L i p = Some p'" and "i \<noteq> Set_Interrupt_Flag"
  shows "interrupts_on p' = interrupts_on p"
  using assms by (cases i) (auto simp: far_return_def move_ds_def move_es_def move_ss_def split: if_splits option.splits)

lemma executed_loads:
  "executed L is p = Some p' \<Longrightarrow> Set_Interrupt_Flag \<notin> set is \<Longrightarrow> interrupts_on p' = interrupts_on p"
proof (induction "is" arbitrary: p)
  case (Cons i "is")
  then obtain q where "on_processor L i p = Some q" "executed L is q = Some p'" by (auto simp: bind_eq_Some_conv)
  moreover from this(1) have "interrupts_on q = interrupts_on p" by (rule processor_loads) (use Cons.prems(2) in auto)
  ultimately show ?case using Cons.IH Cons.prems(2) by simp
qed simp

lemma started_up_off:
  assumes "started_up L is p" and "is \<noteq> []"
  shows "\<not> interrupts_on p"
proof -
  obtain before p0 where p0: "start_code = before @ is" "\<not> interrupts_on p0" "executed L before p0 = Some p"
    using assms(1) by (auto simp: started_up_def)
  have "butlast start_code = before @ butlast is" by (metis butlast_append p0(1) assms(2))
  then have "set before \<subseteq> set (butlast start_code)" by simp
  then have "Set_Interrupt_Flag \<notin> set before" by (auto simp: start_code_def)
  then show ?thesis using executed_loads [OF p0(3)] p0(2) by simp
qed

lemma started_up_armed:
  assumes "started_up L [] p"
  shows "armed L p"
proof -
  obtain p0 where p: "executed L start_code p0 = Some p" using assms by (auto simp: started_up_def)
  have "p = p0\<lparr>gdtr := start_gdt (pl_gdt L), idtr := init_idt (pl_idt L) (pl_handler L),
     reg_cs := 0x08, reg_ds := 0x10, reg_es := 0x10, reg_ss := 0x10, interrupts_on := True\<rparr>"
    using p by (cases p0) (auto simp add: start_code_def far_return_def move_ds_def move_es_def
      move_ss_def loadable_def start_descriptors null_selector_def long_code_segment_def data_segment_def stack_segment_def
      zero_gdt_entry_def)
  then show ?thesis using armed_started by simp
qed

lemma program_inv_program_step:
  assumes "program_step L m m'" and "program_inv L m" and "\<nexists>is. pr_phase m = Starting is"
  shows "program_inv L m'"
  using assms(1)
proof (cases rule: program_step.cases)
  case started
  then show ?thesis using assms(3) by blast
next
  case interrupted
  show ?thesis
  proof (cases "mode_initialized (pr_vars m) \<and> vm_mode (pr_vars m) = VM_MODE_WRITER")
    case True
    then show ?thesis using interrupted assms(2)
      by (auto simp: program_inv_def take_interrupt_def bind_eq_Some_conv Let_def interrupts_left_def split: if_splits)
  next
    case False
    then obtain g s where g: "irq0_handler (pl_transfer L) (pr_vars m) (pr_guest m) = Some (g, s)"
        "m' = m\<lparr>pr_interrupts := pr_interrupts m - 1, pr_vars := g, pr_guest := s\<rparr>" "0 < pr_interrupts m"
      using interrupted by (auto simp: take_interrupt_def bind_eq_Some_conv Let_def split: if_splits)
    show ?thesis using handler_vars [OF g(1)] g(2,3) interrupted(1) assms(2)
      by (auto simp: program_inv_def Let_def interrupts_left_def split: if_splits)
  qed
next
  case (handled br cr)
  then show ?thesis using assms(2)
    by (auto simp: program_inv_def end_handler_def bind_eq_Some_conv Let_def interrupts_left_def)
next
  case left
  then show ?thesis using assms(2)
    by (auto simp: program_inv_def leave_loop_def bind_eq_Some_conv Let_def interrupts_left_def dest: main_tail_end)
qed

lemma program_inv_step:
  assumes "instruction_step L m m'" and inv: "program_inv L m"
  shows "program_inv L m'"
  using assms(1)
proof (cases rule: instruction_step.cases)
  case (instruction i "is")
  then have up: "started_up L (i # is) (pr_processor m)" using inv by (simp add: program_inv_def Let_def)
  obtain p s where "on_processor L i (pr_processor m) = Some p" "m' = m\<lparr>pr_phase := Starting is, pr_processor := p, pr_guest := s\<rparr>"
    using instruction(2) by (auto simp: execute_def bind_eq_Some_conv)
  then show ?thesis using started_up_execute [OF up] inv instruction(1) by (simp add: program_inv_def Let_def interrupts_left_def)
next
  case looping
  then show ?thesis using inv started_up_armed by (auto simp: program_inv_def Let_def interrupts_left_def)
next
  case later
  then show ?thesis using program_inv_program_step inv by blast
qed

lemma program_inv_run: "program_run L (program_begin p s) m \<Longrightarrow> program_inv L m"
proof (induction rule: program_run.induct)
  case none
  have "started_up L start_code (p\<lparr>interrupts_on := False\<rparr>)"
    unfolding started_up_def by (intro exI [of _ "[]"] exI [of _ "p\<lparr>interrupts_on := False\<rparr>"]) simp
  then show ?case by (simp add: program_inv_def program_begin_def initial_vars_def interrupts_left_def IRQ_COUNT_def)
next
  case (step m1 m2)
  then show ?case by (blast intro: program_inv_step)
next
  case (others m1 w)
  then show ?case by (cases "pr_phase m1") (simp_all add: program_inv_def Let_def)
qed

end
