(* ===== verification/Cli.thy ===== *)
theory Cli
  imports Hv_Prelude
begin

text \<open>
  \<^verbatim>\<open>host/src/cli.cpp\<close>: the command line. \<open>parse_loop\<close> is the \<^verbatim>\<open>for\<close> loop over the arguments that
  are left, with the result and the four flags as its state; what is printed is part of the
  outcome. The theorems say that the parser accepts exactly the documented command lines.
\<close>

subsection \<open>Results and messages\<close>

datatype CliStatus = Cli_Ok | Cli_Help | Cli_Error

record Config =
  cfg_memorySize :: nat
  cfg_pageSize :: nat
  guestImages :: "string list"
  cfg_sharedFiles :: "string list"

record CliResult =
  status :: CliStatus
  config :: Config

definition initial_CliResult :: CliResult where
  "initial_CliResult = \<lparr>status = Cli_Error,
     config = \<lparr>cfg_memorySize = 0, cfg_pageSize = 0, guestImages = [], cfg_sharedFiles = []\<rparr>\<rparr>"

definition KiB :: nat where "KiB = 1024"
definition MiB :: nat where "MiB = 1024 * KiB"

definition text_lines :: "string list \<Rightarrow> string" where
  "text_lines ls = concat (map (\<lambda>l. l @ [char_of (10 :: nat)]) ls)"

definition printGeneralUsage :: "string \<Rightarrow> string" where
  "printGeneralUsage program = text_lines
     [''Usage:'',
      ''  '' @ program @ '' -m <2|4|8> -p <4|2> -g <guest-image> [guest-image ...] [-f <shared-file> ...]'',
      [],
      ''Options:'',
      ''  -m, --memory <2|4|8>    Guest memory size in MiB'',
      ''  -p, --page <4|2>        Guest page size: 4 KiB or 2 MiB'',
      ''  -g, --guest <images...>  Guest image paths'',
      ''  -f, --file <files...>    Shared file paths'',
      ''  -h, --help              Show this help'']"

definition parseMemoryValue :: "string \<Rightarrow> nat option" where
  "parseMemoryValue value =
     (if value = ''2'' then Some (2 * MiB) else if value = ''4'' then Some (4 * MiB)
      else if value = ''8'' then Some (8 * MiB) else None)"

definition printMemoryError :: "string \<Rightarrow> string \<Rightarrow> string" where
  "printMemoryError program message = text_lines
     [''Error: '' @ message, [], ''Memory option usage:'', ''  -m <2|4|8>'', ''  --memory <2|4|8>'', [],
      ''Example:'', ''  '' @ program @ '' -m 4 -p 2 -g guest.img'']"

definition parsePageValue :: "string \<Rightarrow> nat option" where
  "parsePageValue value =
     (if value = ''4'' then Some (4 * KiB) else if value = ''2'' then Some (2 * MiB) else None)"

definition printPageError :: "string \<Rightarrow> string \<Rightarrow> string" where
  "printPageError program message = text_lines
     [''Error: '' @ message, [], ''Page option usage:'', ''  -p <4|2>'', ''  --page <4|2>'', [], ''Values:'',
      ''  4    Use 4 KiB pages'', ''  2    Use 2 MiB pages'', [],
      ''Example:'', ''  '' @ program @ '' -m 4 -p 2 -g guest.img'']"

definition printGuestError :: "string \<Rightarrow> string \<Rightarrow> string" where
  "printGuestError program message = text_lines
     [''Error: '' @ message, [], ''Guest option usage:'', ''  -g <guest-image> [guest-image ...]'',
      ''  --guest <guest-image> [guest-image ...]'', [],
      ''Example:'', ''  '' @ program @ '' -m 4 -p 2 -g guest1.img guest2.img'']"

definition printFileError :: "string \<Rightarrow> string \<Rightarrow> string" where
  "printFileError program message = text_lines
     [''Error: '' @ message, [], ''File option usage:'', ''  -f <shared-file> [shared-file ...]'',
      ''  --file <shared-file> [shared-file ...]'', [],
      ''Example:'', ''  '' @ program @ '' -m 4 -p 2 -g guest1.img guest2.img -f a.txt b.txt'']"

subsection \<open>The loop\<close>

record cli_state =
  cs_result :: CliResult
  memorySet :: bool
  pageSet :: bool
  guestSet :: bool
  fileSet :: bool

record cli_outcome =
  co_result :: CliResult
  co_out :: string
  co_err :: string

definition set_config :: "cli_state \<Rightarrow> (Config \<Rightarrow> Config) \<Rightarrow> cli_state" where
  "set_config s f = s\<lparr>cs_result := (cs_result s)\<lparr>config := f (config (cs_result s))\<rparr>\<rparr>"

definition is_value :: "string \<Rightarrow> bool" where
  "is_value v \<longleftrightarrow> \<not> (v \<noteq> [] \<and> hd v = CHR ''-'')"

text \<open>The diagnostics, by the condition that causes them.\<close>

datatype complaint =
    Memory_Twice | Memory_Without_Value | Memory_Bad | Memory_Missing
  | Page_Twice | Page_Without_Value | Page_Bad | Page_Missing
  | Guest_Twice | Guest_Empty | Guest_Missing
  | File_Twice | File_Empty
  | Unknown_Option string | Unexpected_Argument string

fun complaint_text :: "string \<Rightarrow> complaint \<Rightarrow> string" where
  "complaint_text program Memory_Twice = printMemoryError program ''memory option was specified more than once''"
| "complaint_text program Memory_Without_Value = printMemoryError program ''memory option requires a value''"
| "complaint_text program Memory_Bad = printMemoryError program ''memory size must be 2, 4 or 8 MiB''"
| "complaint_text program Memory_Missing = printMemoryError program ''memory option is required''"
| "complaint_text program Page_Twice = printPageError program ''page option was specified more than once''"
| "complaint_text program Page_Without_Value = printPageError program ''page option requires a value''"
| "complaint_text program Page_Bad = printPageError program ''page size must be 4 KiB or 2 MiB''"
| "complaint_text program Page_Missing = printPageError program ''page option is required''"
| "complaint_text program Guest_Twice = printGuestError program ''guest option was specified more than once''"
| "complaint_text program Guest_Empty = printGuestError program ''guest option requires at least one image''"
| "complaint_text program Guest_Missing = printGuestError program ''guest option is required''"
| "complaint_text program File_Twice = printFileError program ''file option was specified more than once''"
| "complaint_text program File_Empty = printFileError program ''file option requires at least one path''"
| "complaint_text program (Unknown_Option a) =
     text_lines [''Error: unknown option '' @ [CHR 0x27] @ a @ [CHR 0x27], []] @ printGeneralUsage program"
| "complaint_text program (Unexpected_Argument a) =
     text_lines [''Error: unexpected argument '' @ [CHR 0x27] @ a @ [CHR 0x27], []] @ printGeneralUsage program"

definition cli_error :: "string \<Rightarrow> cli_state \<Rightarrow> complaint \<Rightarrow> cli_outcome" where
  "cli_error program s m = \<lparr>co_result = cs_result s, co_out = [], co_err = complaint_text program m\<rparr>"

text \<open>The options' two spellings.\<close>

definition help_option :: "string \<Rightarrow> bool" where "help_option a \<longleftrightarrow> a = ''-h'' \<or> a = ''--help''"
definition memory_option :: "string \<Rightarrow> bool" where "memory_option a \<longleftrightarrow> a = ''-m'' \<or> a = ''--memory''"
definition page_option :: "string \<Rightarrow> bool" where "page_option a \<longleftrightarrow> a = ''-p'' \<or> a = ''--page''"
definition guest_option :: "string \<Rightarrow> bool" where "guest_option a \<longleftrightarrow> a = ''-g'' \<or> a = ''--guest''"
definition file_option :: "string \<Rightarrow> bool" where "file_option a \<longleftrightarrow> a = ''-f'' \<or> a = ''--file''"

text \<open>The checks after the loop.\<close>

definition parse_end :: "string \<Rightarrow> cli_state \<Rightarrow> cli_outcome" where
  "parse_end program s =
     (if \<not> memorySet s then cli_error program s Memory_Missing
      else if \<not> pageSet s then cli_error program s Page_Missing
      else if \<not> guestSet s then cli_error program s Guest_Missing
      else \<lparr>co_result = (cs_result s)\<lparr>status := Cli_Ok\<rparr>, co_out = [], co_err = []\<rparr>)"

function parse_loop :: "string \<Rightarrow> string list \<Rightarrow> cli_state \<Rightarrow> cli_outcome" where
  "parse_loop program [] s = parse_end program s"
| "parse_loop program (argument # rest) s =
     (if help_option argument then
        \<lparr>co_result = (cs_result s)\<lparr>status := Cli_Help\<rparr>, co_out = printGeneralUsage program, co_err = []\<rparr>
      else if memory_option argument then
        if memorySet s then cli_error program s Memory_Twice
        else (case rest of
            [] \<Rightarrow> cli_error program s Memory_Without_Value
          | value # rest' \<Rightarrow>
              (case parseMemoryValue value of
                 None \<Rightarrow> cli_error program s Memory_Bad
               | Some n \<Rightarrow> parse_loop program rest' ((set_config s (cfg_memorySize_update (\<lambda>_. n)))\<lparr>memorySet := True\<rparr>)))
      else if page_option argument then
        if pageSet s then cli_error program s Page_Twice
        else (case rest of
            [] \<Rightarrow> cli_error program s Page_Without_Value
          | value # rest' \<Rightarrow>
              (case parsePageValue value of
                 None \<Rightarrow> cli_error program s Page_Bad
               | Some n \<Rightarrow> parse_loop program rest' ((set_config s (cfg_pageSize_update (\<lambda>_. n)))\<lparr>pageSet := True\<rparr>)))
      else if guest_option argument then
        if guestSet s then cli_error program s Guest_Twice
        else let s' = (set_config s (guestImages_update (\<lambda>xs. xs @ takeWhile is_value rest)))\<lparr>guestSet := True\<rparr> in
          if guestImages (config (cs_result s')) = [] then cli_error program s' Guest_Empty
          else parse_loop program (dropWhile is_value rest) s'
      else if file_option argument then
        if fileSet s then cli_error program s File_Twice
        else let s' = (set_config s (cfg_sharedFiles_update (\<lambda>xs. xs @ takeWhile is_value rest)))\<lparr>fileSet := True\<rparr> in
          if cfg_sharedFiles (config (cs_result s')) = [] then cli_error program s' File_Empty
          else parse_loop program (dropWhile is_value rest) s'
      else if \<not> is_value argument then cli_error program s (Unknown_Option argument)
      else cli_error program s (Unexpected_Argument argument))"
  by pat_completeness auto
termination
  by (relation "measure (\<lambda>(_, args, _). length args)") (auto intro: le_imp_less_Suc length_dropWhile_le)

declare parse_loop.simps(2) [simp del]

definition initial_cli_state :: cli_state where
  "initial_cli_state = \<lparr>cs_result = initial_CliResult, memorySet = False, pageSet = False, guestSet = False, fileSet = False\<rparr>"

text \<open>\<open>args\<close> are \<^verbatim>\<open>argv[1]\<close> to \<^verbatim>\<open>argv[argc - 1]\<close>, \<open>program\<close> is \<^verbatim>\<open>argv[0]\<close>.\<close>

definition parseArguments :: "string \<Rightarrow> string list \<Rightarrow> cli_outcome" where
  "parseArguments program args = parse_loop program args initial_cli_state"

subsection \<open>The documented command lines\<close>

datatype option_kind = Memory | Page | Guest | Files

definition memory_digit :: "nat \<Rightarrow> string" where
  "memory_digit n = (if n = 2 * MiB then ''2'' else if n = 4 * MiB then ''4'' else ''8'')"

definition page_digit :: "nat \<Rightarrow> string" where
  "page_digit n = (if n = 4 * KiB then ''4'' else ''2'')"

text \<open>An option with its values, in the long or the short spelling.\<close>

definition spelling :: "option_kind \<Rightarrow> bool \<Rightarrow> string" where
  "spelling k long = (case k of Memory \<Rightarrow> if long then ''--memory'' else ''-m''
     | Page \<Rightarrow> if long then ''--page'' else ''-p'' | Guest \<Rightarrow> if long then ''--guest'' else ''-g''
     | Files \<Rightarrow> if long then ''--file'' else ''-f'')"

fun render :: "Config \<Rightarrow> option_kind \<times> bool \<Rightarrow> string list" where
  "render c (Memory, l) = [spelling Memory l, memory_digit (cfg_memorySize c)]"
| "render c (Page, l) = [spelling Page l, page_digit (cfg_pageSize c)]"
| "render c (Guest, l) = spelling Guest l # guestImages c"
| "render c (Files, l) = spelling Files l # cfg_sharedFiles c"

definition command_line :: "Config \<Rightarrow> (option_kind \<times> bool) list \<Rightarrow> string list" where
  "command_line c opts = concat (map (render c) opts)"

definition valid_values :: "Config \<Rightarrow> option_kind \<Rightarrow> bool" where
  "valid_values c k = (case k of
     Memory \<Rightarrow> cfg_memorySize c \<in> {2 * MiB, 4 * MiB, 8 * MiB}
   | Page \<Rightarrow> cfg_pageSize c \<in> {4 * KiB, 2 * MiB}
   | Guest \<Rightarrow> guestImages c \<noteq> [] \<and> list_all is_value (guestImages c)
   | Files \<Rightarrow> cfg_sharedFiles c \<noteq> [] \<and> list_all is_value (cfg_sharedFiles c))"

text \<open>Each option at most once, the first three exactly once, in any order.\<close>

definition documented :: "Config \<Rightarrow> (option_kind \<times> bool) list \<Rightarrow> bool" where
  "documented c opts \<longleftrightarrow> distinct (map fst opts) \<and> {Memory, Page, Guest} \<subseteq> fst ` set opts \<and>
     (\<forall>k\<in>fst ` set opts. valid_values c k) \<and> (Files \<notin> fst ` set opts \<longrightarrow> cfg_sharedFiles c = [])"

subsection \<open>Accepting\<close>

lemma option_spelling [simp]:
  "help_option (spelling k l) = False" "memory_option (spelling k l) = (k = Memory)"
  "page_option (spelling k l) = (k = Page)" "guest_option (spelling k l) = (k = Guest)"
  "file_option (spelling k l) = (k = Files)" "is_value (spelling k l) = False"
  by (cases k; simp add: spelling_def help_option_def memory_option_def page_option_def guest_option_def
      file_option_def is_value_def)+

lemma parse_digit [simp]:
  "n \<in> {2 * MiB, 4 * MiB, 8 * MiB} \<Longrightarrow> parseMemoryValue (memory_digit n) = Some n"
  "n \<in> {4 * KiB, 2 * MiB} \<Longrightarrow> parsePageValue (page_digit n) = Some n"
  by (auto simp: parseMemoryValue_def memory_digit_def parsePageValue_def page_digit_def MiB_def KiB_def)

definition known :: "Config \<Rightarrow> option_kind set \<Rightarrow> Config" where
  "known c K = \<lparr>cfg_memorySize = (if Memory \<in> K then cfg_memorySize c else 0),
     cfg_pageSize = (if Page \<in> K then cfg_pageSize c else 0),
     guestImages = (if Guest \<in> K then guestImages c else []),
     cfg_sharedFiles = (if Files \<in> K then cfg_sharedFiles c else [])\<rparr>"

definition state_of :: "Config \<Rightarrow> option_kind set \<Rightarrow> cli_state" where
  "state_of c K = \<lparr>cs_result = \<lparr>status = Cli_Error, config = known c K\<rparr>, memorySet = (Memory \<in> K),
     pageSet = (Page \<in> K), guestSet = (Guest \<in> K), fileSet = (Files \<in> K)\<rparr>"

lemma initial_state_of: "initial_cli_state = state_of c {}"
  by (simp add: initial_cli_state_def state_of_def known_def initial_CliResult_def)

lemma not_value_head: "args = [] \<or> \<not> is_value (hd args) \<Longrightarrow> list_all is_value xs \<Longrightarrow>
    takeWhile is_value (xs @ args) = xs \<and> dropWhile is_value (xs @ args) = args"
  by (induction xs) (cases args; auto)+

lemma command_line_head: "command_line c opts = [] \<or> \<not> is_value (hd (command_line c opts))"
proof (cases opts)
  case (Cons o' os)
  obtain k l where "o' = (k, l)" by (cases o')
  then show ?thesis using Cons by (cases k) (simp_all add: command_line_def)
qed (simp add: command_line_def)

lemma parse_loop_command_line:
  assumes "distinct (map fst opts)" and "fst ` set opts \<inter> K = {}" and "\<forall>k\<in>fst ` set opts. valid_values c k"
  shows "parse_loop program (command_line c opts) (state_of c K) = parse_end program (state_of c (K \<union> fst ` set opts))"
  using assms
proof (induction opts arbitrary: K)
  case Nil
  then show ?case by (simp add: command_line_def)
next
  case (Cons o' opts)
  obtain k l where o': "o' = (k, l)" by (cases o')
  have k: "k \<notin> K" "valid_values c k" using Cons.prems by (auto simp: o')
  have "parse_loop program (command_line c opts) (state_of c (insert k K)) =
      parse_end program (state_of c (insert k K \<union> fst ` set opts))"
    by (rule Cons.IH) (use Cons.prems in \<open>auto simp: o'\<close>)
  moreover have "parse_loop program (command_line c (o' # opts)) (state_of c K) =
      parse_loop program (command_line c opts) (state_of c (insert k K))"
  proof (cases k)
    case Memory
    then have "(set_config (state_of c K) (cfg_memorySize_update (\<lambda>_. cfg_memorySize c)))\<lparr>memorySet := True\<rparr> = state_of c (insert Memory K)"
      by (simp add: set_config_def state_of_def known_def)
    moreover have "parseMemoryValue (memory_digit (cfg_memorySize c)) = Some (cfg_memorySize c)"
      using k Memory by (intro parse_digit) (simp add: valid_values_def)
    ultimately show ?thesis
      using k Memory by (simp add: command_line_def o' parse_loop.simps(2)) (simp add: state_of_def)
  next
    case Page
    then have "(set_config (state_of c K) (cfg_pageSize_update (\<lambda>_. cfg_pageSize c)))\<lparr>pageSet := True\<rparr> = state_of c (insert Page K)"
      by (simp add: set_config_def state_of_def known_def)
    moreover have "parsePageValue (page_digit (cfg_pageSize c)) = Some (cfg_pageSize c)"
      using k Page by (intro parse_digit) (simp add: valid_values_def)
    ultimately show ?thesis
      using k Page by (simp add: command_line_def o' parse_loop.simps(2)) (simp add: state_of_def)
  next
    case Guest
    have g: "guestImages c \<noteq> []" "list_all is_value (guestImages c)" using k Guest by (simp_all add: valid_values_def)
    have "(set_config (state_of c K) (guestImages_update (\<lambda>xs. xs @ guestImages c)))\<lparr>guestSet := True\<rparr> = state_of c (insert Guest K)"
      using k Guest by (simp add: set_config_def state_of_def known_def)
    moreover have "\<not> guestSet (state_of c K)" "guestImages (config (cs_result (state_of c (insert Guest K)))) = guestImages c"
      using k Guest by (simp_all add: state_of_def known_def)
    ultimately show ?thesis
      using Guest g not_value_head [OF command_line_head g(2), of c opts]
      by (simp add: command_line_def o' parse_loop.simps(2) Let_def)
  next
    case Files
    have g: "cfg_sharedFiles c \<noteq> []" "list_all is_value (cfg_sharedFiles c)" using k Files by (simp_all add: valid_values_def)
    have "(set_config (state_of c K) (cfg_sharedFiles_update (\<lambda>xs. xs @ cfg_sharedFiles c)))\<lparr>fileSet := True\<rparr> = state_of c (insert Files K)"
      using k Files by (simp add: set_config_def state_of_def known_def)
    moreover have "\<not> fileSet (state_of c K)" "cfg_sharedFiles (config (cs_result (state_of c (insert Files K)))) = cfg_sharedFiles c"
      using k Files by (simp_all add: state_of_def known_def)
    ultimately show ?thesis
      using Files g not_value_head [OF command_line_head g(2), of c opts]
      by (simp add: command_line_def o' parse_loop.simps(2) Let_def)
  qed
  ultimately show ?case by (simp add: o')
qed

subsection \<open>Only the documented ones\<close>

lemma spelling_of:
  "memory_option a \<Longrightarrow> \<exists>l. a = spelling Memory l" "page_option a \<Longrightarrow> \<exists>l. a = spelling Page l"
  "guest_option a \<Longrightarrow> \<exists>l. a = spelling Guest l" "file_option a \<Longrightarrow> \<exists>l. a = spelling Files l"
  by (auto simp: memory_option_def page_option_def guest_option_def file_option_def spelling_def ex_bool_eq)

lemma parse_digit_inverse:
  "parseMemoryValue x = Some n \<Longrightarrow> x = memory_digit n \<and> n \<in> {2 * MiB, 4 * MiB, 8 * MiB}"
  "parsePageValue x = Some n \<Longrightarrow> x = page_digit n \<and> n \<in> {4 * KiB, 2 * MiB}"
  by (auto simp: parseMemoryValue_def memory_digit_def parsePageValue_def page_digit_def MiB_def KiB_def split: if_splits)

lemma known_insert:
  assumes "known c (insert k K) = known c1 (insert k K)" and "known c1 K = known c0 K"
  shows "known c K = known c0 K"
  using assms by (cases k) (auto simp: known_def split: if_splits)

definition parsed_as :: "string list \<Rightarrow> Config \<Rightarrow> option_kind set \<Rightarrow> CliResult \<Rightarrow> bool" where
  "parsed_as args c0 K r \<longleftrightarrow> (\<exists>opts. known (config r) K = known c0 K \<and> distinct (map fst opts) \<and>
     fst ` set opts \<inter> K = {} \<and> args = command_line (config r) opts \<and> {Memory, Page, Guest} \<subseteq> K \<union> fst ` set opts \<and>
     (\<forall>k\<in>fst ` set opts. valid_values (config r) k) \<and>
     (Files \<notin> K \<union> fst ` set opts \<longrightarrow> cfg_sharedFiles (config r) = []))"

lemma parsed_as_Cons:
  assumes "parsed_as rest c1 (insert k K) r" and "k \<notin> K" and "known c1 K = known c0 K"
    and "args = render (config r) (k, l) @ rest" and "valid_values (config r) k"
  shows "parsed_as args c0 K r"
proof -
  obtain opts where o: "known (config r) (insert k K) = known c1 (insert k K)" "distinct (map fst opts)"
    "fst ` set opts \<inter> insert k K = {}" "rest = command_line (config r) opts"
    "{Memory, Page, Guest} \<subseteq> insert k K \<union> fst ` set opts" "\<forall>k\<in>fst ` set opts. valid_values (config r) k"
    "Files \<notin> insert k K \<union> fst ` set opts \<longrightarrow> cfg_sharedFiles (config r) = []"
    using assms(1) unfolding parsed_as_def by blast
  show ?thesis
    unfolding parsed_as_def
  proof (intro exI conjI)
    show "known (config r) K = known c0 K" by (rule known_insert [OF o(1) assms(3)])
    show "args = command_line (config r) ((k, l) # opts)" using assms(4) o(4) by (simp add: command_line_def)
  qed (use o assms(2,5) in auto)
qed

lemma known_agree:
  assumes "parsed_as rest c1 (insert k K) r"
  shows "k = Memory \<Longrightarrow> cfg_memorySize (config r) = cfg_memorySize c1" "k = Page \<Longrightarrow> cfg_pageSize (config r) = cfg_pageSize c1"
    "k = Guest \<Longrightarrow> guestImages (config r) = guestImages c1" "k = Files \<Longrightarrow> cfg_sharedFiles (config r) = cfg_sharedFiles c1"
  using assms unfolding parsed_as_def known_def by auto

lemma status_state_of: "status (cs_result (state_of c K)) = Cli_Error"
  by (simp add: state_of_def)

lemma parse_loop_ok:
  assumes "status (co_result (parse_loop program args (state_of c0 K))) = Cli_Ok"
  shows "parsed_as args c0 K (co_result (parse_loop program args (state_of c0 K)))"
  using assms
proof (induction "length args" arbitrary: args c0 K rule: less_induct)
  case less
  show ?case
  proof (cases args)
    case Nil
    then have "Memory \<in> K" "Page \<in> K" "Guest \<in> K"
      "co_result (parse_loop program args (state_of c0 K)) = \<lparr>status = Cli_Ok, config = known c0 K\<rparr>"
      using less.prems by (auto simp: parse_end_def cli_error_def state_of_def split: if_splits)
    moreover have "known (known c0 K) K = known c0 K" "Files \<notin> K \<longrightarrow> cfg_sharedFiles (known c0 K) = []"
      by (simp_all add: known_def)
    ultimately show ?thesis using Nil
      unfolding parsed_as_def by (intro exI [of _ "[]"]) (simp add: command_line_def)
  next
    case (Cons a rest)
    let ?s = "state_of c0 K"
    note unfold = Cons parse_loop.simps(2) Let_def cli_error_def
    have fields: "memorySet ?s = (Memory \<in> K)" "pageSet ?s = (Page \<in> K)" "guestSet ?s = (Guest \<in> K)" "fileSet ?s = (Files \<in> K)"
      "status (cs_result ?s) = Cli_Error" "Guest \<notin> K \<Longrightarrow> guestImages (config (cs_result ?s)) = []"
      "Files \<notin> K \<Longrightarrow> cfg_sharedFiles (config (cs_result ?s)) = []"
      by (simp_all add: state_of_def known_def)
    have nohelp: "\<not> help_option a" using less.prems by (auto simp: unfold)
    consider (m) "memory_option a" | (p) "\<not> memory_option a" "page_option a"
      | (g) "\<not> memory_option a" "\<not> page_option a" "guest_option a"
      | (f) "\<not> memory_option a" "\<not> page_option a" "\<not> guest_option a" "file_option a"
      | (x) "\<not> memory_option a" "\<not> page_option a" "\<not> guest_option a" "\<not> file_option a" by blast
    then show ?thesis
    proof cases
      case m
      then obtain x rest' n where r: "Memory \<notin> K" "rest = x # rest'" "parseMemoryValue x = Some n"
        using less.prems nohelp by (auto simp: unfold fields split: if_splits list.splits option.splits)
      obtain l where l: "a = spelling Memory l" using spelling_of(1) [OF m] by blast
      let ?c = "c0\<lparr>cfg_memorySize := n\<rparr>"
      have st: "(set_config ?s (cfg_memorySize_update (\<lambda>_. n)))\<lparr>memorySet := True\<rparr> = state_of ?c (insert Memory K)"
        by (simp add: set_config_def state_of_def known_def)
      have eq: "parse_loop program args ?s = parse_loop program rest' (state_of ?c (insert Memory K))"
        using m nohelp r by (simp add: unfold fields st)
      have ih: "parsed_as rest' ?c (insert Memory K) (co_result (parse_loop program args ?s))"
        unfolding eq by (rule less.hyps) (use less.prems eq Cons r in simp_all)
      show ?thesis
        by (rule parsed_as_Cons [OF ih r(1), where l = l])
          (use known_agree(1) [OF ih refl] parse_digit_inverse(1) [OF r(3)] Cons r l in
            \<open>auto simp: known_def valid_values_def\<close>)
    next
      case p
      then obtain x rest' n where r: "Page \<notin> K" "rest = x # rest'" "parsePageValue x = Some n"
        using less.prems nohelp by (auto simp: unfold fields split: if_splits list.splits option.splits)
      obtain l where l: "a = spelling Page l" using spelling_of(2) [OF p(2)] by blast
      let ?c = "c0\<lparr>cfg_pageSize := n\<rparr>"
      have st: "(set_config ?s (cfg_pageSize_update (\<lambda>_. n)))\<lparr>pageSet := True\<rparr> = state_of ?c (insert Page K)"
        by (simp add: set_config_def state_of_def known_def)
      have eq: "parse_loop program args ?s = parse_loop program rest' (state_of ?c (insert Page K))"
        using p nohelp r by (simp add: unfold fields st)
      have ih: "parsed_as rest' ?c (insert Page K) (co_result (parse_loop program args ?s))"
        unfolding eq by (rule less.hyps) (use less.prems eq Cons r in simp_all)
      show ?thesis
        by (rule parsed_as_Cons [OF ih r(1), where l = l])
          (use known_agree(2) [OF ih refl] parse_digit_inverse(2) [OF r(3)] Cons r l in
            \<open>auto simp: known_def valid_values_def\<close>)
    next
      case g
      let ?vs = "takeWhile is_value rest" and ?rest = "dropWhile is_value rest"
      let ?c = "c0\<lparr>guestImages := ?vs\<rparr>"
      have r: "Guest \<notin> K" using less.prems nohelp g by (auto simp: unfold fields split: if_splits)
      have st: "(set_config ?s (guestImages_update (\<lambda>xs. xs @ ?vs)))\<lparr>guestSet := True\<rparr> = state_of ?c (insert Guest K)"
        using r by (simp add: set_config_def state_of_def known_def)
      have im: "guestImages (config (cs_result (state_of ?c (insert Guest K)))) = ?vs" by (simp add: state_of_def known_def)
      have eq0: "parse_loop program args ?s = (if ?vs = [] then cli_error program (state_of ?c (insert Guest K)) Guest_Empty
          else parse_loop program ?rest (state_of ?c (insert Guest K)))"
        using g nohelp r by (simp add: Cons parse_loop.simps(2) Let_def fields st im)
      have ne: "?vs \<noteq> []"
        using less.prems eq0 by (auto simp: cli_error_def status_state_of)
      obtain l where l: "a = spelling Guest l" using spelling_of(3) [OF g(3)] by blast
      have eq: "parse_loop program args ?s = parse_loop program ?rest (state_of ?c (insert Guest K))"
        using eq0 ne by simp
      have ih: "parsed_as ?rest ?c (insert Guest K) (co_result (parse_loop program args ?s))"
        unfolding eq by (rule less.hyps) (use less.prems eq Cons length_dropWhile_le [of is_value rest] in simp_all)
      show ?thesis
        by (rule parsed_as_Cons [OF ih r, where l = l])
          (use known_agree(3) [OF ih refl] ne r Cons l in
            \<open>auto simp: known_def valid_values_def list_all_iff dest: set_takeWhileD\<close>)
    next
      case f
      let ?vs = "takeWhile is_value rest" and ?rest = "dropWhile is_value rest"
      let ?c = "c0\<lparr>cfg_sharedFiles := ?vs\<rparr>"
      have r: "Files \<notin> K" using less.prems nohelp f by (auto simp: unfold fields split: if_splits)
      have st: "(set_config ?s (cfg_sharedFiles_update (\<lambda>xs. xs @ ?vs)))\<lparr>fileSet := True\<rparr> = state_of ?c (insert Files K)"
        using r by (simp add: set_config_def state_of_def known_def)
      have im: "cfg_sharedFiles (config (cs_result (state_of ?c (insert Files K)))) = ?vs" by (simp add: state_of_def known_def)
      have eq0: "parse_loop program args ?s = (if ?vs = [] then cli_error program (state_of ?c (insert Files K)) File_Empty
          else parse_loop program ?rest (state_of ?c (insert Files K)))"
        using f nohelp r by (simp add: Cons parse_loop.simps(2) Let_def fields st im)
      have ne: "?vs \<noteq> []"
        using less.prems eq0 by (auto simp: cli_error_def status_state_of)
      obtain l where l: "a = spelling Files l" using spelling_of(4) [OF f(4)] by blast
      have eq: "parse_loop program args ?s = parse_loop program ?rest (state_of ?c (insert Files K))"
        using eq0 ne by simp
      have ih: "parsed_as ?rest ?c (insert Files K) (co_result (parse_loop program args ?s))"
        unfolding eq by (rule less.hyps) (use less.prems eq Cons length_dropWhile_le [of is_value rest] in simp_all)
      show ?thesis
        by (rule parsed_as_Cons [OF ih r, where l = l])
          (use known_agree(4) [OF ih refl] ne r Cons l in
            \<open>auto simp: known_def valid_values_def list_all_iff dest: set_takeWhileD\<close>)
    next
      case x
      then show ?thesis using less.prems nohelp by (simp add: unfold fields split: if_splits)
    qed
  qed
qed

subsection \<open>Properties\<close>

lemma parse_documented:
  assumes "documented c opts"
  shows "parseArguments program (command_line c opts) = \<lparr>co_result = \<lparr>status = Cli_Ok, config = c\<rparr>, co_out = [], co_err = []\<rparr>"
proof -
  have d: "distinct (map fst opts)" "\<forall>k\<in>fst ` set opts. valid_values c k" "{Memory, Page, Guest} \<subseteq> fst ` set opts"
    "Files \<notin> fst ` set opts \<longrightarrow> cfg_sharedFiles c = []" using assms by (simp_all add: documented_def)
  have "known c (fst ` set opts) = c" using d(3,4) by (simp add: known_def)
  moreover have "parseArguments program (command_line c opts) = parse_end program (state_of c (fst ` set opts))"
    using parse_loop_command_line [OF d(1) _ d(2), of "{}"] by (simp add: parseArguments_def initial_state_of [of c])
  ultimately show ?thesis using d(3) by (simp add: parse_end_def state_of_def)
qed

lemma parse_accepted:
  assumes "status (co_result (parseArguments program args)) = Cli_Ok"
  obtains opts where "documented (config (co_result (parseArguments program args))) opts"
    "args = command_line (config (co_result (parseArguments program args))) opts"
proof -
  have "parsed_as args c {} (co_result (parseArguments program args))" for c
    using parse_loop_ok [of program args c "{}"] assms by (simp add: parseArguments_def initial_state_of [of c])
  then show thesis using that unfolding parsed_as_def documented_def by auto
qed

text \<open>
  C22. The parser accepts exactly the documented command lines: it succeeds with a
  configuration if and only if the arguments are the options of this configuration, each at
  most once and the three required ones present, in any order and in the short or the long
  spelling. In particular printing a configuration and parsing it gives it back.
\<close>

theorem cli_accepts_exactly:
  "co_result (parseArguments program args) = \<lparr>status = Cli_Ok, config = c\<rparr> \<longleftrightarrow>
     (\<exists>opts. documented c opts \<and> args = command_line c opts)"
proof
  assume r: "co_result (parseArguments program args) = \<lparr>status = Cli_Ok, config = c\<rparr>"
  show "\<exists>opts. documented c opts \<and> args = command_line c opts"
    by (rule parse_accepted [of program args]) (use r in auto)
qed (use parse_documented in force)

text \<open>
  What is accepted can be booted: the memory size is 2, 4 or 8 MiB (so a positive multiple
  of 2 MiB of at most 8 MiB), the page size 4 KiB or 2 MiB, there is at least one guest image,
  and nothing is printed.
\<close>

lemma accepted_config_is_bootable:
  assumes "status (co_result (parseArguments program args)) = Cli_Ok"
  shows "cfg_memorySize (config (co_result (parseArguments program args))) \<in> {2 * 2 ^ 20, 4 * 2 ^ 20, 8 * 2 ^ 20} \<and>
    cfg_pageSize (config (co_result (parseArguments program args))) \<in> {4 * 2 ^ 10, 2 * 2 ^ 20} \<and>
    guestImages (config (co_result (parseArguments program args))) \<noteq> [] \<and>
    co_out (parseArguments program args) = [] \<and> co_err (parseArguments program args) = []"
proof -
  obtain opts where o: "documented (config (co_result (parseArguments program args))) opts"
    "args = command_line (config (co_result (parseArguments program args))) opts"
    by (rule parse_accepted [OF assms])
  have v: "valid_values (config (co_result (parseArguments program args))) k" if "k \<in> {Memory, Page, Guest}" for k
    using o(1) that unfolding documented_def by blast
  have "co_out (parseArguments program args) = [] \<and> co_err (parseArguments program args) = []"
    by (subst (1 2) o(2)) (simp add: parse_documented [OF o(1)])
  then show ?thesis
    using v [of Memory] v [of Page] v [of Guest] by (simp add: valid_values_def MiB_def KiB_def)
qed

definition small_config :: Config where
  "small_config = \<lparr>cfg_memorySize = 2 * MiB, cfg_pageSize = 4 * KiB, guestImages = [''a''], cfg_sharedFiles = []\<rparr>"

lemma documented_small: "documented small_config [(Page, True), (Guest, False), (Memory, False)]"
  by (simp add: documented_def small_config_def valid_values_def is_value_def)

lemma accepted_config_is_bootable_witness:
  "co_err (parseArguments ''vm'' [''--page'', ''4'', ''-g'', ''a'', ''-m'', ''2'']) = []"
proof -
  have "command_line small_config [(Page, True), (Guest, False), (Memory, False)] =
      [''--page'', ''4'', ''-g'', ''a'', ''-m'', ''2'']"
    by (simp add: command_line_def small_config_def spelling_def page_digit_def memory_digit_def)
  then have "status (co_result (parseArguments ''vm'' [''--page'', ''4'', ''-g'', ''a'', ''-m'', ''2''])) = Cli_Ok"
    using parse_documented [OF documented_small, of "''vm''"] by simp
  from accepted_config_is_bootable [OF this] show ?thesis by blast
qed

lemma text_lines_nonempty: "ls \<noteq> [] \<Longrightarrow> text_lines ls \<noteq> []"
  by (cases ls) (simp_all add: text_lines_def)

lemma complaint_nonempty: "complaint_text program m \<noteq> []"
  by (cases m) (simp_all add: printMemoryError_def printPageError_def printGuestError_def printFileError_def text_lines_nonempty)

definition answered :: "string \<Rightarrow> cli_outcome \<Rightarrow> bool" where
  "answered program r \<longleftrightarrow>
     (case status (co_result r) of
        Cli_Ok \<Rightarrow> co_out r = [] \<and> co_err r = []
      | Cli_Help \<Rightarrow> co_out r = printGeneralUsage program \<and> co_err r = []
      | Cli_Error \<Rightarrow> co_out r = [] \<and> co_err r \<noteq> [])"

lemma parse_loop_answered:
  "status (cs_result s) = Cli_Error \<Longrightarrow> answered program (parse_loop program args s)"
proof (induction program args s rule: parse_loop.induct)
  case (1 program s)
  then show ?case
    by (simp add: parse_end_def answered_def cli_error_def complaint_nonempty del: complaint_text.simps)
next
  case (2 program argument rest s)
  have err: "answered program (cli_error program s' m)" if "status (cs_result s') = Cli_Error" for s' m
    using that by (simp add: answered_def cli_error_def complaint_nonempty del: complaint_text.simps)
  have usage: "answered program \<lparr>co_result = (cs_result s)\<lparr>status := Cli_Help\<rparr>, co_out = printGeneralUsage program, co_err = []\<rparr>"
    by (simp add: answered_def)
  have cfg: "status (cs_result (set_config s f)) = Cli_Error" for f using 2 by (simp add: set_config_def)
  show ?case
    unfolding parse_loop.simps(2) Let_def using 2 err cfg usage
    by (auto split: list.split option.split)
qed

text \<open>
  Every command line that is not accepted is answered: a request for help prints the usage
  on the standard output and nothing else, an error prints a diagnosis on the error output
  and nothing else.
\<close>

theorem cli_always_answers: "answered program (parseArguments program args)"
  by (simp add: parseArguments_def parse_loop_answered initial_cli_state_def initial_CliResult_def)

end
