(* ===== verification/File_Service.thy ===== *)
theory File_Service
  imports File_Isolation
begin

text \<open>
  The machines of one hypervisor share the host's file system. \<open>serve\<close> is one file access
  of one machine: its port handler runs on whatever the guest has put into its memory and
  into the exit's data. The theorems hold for every sequence of such accesses, in any
  interleaving of the machines and for every fault script of the host.
\<close>

subsection \<open>The service\<close>

type_synonym service = "GuestContext list \<times> host"

definition serve :: "SharedState \<Rightarrow> nat \<times> vm \<Rightarrow> service \<Rightarrow> service" where
  "serve ss rq s =
     (let (i, v) = rq; (cs, h) = s in
      if i < length cs then let (ok, c, v', h') = handleFileIo (cs ! i) ss v h in (cs[i := c], h')
      else (cs, h))"

definition serve_all :: "SharedState \<Rightarrow> (nat \<times> vm) list \<Rightarrow> service \<Rightarrow> service" where
  "serve_all ss rqs s = fold (serve ss) rqs s"

fun close_machines :: "GuestContext list \<Rightarrow> host \<Rightarrow> GuestContext list \<times> host" where
  "close_machines [] h = ([], h)"
| "close_machines (c # cs) h =
     (let (c, h) = closeGuestFiles c h; (cs, h) = close_machines cs h in (c # cs, h))"

text \<open>The inodes that belong to a machine: its files by name and its private descriptors.\<close>

definition belongings :: "GuestContext \<Rightarrow> host \<Rightarrow> nat set" where
  "belongings c h = {i. \<exists>p\<in>own_names (gid c). h_names h p = Some i} \<union>
     {i. \<exists>d. (d, False) \<in> set (owners (table c)) \<and> inode_of h d = Some i}"

definition fds :: "GuestContext \<Rightarrow> int set" where
  "fds c = fst ` set (owners (table c))"

definition protected :: "nat set \<Rightarrow> GuestContext list \<Rightarrow> host \<Rightarrow> nat \<Rightarrow> nat set" where
  "protected S cs h i = S \<union> (\<Union>j\<in>{..<length cs} - {i}. belongings (cs ! j) h)"

definition service_inv :: "nat set \<Rightarrow> service \<Rightarrow> bool" where
  "service_inv S s \<longleftrightarrow> (case s of (cs, h) \<Rightarrow>
     host_ok h \<and> distinct (map gid cs) \<and>
     (\<forall>i<length cs. numbered (cs ! i) \<and> guest_inv (protected S cs h i) (cs ! i) h) \<and>
     (\<forall>i<length cs. \<forall>j<length cs. i \<noteq> j \<longrightarrow> fds (cs ! i) \<inter> fds (cs ! j) = {}))"

text \<open>The state the machines start in, for the inodes \<open>S\<close> of the shared files.\<close>

definition booted :: "nat set \<Rightarrow> service \<Rightarrow> bool" where
  "booted S s \<longleftrightarrow> (case s of (cs, h) \<Rightarrow>
     host_ok h \<and> distinct (map gid cs) \<and> (\<forall>i\<in>S. i < h_next h) \<and>
     (\<forall>c\<in>set cs. fileState c = initial_FileState) \<and>
     (\<forall>c\<in>set cs. \<forall>n i. h_names h (local_path (gid c) n) = Some i \<longrightarrow>
        i \<notin> S \<and> (\<forall>p. h_names h p = Some i \<longrightarrow> p \<in> own_names (gid c))))"

lemma guest_inv_alt:
  "guest_inv P c h \<longleftrightarrow> host_ok h \<and> distinct (map fst (table c)) \<and> distinct (map fst (owners (table c))) \<and>
     (\<forall>d\<in>fds c. fd_lookup h d \<noteq> None) \<and> belongings c h \<inter> P = {} \<and> (\<forall>i\<in>P. i < h_next h)"
  (is "?l \<longleftrightarrow> ?r")
proof
  assume ?l
  then have *: "host_ok h" "distinct (map fst (table c))" "distinct (map fst (owners (table c)))"
    "\<forall>i\<in>P. i < h_next h" "\<And>p i. p \<in> own_names (gid c) \<Longrightarrow> h_names h p = Some i \<Longrightarrow> i \<notin> P"
    "\<And>d s. (d, s) \<in> set (owners (table c)) \<Longrightarrow> \<exists>i. inode_of h d = Some i \<and> (\<not> s \<longrightarrow> i \<notin> P)"
    unfolding guest_inv_def own_inv_def by auto
  have "\<exists>i. inode_of h d = Some i" if "d \<in> fds c" for d using that *(6) unfolding fds_def by fastforce
  then have "\<forall>d\<in>fds c. fd_lookup h d \<noteq> None" by (fastforce simp: inode_of_def)
  moreover have "belongings c h \<inter> P = {}" unfolding belongings_def using *(5,6) by fastforce
  ultimately show ?r using * by blast
next
  assume r: ?r
  have "\<exists>i. inode_of h d = Some i \<and> (\<not> s \<longrightarrow> i \<notin> P)" if "(d, s) \<in> set (owners (table c))" for d s
  proof -
    have "d \<in> fds c" using that by (force simp: fds_def)
    then obtain g where "fd_lookup h d = Some g" using r by auto
    then have "inode_of h d = Some (oh_inode g)" by (simp add: inode_of_def)
    then show ?thesis using that r by (cases s) (auto simp: belongings_def)
  qed
  moreover have "i \<notin> P" if "p \<in> own_names (gid c)" "h_names h p = Some i" for p i
    using that r by (auto simp: belongings_def)
  ultimately show ?l using r unfolding guest_inv_def own_inv_def by blast
qed

lemma belongings_bounded: "host_ok h \<Longrightarrow> i \<in> belongings c h \<Longrightarrow> i < h_next h"
  by (auto simp: host_ok_def belongings_def)

text \<open>Two hosts look the same to a machine when its names and descriptors do.\<close>

definition same_view :: "GuestContext \<Rightarrow> host \<Rightarrow> host \<Rightarrow> bool" where
  "same_view c h h' \<longleftrightarrow> (\<forall>p\<in>own_names (gid c). h_names h' p = h_names h p) \<and>
     (\<forall>d\<in>fds c. fd_lookup h' d = fd_lookup h d) \<and> (\<forall>i\<in>belongings c h. h_data h' i = h_data h i)"

lemma same_view_belongings:
  assumes "same_view c h h'"
  shows "belongings c h' = belongings c h"
proof -
  have "inode_of h' d = inode_of h d" if "(d, False) \<in> set (owners (table c))" for d
    using that assms by (force simp: same_view_def fds_def inode_of_def)
  moreover have "h_names h' p = h_names h p" if "p \<in> own_names (gid c)" for p
    using that assms by (simp add: same_view_def)
  ultimately show ?thesis unfolding belongings_def by auto
qed

text \<open>What the step of another machine leaves of a machine's view.\<close>

lemma guest_step_same_view:
  assumes "guest_step P c h c' h'" and "guest_inv P c h"
    and "belongings d h \<subseteq> P" and "fds c \<inter> fds d = {}" and "gid c \<noteq> gid d"
    and "\<forall>e\<in>fds d. fd_lookup h e \<noteq> None"
  shows "same_view d h h'" and "fds c' \<inter> fds d = {}"
proof -
  have fr: "host_frame P (own_names (gid c)) h h'" and ac: "accounted (fds c) h (fds c') h'"
    using guest_stepD [OF assms(1,2)] by (auto simp: fds_def owners_def image_image case_prod_beta)
  show disj: "fds c' \<inter> fds d = {}" using ac assms(4,6) unfolding accounted_def by blast
  have "h_names h' p = h_names h p" if "p \<in> own_names (gid d)" for p
    using fr that own_names_disjoint [of "gid d" "gid c"] assms(5)
    unfolding host_frame_def own_names_def by auto
  moreover have "fd_lookup h' e = fd_lookup h e" if "e \<in> fds d" for e
    using that disj assms(4) ac unfolding accounted_def by blast
  moreover have "h_data h' i = h_data h i" if "i \<in> belongings d h" for i
    using that assms(3) fr unfolding host_frame_def by auto
  ultimately show "same_view d h h'" by (simp add: same_view_def)
qed

subsection \<open>One access\<close>

lemma map_gid_update: "gid c' = gid (cs ! i) \<Longrightarrow> map gid (cs[i := c']) = map gid cs"
proof (rule nth_equalityI)
  fix j assume "gid c' = gid (cs ! i)" "j < length (map gid (cs[i := c']))"
  then show "map gid (cs[i := c']) ! j = map gid cs ! j" by (cases "j = i") simp_all
qed simp

lemma service_step:
  assumes inv: "service_inv S (cs, h)" and i: "i < length cs"
    and step: "guest_step (protected S cs h i) (cs ! i) h c' h'" and num: "numbered c'"
  shows "service_inv S (cs[i := c'], h')"
    and "\<And>j. j < length cs \<Longrightarrow> j \<noteq> i \<Longrightarrow> same_view (cs ! j) h h'"
    and "\<forall>k\<in>S. h_data h' k = h_data h k"
proof -
  let ?P = "protected S cs h i"
  have gi: "guest_inv (protected S cs h j) (cs ! j) h" "numbered (cs ! j)" if "j < length cs" for j
    using inv that by (simp_all add: service_inv_def)
  have gid: "gid c' = gid (cs ! i)" using step by (simp add: guest_step_def)
  note gi' = guest_stepD(1) [OF step gi(1) [OF i]]
  have fr: "host_frame ?P (own_names (gid (cs ! i))) h h'" by (rule guest_stepD(2) [OF step gi(1) [OF i]])
  show S: "\<forall>k\<in>S. h_data h' k = h_data h k" using fr by (auto simp: host_frame_def protected_def)
  have other: "same_view (cs ! j) h h'" "fds c' \<inter> fds (cs ! j) = {}" if "j < length cs" "j \<noteq> i" for j
  proof -
    have "belongings (cs ! j) h \<subseteq> ?P" using that by (auto simp: protected_def)
    moreover have "fds (cs ! i) \<inter> fds (cs ! j) = {}" "gid (cs ! i) \<noteq> gid (cs ! j)"
      using inv that i by (auto simp: service_inv_def distinct_conv_nth)
    moreover have "\<forall>e\<in>fds (cs ! j). fd_lookup h e \<noteq> None"
      using gi(1) [OF that(1)] by (simp add: guest_inv_alt)
    ultimately show "same_view (cs ! j) h h'" "fds c' \<inter> fds (cs ! j) = {}"
      using guest_step_same_view [OF step gi(1) [OF i]] by auto
  qed
  then show "\<And>j. j < length cs \<Longrightarrow> j \<noteq> i \<Longrightarrow> same_view (cs ! j) h h'" by simp
  have b: "belongings (cs ! j) h' = belongings (cs ! j) h" if "j < length cs" "j \<noteq> i" for j
    by (rule same_view_belongings [OF other(1) [OF that]])
  have prot_i: "protected S (cs[i := c']) h' i = ?P" using b by (auto simp: protected_def)
  have ok: "host_ok h'" using gi' by (simp add: guest_inv_alt)
  have nxt: "h_next h \<le> h_next h'" using fr by (simp add: host_frame_def)
  have gj: "guest_inv (protected S (cs[i := c']) h' j) (cs ! j) h'" if j: "j < length cs" "j \<noteq> i" for j
  proof -
    let ?Q = "protected S cs h j"
    have sub: "protected S (cs[i := c']) h' j \<subseteq> ?Q \<union> belongings c' h'"
      using b i by (auto simp: protected_def nth_list_update split: if_splits)
    have "belongings (cs ! j) h \<inter> ?Q = {}" using gi(1) [OF j(1)] by (simp add: guest_inv_alt)
    moreover have "belongings (cs ! j) h \<inter> belongings c' h' = {}"
      using gi' j by (auto simp: guest_inv_alt protected_def)
    ultimately have "belongings (cs ! j) h' \<inter> protected S (cs[i := c']) h' j = {}"
      using sub b [OF j] by auto
    moreover have "\<forall>k\<in>protected S (cs[i := c']) h' j. k < h_next h'"
    proof
      fix k assume "k \<in> protected S (cs[i := c']) h' j"
      with sub have "k \<in> ?Q \<or> k \<in> belongings c' h'" by auto
      then show "k < h_next h'"
        using gi(1) [OF j(1)] nxt belongings_bounded [OF ok] by (auto simp: guest_inv_alt)
    qed
    moreover have "\<forall>d\<in>fds (cs ! j). fd_lookup h' d \<noteq> None"
      using gi(1) [OF j(1)] other(1) [OF j] by (auto simp: guest_inv_alt same_view_def)
    ultimately show ?thesis using gi(1) [OF j(1)] ok by (simp add: guest_inv_alt)
  qed
  have "map gid (cs[i := c']) = map gid cs"
    by (rule map_gid_update [OF gid])
  moreover have "\<forall>j<length cs. numbered (cs[i := c'] ! j) \<and>
      guest_inv (protected S (cs[i := c']) h' j) (cs[i := c'] ! j) h'"
  proof (intro allI impI)
    fix j assume "j < length cs"
    then show "numbered (cs[i := c'] ! j) \<and> guest_inv (protected S (cs[i := c']) h' j) (cs[i := c'] ! j) h'"
      using gi' gj [of j] gi(2) [of j] num by (cases "j = i") (simp_all add: prot_i)
  qed
  moreover have "\<forall>j<length cs. \<forall>k<length cs. j \<noteq> k \<longrightarrow> fds (cs[i := c'] ! j) \<inter> fds (cs[i := c'] ! k) = {}"
  proof (intro allI impI)
    fix j k assume jk: "j < length cs" "k < length cs" "j \<noteq> k"
    then have "fds (cs ! j) \<inter> fds (cs ! k) = {}" using inv by (simp add: service_inv_def)
    then show "fds (cs[i := c'] ! j) \<inter> fds (cs[i := c'] ! k) = {}"
      using jk other(2) [of j] other(2) [of k] by (cases "j = i"; cases "k = i") (simp_all add: Int_commute)
  qed
  ultimately show "service_inv S (cs[i := c'], h')"
    using ok inv by (simp add: service_inv_def)
qed

lemma serve_handle:
  assumes "i < length cs"
  obtains ok c' v' h' where "handleFileIo (cs ! i) ss v h = (ok, c', v', h')"
    "serve ss (i, v) (cs, h) = (cs[i := c'], h')"
proof (cases "handleFileIo (cs ! i) ss v h")
  case (fields ok c' v' h')
  then show ?thesis using that assms by (simp add: serve_def)
qed

lemma service_inv_serve:
  assumes inv: "service_inv S (cs, h)" and left: "\<forall>c\<in>set cs. int (Suc n) \<le> opens_left c"
    and serve: "serve ss rq (cs, h) = (cs', h')"
  shows "service_inv S (cs', h')" and "length cs' = length cs" and "\<forall>c\<in>set cs'. int n \<le> opens_left c"
    and "\<And>j. j < length cs \<Longrightarrow> j \<noteq> fst rq \<Longrightarrow> cs' ! j = cs ! j \<and> same_view (cs ! j) h h'"
    and "\<forall>k\<in>S. h_data h' k = h_data h k"
proof -
  obtain i v where rq: "rq = (i, v)" by (cases rq)
  have "service_inv S (cs', h') \<and> length cs' = length cs \<and> (\<forall>c\<in>set cs'. int n \<le> opens_left c) \<and>
    (\<forall>j<length cs. j \<noteq> i \<longrightarrow> cs' ! j = cs ! j \<and> same_view (cs ! j) h h') \<and>
    (\<forall>k\<in>S. h_data h' k = h_data h k)"
  proof (cases "i < length cs")
    case False
    then have "cs' = cs" "h' = h" using serve by (simp_all add: serve_def rq)
    then show ?thesis using inv left by (fastforce simp: same_view_def)
  next
    case i: True
    obtain ok c' v' h1 where handle: "handleFileIo (cs ! i) ss v h = (ok, c', v', h1)"
      and "serve ss (i, v) (cs, h) = (cs[i := c'], h1)" by (rule serve_handle [OF i])
    then have eq: "cs' = cs[i := c']" "h' = h1" using serve by (simp_all add: rq)
    have num: "numbered (cs ! i)" using inv i by (simp add: service_inv_def)
    note step = guest_step_handle [OF handle num]
    have ci: "cs ! i \<in> set cs" using i by simp
    then have "int (Suc n) \<le> opens_left (cs ! i)" using left by blast
    then have opens: "numbered c'" "int n \<le> opens_left c'"
      using numbering_numbered [OF step(2) num] by auto
    note s = service_step [OF inv i step(1) opens(1)]
    have "\<forall>c\<in>set cs'. int n \<le> opens_left c"
      using left opens(2) set_update_subset_insert [of cs i c'] unfolding eq by fastforce
    then show ?thesis using s unfolding eq by auto
  qed
  then show "service_inv S (cs', h')" "length cs' = length cs" "\<forall>c\<in>set cs'. int n \<le> opens_left c"
    "\<And>j. j < length cs \<Longrightarrow> j \<noteq> fst rq \<Longrightarrow> cs' ! j = cs ! j \<and> same_view (cs ! j) h h'"
    "\<forall>k\<in>S. h_data h' k = h_data h k"
    by (simp_all add: rq)
qed

subsection \<open>Any number of accesses\<close>

lemma service_inv_booted:
  assumes "booted S (cs, h)"
  shows "service_inv S (cs, h)" and "\<forall>c\<in>set cs. opens_left c = 2 ^ 31 - 4" and "\<forall>c\<in>set cs. fds c = {}"
proof -
  have b: "host_ok h" "distinct (map gid cs)" "\<forall>i\<in>S. i < h_next h"
    and init: "\<And>c. c \<in> set cs \<Longrightarrow> fileState c = initial_FileState"
    and own: "\<And>c n i. c \<in> set cs \<Longrightarrow> h_names h (local_path (gid c) n) = Some i \<Longrightarrow> i \<notin> S"
    and links: "\<And>c n i p. c \<in> set cs \<Longrightarrow> h_names h (local_path (gid c) n) = Some i \<Longrightarrow> h_names h p = Some i
      \<Longrightarrow> p \<in> own_names (gid c)"
    using assms by (auto simp: booted_def)
  have tab: "table c = []" if "c \<in> set cs" for c
    using init [OF that] by (simp add: table_def initial_FileState_def)
  show "\<forall>c\<in>set cs. opens_left c = 2 ^ 31 - 4"
    using init by (simp add: opens_left_def initial_FileState_def)
  show fds: "\<forall>c\<in>set cs. fds c = {}" using tab by (simp add: fds_def owners_def)
  have bel: "belongings c h = {i. \<exists>n. h_names h (local_path (gid c) n) = Some i}" if "c \<in> set cs" for c
    using tab [OF that] by (auto simp: belongings_def owners_def own_names_def)
  have inv: "numbered (cs ! i) \<and> guest_inv (protected S cs h i) (cs ! i) h" if i: "i < length cs" for i
  proof -
    have c: "cs ! i \<in> set cs" using i by simp
    have "belongings (cs ! i) h \<inter> belongings (cs ! j) h = {}" if j: "j < length cs" "j \<noteq> i" for j
    proof (rule ccontr)
      assume "\<not> ?thesis"
      moreover have cj: "cs ! j \<in> set cs" using j by simp
      ultimately obtain k m n where k: "h_names h (local_path (gid (cs ! i)) m) = Some k"
          "h_names h (local_path (gid (cs ! j)) n) = Some k"
        using bel [OF c] bel [OF cj] by auto
      have "local_path (gid (cs ! j)) n \<in> own_names (gid (cs ! i))" by (rule links [OF c k])
      then have "gid (cs ! i) = gid (cs ! j)" using own_names_disjoint by metis
      then show False using b(2) i j by (auto simp: distinct_conv_nth)
    qed
    moreover have "belongings (cs ! i) h \<inter> S = {}" using bel [OF c] own [OF c] by auto
    moreover have "\<forall>k\<in>protected S cs h i. k < h_next h"
      using b belongings_bounded [OF b(1)] by (auto simp: protected_def)
    ultimately have "guest_inv (protected S cs h i) (cs ! i) h"
      using b(1) tab [OF c] fds c by (auto simp: guest_inv_alt protected_def owners_def)
    then show ?thesis using tab [OF c] by (simp add: numbered_def)
  qed
  then show "service_inv S (cs, h)"
    using b(1,2) fds by (auto simp: service_inv_def)
qed

text \<open>What a run of accesses keeps, in one relation that composes.\<close>

definition all_fds :: "GuestContext list \<Rightarrow> int set" where
  "all_fds cs = (\<Union>c\<in>set cs. fds c)"

lemma all_fds_at:
  assumes "i < length cs"
  shows "all_fds cs = fds (cs ! i) \<union> (\<Union>j\<in>{..<length cs} - {i}. fds (cs ! j))"
proof -
  have "set cs = (!) cs ` {..<length cs}" by (auto simp: set_conv_nth)
  moreover have "{..<length cs} = insert i ({..<length cs} - {i})" using assms by auto
  ultimately show ?thesis unfolding all_fds_def by (metis UN_insert image_UN image_insert image_image)
qed

lemma service_step_accounted:
  assumes inv: "service_inv S (cs, h)" and i: "i < length cs"
    and step: "guest_step (protected S cs h i) (cs ! i) h c' h'"
  shows "accounted (all_fds cs) h (all_fds (cs[i := c'])) h'" and "map gid (cs[i := c']) = map gid cs"
    and "p \<notin> (\<Union>c\<in>set cs. own_names (gid c)) \<Longrightarrow> h_names h' p = h_names h p"
proof -
  have gi: "guest_inv (protected S cs h i) (cs ! i) h" using inv i by (simp add: service_inv_def)
  let ?R = "\<Union>j\<in>{..<length cs} - {i}. fds (cs ! j)"
  have "accounted (fds (cs ! i)) h (fds c') h'"
    using guest_stepD(3) [OF step gi] by (simp add: fds_def owners_def image_image case_prod_beta)
  then have "accounted (fds (cs ! i) \<union> ?R) h (fds c' \<union> ?R) h'" by (auto simp: accounted_def)
  moreover have "all_fds cs = fds (cs ! i) \<union> ?R" by (rule all_fds_at [OF i])
  moreover have "all_fds (cs[i := c']) = fds c' \<union> ?R"
    using all_fds_at [of i "cs[i := c']"] i by simp
  ultimately show "accounted (all_fds cs) h (all_fds (cs[i := c'])) h'" by simp
  show "map gid (cs[i := c']) = map gid cs"
    using step by (intro map_gid_update) (simp add: guest_step_def)
  show "h_names h' p = h_names h p" if "p \<notin> (\<Union>c\<in>set cs. own_names (gid c))"
    using that guest_stepD(2) [OF step gi] i by (auto simp: host_frame_def)
qed

lemma serve_accounted:
  assumes inv: "service_inv S (cs, h)" and serve: "serve ss rq (cs, h) = (cs', h')"
  shows "accounted (all_fds cs) h (all_fds cs') h'" and "map gid cs' = map gid cs"
    and "\<And>p. p \<notin> (\<Union>c\<in>set cs. own_names (gid c)) \<Longrightarrow> h_names h' p = h_names h p"
proof -
  obtain i v where rq: "rq = (i, v)" by (cases rq)
  have "accounted (all_fds cs) h (all_fds cs') h' \<and> map gid cs' = map gid cs \<and>
    (\<forall>p. p \<notin> (\<Union>c\<in>set cs. own_names (gid c)) \<longrightarrow> h_names h' p = h_names h p)"
  proof (cases "i < length cs")
    case False
    then show ?thesis using serve by (simp add: serve_def rq accounted_def)
  next
    case i: True
    obtain ok c' v' h1 where handle: "handleFileIo (cs ! i) ss v h = (ok, c', v', h1)"
      and "serve ss (i, v) (cs, h) = (cs[i := c'], h1)" by (rule serve_handle [OF i])
    then have eq: "cs' = cs[i := c']" "h' = h1" using serve by (simp_all add: rq)
    have "numbered (cs ! i)" using inv i by (simp add: service_inv_def)
    note step = guest_step_handle(1) [OF handle this, of "protected S cs h i"]
    show ?thesis using service_step_accounted [OF inv i step] unfolding eq by blast
  qed
  then show "accounted (all_fds cs) h (all_fds cs') h'" "map gid cs' = map gid cs"
    "\<And>p. p \<notin> (\<Union>c\<in>set cs. own_names (gid c)) \<Longrightarrow> h_names h' p = h_names h p" by auto
qed

lemma own_names_map_gid:
  assumes "map gid cs' = map gid cs"
  shows "(\<Union>c\<in>set cs'. own_names (gid c)) = (\<Union>c\<in>set cs. own_names (gid c))"
proof -
  have "(\<Union>c\<in>set xs. own_names (gid c)) = (\<Union>g\<in>set (map gid xs). own_names g)" for xs by simp
  then show ?thesis using assms by metis
qed

lemma service_run:
  assumes "service_inv S (cs, h)" and "\<forall>c\<in>set cs. int (length rqs + n) \<le> opens_left c"
    and "serve_all ss rqs (cs, h) = (cs', h')"
  shows "service_inv S (cs', h') \<and> (\<forall>c\<in>set cs'. int n \<le> opens_left c) \<and> (\<forall>k\<in>S. h_data h' k = h_data h k) \<and>
    accounted (all_fds cs) h (all_fds cs') h' \<and> map gid cs' = map gid cs \<and>
    (\<forall>p. p \<notin> (\<Union>c\<in>set cs. own_names (gid c)) \<longrightarrow> h_names h' p = h_names h p)"
  using assms
proof (induction rqs arbitrary: cs h)
  case Nil
  then show ?case by (simp add: serve_all_def accounted_def)
next
  case (Cons rq rqs)
  obtain cs1 h1 where s: "serve ss rq (cs, h) = (cs1, h1)" by fastforce
  have left: "\<forall>c\<in>set cs. int (Suc (length rqs + n)) \<le> opens_left c" using Cons.prems(2) by simp
  note a = service_inv_serve [OF Cons.prems(1) left s] and b = serve_accounted [OF Cons.prems(1) s]
  have "serve_all ss rqs (cs1, h1) = (cs', h')" using Cons.prems(3) s by (simp add: serve_all_def)
  note ih = Cons.IH [OF a(1,3) this]
  then have "accounted (all_fds cs) h (all_fds cs') h'" using accounted_trans [OF b(1)] by blast
  then show ?case using ih a b own_names_map_gid [OF b(2)] by auto
qed

lemma fd_lookup_close: "fd_lookup (snd (os_close h d)) e = (if e = d then None else fd_lookup h e)"
  by (simp add: os_close_def Let_def case_prod_beta)

lemma fd_lookup_close_all:
  "fd_lookup (close_all t h) d = (if d \<in> fst ` set (owners t) then None else fd_lookup h d)"
proof (induction t arbitrary: h)
  case (Cons e t)
  obtain k f where "e = (k, f)" by (cases e)
  then show ?case using Cons.IH [of "snd (os_close h (hostDescriptor f))"]
    by (simp add: owners_def fd_lookup_close)
qed (simp add: owners_def)

lemma close_machines_effect:
  "close_machines cs h = (cs', h') \<Longrightarrow>
     fd_lookup h' d = (if d \<in> all_fds cs then None else fd_lookup h d) \<and> (\<forall>c\<in>set cs'. table c = [])"
proof (induction cs arbitrary: h h' cs')
  case (Cons c cs)
  obtain c1 h1 where c: "closeGuestFiles c h = (c1, h1)" by fastforce
  obtain cs2 h2 where cs: "close_machines cs h1 = (cs2, h2)" by fastforce
  have "h1 = close_all (table c) h" using c by (simp add: closeGuestFiles_def table_def)
  then show ?case
    using Cons.prems [unfolded close_machines.simps c] cs Cons.IH [OF cs] guest_step_closeGuestFiles(2) [OF c]
    by (auto simp: all_fds_def fds_def fd_lookup_close_all simp del: set_map)
qed (simp add: all_fds_def)

subsection \<open>Properties\<close>

text \<open>Two machines, one shared file, and an old file of machine 1.\<close>

definition two_machines :: "GuestContext list" where
  "two_machines = [initial_GuestContext, initial_GuestContext\<lparr>gid := 1\<rparr>]"

definition shared_disk :: host where
  "shared_disk = \<lparr>h_names = [''/srv/a'' \<mapsto> 0, local_path 1 ''b'' \<mapsto> 1], h_dirs = (\<lambda>p. p = ''vm_files''),
     h_data = (\<lambda>i. if i = 0 then [1, 2, 3] else [9]), h_owner_write = (\<lambda>i. True), h_next = 2, h_fds = [],
     h_faults = [No_Fault, Short 1, Fail]\<rparr>"

definition one_shared_file :: SharedState where
  "one_shared_file = initial_SharedState\<lparr>sharedFiles := [''a'' \<mapsto> ''/srv/a'']\<rparr>"

text \<open>A machine that stopped at an OUT which asks the host to open \<^verbatim>\<open>a\<close> for reading and writing.\<close>

definition open_exit :: vm where
  "open_exit = (blank_vm 64)\<lparr>mem := store_bytes (store_bytes (\<lambda>_. 0) 0
       (encode_request \<lparr>req_operation = FILE_OPERATION_OPEN, req_descriptor = 0, req_buffer = 32, req_count = 0,
          req_offset = 0, req_flags = FILE_OPEN_READ_WRITE\<rparr>)) 32 [97],
     run := zero_run\<lparr>io := \<lparr>io_direction = KVM_EXIT_IO_OUT, io_size = 4, io_port = FILE_IO_PORT, io_count = 1,
       io_data_offset = 1024\<rparr>\<rparr>, run_mmap_size := 4096\<rparr>"

lemma booted_two_machines: "booted {0} (two_machines, shared_disk)"
proof -
  have "''/srv/a'' \<noteq> local_path k n \<and> local_path k n \<noteq> ''/srv/a''" for k n by (simp add: local_path_def)
  moreover have "inode_of shared_disk d = None" for d by (simp add: inode_of_def fd_lookup_def shared_disk_def)
  ultimately show ?thesis
    by (auto simp: booted_def two_machines_def host_ok_def initial_GuestContext_def shared_disk_def
        local_path_inj split: if_splits)
qed

text \<open>
  Files are safe under every load: from any boot state of any number of machines, after
  any interleaving of file accesses, with any guest memory and any pattern of failing host
  calls (up to the counter's 2^31 - 4 opens), every byte of every shared original is what it
  was, and no name of the host has changed outside the machines' own directories.
\<close>

theorem shared_originals_untouched:
  assumes "booted S (cs, h)" and "length rqs \<le> 2 ^ 31 - 4"
    and "serve_all ss rqs (cs, h) = (cs', h')"
  shows "(\<forall>i\<in>S. h_data h' i = h_data h i) \<and>
    (\<forall>p. (\<forall>c\<in>set cs. \<forall>n. p \<noteq> local_path (gid c) n) \<longrightarrow> h_names h' p = h_names h p)"
proof -
  note b = service_inv_booted [OF assms(1)]
  have "\<forall>c\<in>set cs. int (length rqs + 0) \<le> opens_left c" using b(2) assms(2) by simp
  note r = service_run [OF b(1) this assms(3)]
  have "h_names h' p = h_names h p" if "\<forall>c\<in>set cs. \<forall>n. p \<noteq> local_path (gid c) n" for p
  proof -
    have "p \<notin> (\<Union>c\<in>set cs. own_names (gid c))" using that by (auto simp: own_names_def)
    then show ?thesis using r by blast
  qed
  with r show ?thesis by simp
qed

theorem shared_originals_untouched_witness:
  "h_data (snd (serve_all one_shared_file [(0, open_exit), (1, open_exit)] (two_machines, shared_disk))) 0 = [1, 2, 3]"
proof -
  have "h_data (snd (serve_all one_shared_file [(0, open_exit), (1, open_exit)] (two_machines, shared_disk))) 0
      = h_data shared_disk 0"
    using shared_originals_untouched [OF booted_two_machines _ prod.collapse [symmetric],
        of "[(0, open_exit), (1, open_exit)]" one_shared_file] by simp
  then show ?thesis by (simp add: shared_disk_def)
qed

text \<open>
  C16. Machines are isolated from each other: at any point of such a run, an access of machine
  \<open>i\<close> leaves every other machine's context, its names, the contents of its files and its open
  descriptors with their offsets as they were.
\<close>

theorem other_machines_untouched:
  assumes "booted S (cs0, h0)" and "length rqs < 2 ^ 31 - 4"
    and "serve_all ss rqs (cs0, h0) = (cs, h)"
    and "serve ss (i, v) (cs, h) = (cs', h')" and "j < length cs0" and "j \<noteq> i"
  shows "cs' ! j = cs ! j \<and> same_view (cs ! j) h h'"
proof -
  note b = service_inv_booted [OF assms(1)]
  have "\<forall>c\<in>set cs0. int (length rqs + Suc 0) \<le> opens_left c" using b(2) assms(2) by simp
  note r = service_run [OF b(1) this assms(3)]
  then have "service_inv S (cs, h)" "\<forall>c\<in>set cs. int (Suc 0) \<le> opens_left c" by auto
  note s = service_inv_serve(4) [OF this assms(4)]
  have "length cs = length cs0" using r by (metis length_map)
  then show ?thesis using s [of j] assms(5,6) by simp
qed

theorem other_machines_untouched_witness:
  "same_view (fst (serve_all one_shared_file [(1, open_exit)] (two_machines, shared_disk)) ! 1)
     (snd (serve_all one_shared_file [(1, open_exit)] (two_machines, shared_disk)))
     (snd (serve one_shared_file (0, open_exit) (serve_all one_shared_file [(1, open_exit)] (two_machines, shared_disk))))"
proof -
  obtain cs h where s: "serve_all one_shared_file [(1, open_exit)] (two_machines, shared_disk) = (cs, h)" by fastforce
  obtain cs' h' where s': "serve one_shared_file (0, open_exit) (cs, h) = (cs', h')" by fastforce
  have "cs' ! 1 = cs ! 1 \<and> same_view (cs ! 1) h h'"
    by (rule other_machines_untouched [OF booted_two_machines _ s s']) (simp_all add: two_machines_def)
  then show ?thesis unfolding s s' by simp
qed

text \<open>
  No descriptor leaks: once every machine's files have been closed, the descriptor table
  of the process is what it was before the first access, also when calls failed in the middle
  of a copy on write and when \<^verbatim>\<open>close\<close> itself reported errors.
\<close>

theorem no_descriptor_leaks:
  assumes "booted S (cs, h)" and "length rqs \<le> 2 ^ 31 - 4"
    and "serve_all ss rqs (cs, h) = (cs1, h1)" and "close_machines cs1 h1 = (cs2, h2)"
  shows "fd_lookup h2 d = fd_lookup h d"
proof -
  note b = service_inv_booted [OF assms(1)]
  have "\<forall>c\<in>set cs. int (length rqs + 0) \<le> opens_left c" using b(2) assms(2) by simp
  then have "accounted (all_fds cs) h (all_fds cs1) h1" using service_run [OF b(1) _ assms(3)] by blast
  moreover have "all_fds cs = {}" using b(3) by (simp add: all_fds_def)
  ultimately show ?thesis using close_machines_effect [OF assms(4), of d] by (auto simp: accounted_def)
qed

theorem no_descriptor_leaks_witness:
  "fd_lookup (snd (close_machines (fst (serve_all one_shared_file [(0, open_exit)] (two_machines, shared_disk)))
     (snd (serve_all one_shared_file [(0, open_exit)] (two_machines, shared_disk))))) 3 = None"
proof -
  have "fd_lookup shared_disk 3 = None" by (simp add: fd_lookup_def shared_disk_def)
  then show ?thesis
    using no_descriptor_leaks [OF booted_two_machines _ prod.collapse [symmetric] prod.collapse [symmetric],
        of "[(0, open_exit)]" one_shared_file 3] by simp
qed

end
