(* ===== verification/Host_Main.thy ===== *)
theory Host_Main
  imports Cli Vm_Runner File_Service Shared_Rounds
begin

text \<open>
  \<^verbatim>\<open>host/src/main.cpp\<close>: the set-up of the shared files and of the machines' contexts. What
  \<^verbatim>\<open>std::filesystem::canonical\<close> and \<^verbatim>\<open>is_regular_file\<close> answer is a parameter, since they
  look at symbolic links and file types, which the model of the host's files does not have.
\<close>

subsection \<open>Shared files\<close>

record path_answers =
  canonical :: "string \<Rightarrow> string option"   \<comment> \<open>\<open>None\<close> when \<open>error\<close> is set\<close>
  is_regular_file :: "string \<Rightarrow> bool"

definition quoted :: "string \<Rightarrow> string" where "quoted s = [CHR 0x27] @ s @ [CHR 0x27]"

definition missing_text :: "string \<Rightarrow> string" where
  "missing_text p = ''Error: shared file '' @ quoted p @ '' does not exist or is not a regular file'' @ newline"

definition invalid_text :: "string \<Rightarrow> string" where
  "invalid_text n = ''Error: shared file name '' @ quoted n @ '' is not valid for guest access'' @ newline"

definition duplicate_text :: "string \<Rightarrow> string" where
  "duplicate_text n = ''Error: multiple shared files use the guest name '' @ quoted n @ newline"

text \<open>The loop body for one configured path: an error message, or the guest name and the path.\<close>

definition check_shared_file :: "path_answers \<Rightarrow> SharedState \<Rightarrow> string \<Rightarrow> string + string \<times> string" where
  "check_shared_file fs ss configuredPath =
     (case canonical fs configuredPath of
        None \<Rightarrow> Inl (missing_text configuredPath)
      | Some p \<Rightarrow>
          if \<not> is_regular_file fs p then Inl (missing_text configuredPath) else
          let n = file_name configuredPath in
          if \<not> isValidGuestFileName n then Inl (invalid_text n) else
          if sharedFiles ss n \<noteq> None then Inl (duplicate_text n) else
          Inr (n, p))"

fun configure_loop :: "path_answers \<Rightarrow> string list \<Rightarrow> SharedState \<Rightarrow> bool \<times> SharedState \<times> string" where
  "configure_loop fs [] ss = (True, ss, [])"
| "configure_loop fs (configuredPath # ps) ss =
     (case check_shared_file fs ss configuredPath of
        Inl message \<Rightarrow> (False, ss, message)
      | Inr (n, p) \<Rightarrow> configure_loop fs ps (ss\<lparr>sharedFiles := (sharedFiles ss)(n \<mapsto> p)\<rparr>))"

definition configureSharedFiles :: "path_answers \<Rightarrow> Config \<Rightarrow> SharedState \<Rightarrow> bool \<times> SharedState \<times> string" where
  "configureSharedFiles fs cfg ss = configure_loop fs (cfg_sharedFiles cfg) ss"

text \<open>What a usable list of shared files is, and the table it stands for.\<close>

definition usable_file :: "path_answers \<Rightarrow> string \<Rightarrow> bool" where
  "usable_file fs p \<longleftrightarrow> (\<exists>q. canonical fs p = Some q \<and> is_regular_file fs q) \<and> isValidGuestFileName (file_name p)"

definition shared_table :: "path_answers \<Rightarrow> string list \<Rightarrow> string \<rightharpoonup> string" where
  "shared_table fs ps = map_of (map (\<lambda>p. (file_name p, the (canonical fs p))) ps)"

lemma configure_loop_ok:
  "configure_loop fs ps ss = (True, ss', err) \<longleftrightarrow>
     list_all (usable_file fs) ps \<and> distinct (map file_name ps) \<and>
     file_name ` set ps \<inter> dom (sharedFiles ss) = {} \<and>
     ss' = ss\<lparr>sharedFiles := sharedFiles ss ++ shared_table fs ps\<rparr> \<and> err = []"
proof (induction ps arbitrary: ss)
  case Nil
  show ?case by (auto simp: shared_table_def)
next
  case (Cons p ps)
  let ?n = "file_name p"
  show ?case
  proof (cases "usable_file fs p \<and> sharedFiles ss ?n = None")
    case True
    then obtain q where q: "canonical fs p = Some q" "is_regular_file fs q" "isValidGuestFileName ?n"
      by (auto simp: usable_file_def)
    define ss1 where "ss1 = ss\<lparr>sharedFiles := (sharedFiles ss)(?n \<mapsto> q)\<rparr>"
    have step: "configure_loop fs (p # ps) ss = configure_loop fs ps ss1"
      using True q by (simp add: check_shared_file_def Let_def ss1_def)
    have d: "file_name ` set ps \<inter> dom (sharedFiles ss1) = {} \<longleftrightarrow>
        ?n \<notin> file_name ` set ps \<and> file_name ` set ps \<inter> dom (sharedFiles ss) = {}"
      by (auto simp: ss1_def)
    have t: "ss1\<lparr>sharedFiles := sharedFiles ss1 ++ shared_table fs ps\<rparr> =
        ss\<lparr>sharedFiles := sharedFiles ss ++ shared_table fs (p # ps)\<rparr>"
      if "?n \<notin> file_name ` set ps"
    proof -
      have "shared_table fs ps ?n = None"
        using that by (auto simp: shared_table_def map_of_eq_None_iff)
      then have "(sharedFiles ss)(?n \<mapsto> q) ++ shared_table fs ps = sharedFiles ss ++ shared_table fs (p # ps)"
        using q(1) by (auto simp: shared_table_def map_add_def fun_eq_iff split: option.splits)
      then show ?thesis by (simp add: ss1_def)
    qed
    have "?n \<notin> dom (sharedFiles ss)" using True by auto
    then show ?thesis
      unfolding step Cons.IH [of ss1] d using t True by (cases "?n \<in> file_name ` set ps") auto
  next
    case False
    then show ?thesis
      by (auto simp: check_shared_file_def usable_file_def Let_def split: option.splits)
  qed
qed

lemma configure_loop_buffer: "configure_loop fs ps ss = (ok, ss', err) \<Longrightarrow> buffer_state ss' = buffer_state ss"
proof (induction ps arbitrary: ss)
  case (Cons p ps)
  then show ?case by (fastforce split: sum.splits prod.splits)
qed simp

subsection \<open>The machines' contexts\<close>

definition guest_context :: "Config \<Rightarrow> nat \<Rightarrow> GuestContext" where
  "guest_context cfg i = initial_GuestContext
     \<lparr>gid := i, memorySize := cfg_memorySize cfg, pageSize := cfg_pageSize cfg, imagePath := guestImages cfg ! i,
      sharedBuffer := initial_SharedBufferVmState\<lparr>sb_mode := if i = 0 then VM_MODE_WRITER else VM_MODE_READER\<rparr>\<rparr>"

definition guest_contexts :: "Config \<Rightarrow> GuestContext list" where
  "guest_contexts cfg = map (guest_context cfg) [0..<length (guestImages cfg)]"

text \<open>\<^verbatim>\<open>std::size_t\<close> subtraction: with no guest at all it would wrap.\<close>

definition initial_shared :: "Config \<Rightarrow> SharedState" where
  "initial_shared cfg = initial_SharedState\<lparr>buffer_state := initial_SharedBufferState
     \<lparr>readerCount := unat (of_nat (length (guestImages cfg)) - 1 :: u64)\<rparr>\<rparr>"

lemma unat_pred_length:
  assumes "0 < n" and "n < 2 ^ 64"
  shows "unat (of_nat n - 1 :: u64) = n - 1"
proof -
  have "(of_nat n - 1 :: u64) = of_nat (n - 1)" using assms(1) by (simp add: of_nat_diff)
  then show ?thesis using assms(2) by (simp add: unat_of_nat)
qed

lemma configured_initial:
  assumes "guestImages cfg \<noteq> []" and "length (guestImages cfg) < 2 ^ 64"
  shows "configured (guest_contexts cfg) (buffer_state (initial_shared cfg))"
  using assms unat_pred_length [of "length (guestImages cfg)"]
  by (auto simp: configured_def guest_contexts_def guest_context_def initial_shared_def initial_SharedState_def)

lemma gid_guest_contexts: "map gid (guest_contexts cfg) = [0..<length (guestImages cfg)]"
  by (rule nth_equalityI) (simp_all add: guest_contexts_def guest_context_def)

subsection \<open>The set-up\<close>

text \<open>
  C37. The shared files are set up exactly when every configured path names an existing regular
  file whose last component is a valid guest name, and no two have the same name; the table
  then maps each guest name to its file's absolute path, and nothing else of the shared state
  changes and nothing is printed.
\<close>

theorem shared_files_set_up:
  "configureSharedFiles fs cfg (initial_shared cfg) = (True, ss, err) \<longleftrightarrow>
     list_all (usable_file fs) (cfg_sharedFiles cfg) \<and> distinct (map file_name (cfg_sharedFiles cfg)) \<and>
     ss = (initial_shared cfg)\<lparr>sharedFiles := shared_table fs (cfg_sharedFiles cfg)\<rparr> \<and> err = []"
  by (simp add: configureSharedFiles_def configure_loop_ok initial_shared_def initial_SharedState_def)

end
