(* ===== verification/Hypervisor.thy ===== *)
theory Hypervisor
  imports Host_Main Broadcast
begin

text \<open>
  The whole process: \<^verbatim>\<open>main\<close> in \<^verbatim>\<open>host/src/main.cpp\<close> creates one thread per machine, each
  runs \<^verbatim>\<open>runGuest\<close> of \<^verbatim>\<open>host/src/vm_runner.cpp\<close>, and \<^verbatim>\<open>main\<close> joins them. A step is one
  action of one thread; the threads interleave in any order, guests may leave anything in
  their memory and in their exits, and every call of the host may fail.
\<close>

subsection \<open>The state of the process\<close>

text \<open>A machine's thread: not created, before its machine is set up, active, or finished.\<close>

datatype phase = Absent | Created | Active thread | Ended

datatype main_pc = Creating nat | Joining nat | Left int

record system =
  sy_main :: main_pc
  sy_started :: nat
  sy_good :: bool          \<comment> \<open>\<open>allGuestsSucceeded\<close>\<close>
  sy_contexts :: "GuestContext list"
  sy_phases :: "phase list"
  sy_world :: world

definition EXIT_SUCCESS :: int where "EXIT_SUCCESS = 0"
definition EXIT_FAILURE :: int where "EXIT_FAILURE = 1"

text \<open>\<^verbatim>\<open>main\<close> up to the creation of the threads.\<close>

definition begun :: "main_pc \<Rightarrow> GuestContext list \<Rightarrow> SharedState \<Rightarrow> host \<Rightarrow> console \<Rightarrow> system" where
  "begun pc cs ss h con = \<lparr>sy_main = pc, sy_started = 0, sy_good = True, sy_contexts = cs,
     sy_phases = map (\<lambda>_. Absent) cs, sy_world = \<lparr>w_shared = ss, w_host = h, w_console = con\<rparr>\<rparr>"

definition main_begin :: "path_answers \<Rightarrow> string \<Rightarrow> string list \<Rightarrow> host \<Rightarrow> string \<Rightarrow> system" where
  "main_begin fs program args h input =
     (let cli = parseArguments program args;
          con = \<lparr>con_out = co_out cli, con_err = co_err cli, con_in = input\<rparr> in
      case status (co_result cli) of
        Cli_Help \<Rightarrow> begun (Left EXIT_SUCCESS) [] initial_SharedState h con
      | Cli_Error \<Rightarrow> begun (Left EXIT_FAILURE) [] initial_SharedState h con
      | Cli_Ok \<Rightarrow>
          let cfg = config (co_result cli);
              (ok, ss, message) = configureSharedFiles fs cfg (initial_shared cfg);
              con = to_err message con
          in if \<not> ok then begun (Left EXIT_FAILURE) [] ss h con
             else begun (Creating 0) (guest_contexts cfg) ss h con)"

subsection \<open>Steps of the main thread\<close>

definition thread_error :: "(nat \<Rightarrow> string) \<Rightarrow> string \<Rightarrow> int \<Rightarrow> system \<Rightarrow> system" where
  "thread_error strerror what result s =
     s\<lparr>sy_good := False, sy_world :=
         (let w = on_console (to_err (''Failed to '' @ what @ '' VM thread: '' @ strerror (nat result) @ newline)) (sy_world s)
          in set_buffer w (abortSharedBuffer (buffer_state (w_shared w))))\<rparr>"

text \<open>The argument \<open>result\<close> is what \<^verbatim>\<open>pthread_create\<close> or \<^verbatim>\<open>pthread_join\<close> returns.\<close>

definition main_step :: "(nat \<Rightarrow> string) \<Rightarrow> int \<Rightarrow> system \<Rightarrow> system option" where
  "main_step strerror result s =
     (case sy_main s of
        Creating i \<Rightarrow>
          if i < length (sy_contexts s) then
            if result \<noteq> 0 then Some ((thread_error strerror ''create'' result s)\<lparr>sy_main := Joining 0\<rparr>)
            else Some (s\<lparr>sy_phases := (sy_phases s)[i := Created], sy_started := Suc (sy_started s),
              sy_main := Creating (Suc i)\<rparr>)
          else Some (s\<lparr>sy_main := Joining 0\<rparr>)
      | Joining i \<Rightarrow>
          if i < sy_started s then
            if result \<noteq> 0 then Some ((thread_error strerror ''join'' result s)\<lparr>sy_main := Joining (Suc i)\<rparr>)
            else if sy_phases s ! i = Ended then
              Some (s\<lparr>sy_good := (if \<not> completedSuccessfully (sy_contexts s ! i) then False else sy_good s),
                sy_main := Joining (Suc i)\<rparr>)
            else None
          else Some (s\<lparr>sy_main := Left (if sy_good s then EXIT_SUCCESS else EXIT_FAILURE)\<rparr>)
      | Left x \<Rightarrow> None)"

subsection \<open>Steps of a machine's thread\<close>

datatype move = Boot boot_answers | Event kvm_event | Finish

definition put :: "nat \<Rightarrow> GuestContext \<Rightarrow> phase \<Rightarrow> world \<Rightarrow> system \<Rightarrow> system" where
  "put i c p w s = s\<lparr>sy_contexts := (sy_contexts s)[i := c], sy_phases := (sy_phases s)[i := p], sy_world := w\<rparr>"

text \<open>\<^verbatim>\<open>runGuest\<close>; \<open>None\<close> when the thread waits for a condition variable or has nothing to do.\<close>

fun runGuest_step :: "(nat \<Rightarrow> string) \<Rightarrow> move \<Rightarrow> GuestContext \<Rightarrow> world \<Rightarrow> phase \<Rightarrow> (GuestContext \<times> phase \<times> world) option" where
  "runGuest_step strerror (Boot a) c w Created =
     (let r = boot_machine strerror c a w in Some (c, Active (br_thread r), br_world r))"
| "runGuest_step strerror (Event e) c w (Active (Running v n)) =
     (case run_event strerror c v n w e of
        Waiting \<Rightarrow> None
      | Looping c v n w \<Rightarrow> Some (c, Active (Running v n), w)
      | Finished ok c w released \<Rightarrow> Some (c, Active (Returned ok released), w))"
| "runGuest_step strerror Finish c w (Active (Returned ok released)) =
     (let (c, w) = finish_guest ok c w in Some (c, Ended, w))"
| "runGuest_step strerror mv c w p = None"

definition machine_move :: "(nat \<Rightarrow> string) \<Rightarrow> nat \<Rightarrow> move \<Rightarrow> system \<Rightarrow> system option" where
  "machine_move strerror i mv s =
     (case runGuest_step strerror mv (sy_contexts s ! i) (sy_world s) (sy_phases s ! i) of
        None \<Rightarrow> None | Some (c, p, w) \<Rightarrow> Some (put i c p w s))"

subsection \<open>Runs\<close>

text \<open>The label counts the accesses to the file port, whose descriptor counter is finite.\<close>

fun file_accesses :: "move \<Rightarrow> nat" where
  "file_accesses (Event (Exited KVM_EXIT_IO i d m x)) = (if io_port i = FILE_IO_PORT then 1 else 0)"
| "file_accesses mv = 0"

text \<open>
  \<open>G\<close> says which moves the guests make; \<open>any_guest\<close> leaves them every freedom.
\<close>

definition any_guest :: "system \<Rightarrow> nat \<Rightarrow> move \<Rightarrow> bool" where
  "any_guest s i mv = True"

abbreviation buffer_of :: "world \<Rightarrow> SharedBufferState" where
  "buffer_of w \<equiv> buffer_state (w_shared w)"

definition buffer_port :: "kvm_io \<Rightarrow> bool" where
  "buffer_port i \<longleftrightarrow> io_port i = SHARED_BUFFER_PORT \<or> io_port i = SHARED_BUFFER_STATUS_PORT"

text \<open>
  The guests keep the protocol's discipline: a reader acknowledges only after it has begun to
  read a round, and the generation counter has not been used up.
\<close>

fun well_behaved :: "system \<Rightarrow> nat \<Rightarrow> move \<Rightarrow> bool" where
  "well_behaved s i (Event (Exited KVM_EXIT_IO e d m x)) \<longleftrightarrow>
     (buffer_port e \<longrightarrow> generation (buffer_of (sy_world s)) \<noteq> - 1 \<and>
        (sb_mode (sharedBuffer (sy_contexts s ! i)) = VM_MODE_READER \<and> io_port e = SHARED_BUFFER_STATUS_PORT \<longrightarrow>
           activeReadGeneration (sharedBuffer (sy_contexts s ! i)) \<noteq> 0))"
| "well_behaved s i mv \<longleftrightarrow> True"

inductive system_step :: "(nat \<Rightarrow> string) \<Rightarrow> (system \<Rightarrow> nat \<Rightarrow> move \<Rightarrow> bool) \<Rightarrow> nat \<Rightarrow> system \<Rightarrow> system \<Rightarrow> bool"
  for strerror G where
  main: "main_step strerror x s = Some s' \<Longrightarrow> system_step strerror G 0 s s'"
| machine: "(\<nexists>x. sy_main s = Left x) \<Longrightarrow> i < length (sy_contexts s) \<Longrightarrow> G s i mv \<Longrightarrow>
     machine_move strerror i mv s = Some s' \<Longrightarrow> system_step strerror G (file_accesses mv) s s'"

inductive_cases system_stepE: "system_step strerror G k s s'"

inductive system_run :: "(nat \<Rightarrow> string) \<Rightarrow> (system \<Rightarrow> nat \<Rightarrow> move \<Rightarrow> bool) \<Rightarrow> nat \<Rightarrow> system \<Rightarrow> system \<Rightarrow> bool"
  for strerror G where
  start: "system_run strerror G 0 s s"
| more: "system_run strerror G n s s' \<Longrightarrow> system_step strerror G k s' s'' \<Longrightarrow> system_run strerror G (n + k) s s''"

subsection \<open>Cases of the steps\<close>

fun at_rest :: "phase \<Rightarrow> bool" where
  "at_rest (Active t) = False"
| "at_rest p = True"

text \<open>Every case of \<open>runGuest_step\<close> in one rule.\<close>

lemma runGuest_step_cases:
  assumes "runGuest_step strerror mv c w p = Some (c', p', w')"
  obtains (boot) a where "mv = Boot a" "p = Created" "c' = c" "w' = br_world (boot_machine strerror c a w)"
      "p' = Active (br_thread (boot_machine strerror c a w))"
  | (loop) e v n v' n' where "mv = Event e" "p = Active (Running v n)" "p' = Active (Running v' n')"
      "run_event strerror c v n w e = Looping c' v' n' w'"
  | (return) e v n ok released where "mv = Event e" "p = Active (Running v n)" "p' = Active (Returned ok released)"
      "run_event strerror c v n w e = Finished ok c' w' released"
  | (finish) ok released where "mv = Finish" "p = Active (Returned ok released)" "p' = Ended"
      "finish_guest ok c w = (c', w')"
  using assms
  by (cases "(strerror, mv, c, w, p)" rule: runGuest_step.cases)
    (auto simp: Let_def split: progress.splits prod.splits intro: that)

text \<open>The data of one pass of the loop: the context and the world it leaves.\<close>

fun result_of :: "progress \<Rightarrow> (GuestContext \<times> world) option" where
  "result_of Waiting = None"
| "result_of (Looping c v n w) = Some (c, w)"
| "result_of (Finished ok c w released) = Some (c, w)"

lemma boot_machine_shared: "w_shared (br_world (boot_machine strerror c a w)) = w_shared w"
  and boot_machine_not_good: "br_thread (boot_machine strerror c a w) \<noteq> Returned True released"
  by (auto simp: boot_machine_def Let_def boot_failed_def split: prod.splits if_splits)

lemma machine_moveD:
  assumes "machine_move strerror i mv s = Some s'"
  obtains c p w where "runGuest_step strerror mv (sy_contexts s ! i) (sy_world s) (sy_phases s ! i) = Some (c, p, w)"
    "s' = put i c p w s"
  using assms by (auto simp: machine_move_def split: option.splits)

lemma main_step_cases:
  assumes "main_step strerror x s = Some s'"
  obtains (create) i where "sy_main s = Creating i" "i < length (sy_contexts s)"
      "s' = s\<lparr>sy_phases := (sy_phases s)[i := Created], sy_started := Suc (sy_started s), sy_main := Creating (Suc i)\<rparr>"
  | (create_fails) i where "sy_main s = Creating i" "i < length (sy_contexts s)"
      "s' = (thread_error strerror ''create'' x s)\<lparr>sy_main := Joining 0\<rparr>"
  | (all_created) i where "sy_main s = Creating i" "\<not> i < length (sy_contexts s)" "s' = s\<lparr>sy_main := Joining 0\<rparr>"
  | (join) i where "sy_main s = Joining i" "i < sy_started s" "sy_phases s ! i = Ended"
      "s' = s\<lparr>sy_good := sy_good s \<and> completedSuccessfully (sy_contexts s ! i), sy_main := Joining (Suc i)\<rparr>"
  | (join_fails) i where "sy_main s = Joining i" "i < sy_started s"
      "s' = (thread_error strerror ''join'' x s)\<lparr>sy_main := Joining (Suc i)\<rparr>"
  | (leave) i where "sy_main s = Joining i" "\<not> i < sy_started s"
      "s' = s\<lparr>sy_main := Left (if sy_good s then EXIT_SUCCESS else EXIT_FAILURE)\<rparr>"
proof (cases "sy_main s")
  case (Creating i)
  then show ?thesis using assms that(1-3) [of i] by (simp add: main_step_def split: if_splits)
next
  case (Joining i)
  have "(if \<not> completedSuccessfully (sy_contexts s ! i) then False else sy_good s) \<longleftrightarrow>
      sy_good s \<and> completedSuccessfully (sy_contexts s ! i)" by simp
  then show ?thesis using assms Joining that(4-6) [of i]
    by (simp add: main_step_def split: if_splits cong: conj_cong)
qed (use assms in \<open>simp add: main_step_def\<close>)

lemma thread_error_fields [simp]:
  "sy_main (thread_error strerror what x s) = sy_main s" "sy_started (thread_error strerror what x s) = sy_started s"
  "sy_good (thread_error strerror what x s) = False" "sy_contexts (thread_error strerror what x s) = sy_contexts s"
  "sy_phases (thread_error strerror what x s) = sy_phases s"
  "w_host (sy_world (thread_error strerror what x s)) = w_host (sy_world s)"
  "sharedFiles (w_shared (sy_world (thread_error strerror what x s))) = sharedFiles (w_shared (sy_world s))"
  by (simp_all add: thread_error_def set_buffer_def Let_def)

lemma put_fields [simp]:
  "sy_main (put i c p w s) = sy_main s" "sy_started (put i c p w s) = sy_started s" "sy_good (put i c p w s) = sy_good s"
  "sy_contexts (put i c p w s) = (sy_contexts s)[i := c]" "sy_phases (put i c p w s) = (sy_phases s)[i := p]"
  "sy_world (put i c p w s) = w"
  by (simp_all add: put_def)

subsection \<open>Order of the main thread and the machines\<close>

definition success_at :: "system \<Rightarrow> nat \<Rightarrow> bool" where
  "success_at s j \<longleftrightarrow> sy_phases s ! j = Ended \<and> completedSuccessfully (sy_contexts s ! j)"

definition main_inv :: "system \<Rightarrow> bool" where
  "main_inv s \<longleftrightarrow> length (sy_phases s) = length (sy_contexts s) \<and> sy_started s \<le> length (sy_contexts s) \<and>
     (\<forall>j<length (sy_contexts s). sy_phases s ! j = Absent \<longleftrightarrow> sy_started s \<le> j) \<and>
     (case sy_main s of
        Creating i \<Rightarrow> i = sy_started s \<and> sy_good s
      | Joining i \<Rightarrow> i \<le> sy_started s \<and>
          (sy_good s \<longrightarrow> sy_started s = length (sy_contexts s) \<and> (\<forall>j<i. success_at s j))
      | Left x \<Rightarrow> x = EXIT_SUCCESS \<longrightarrow> sy_good s \<and> (\<forall>j<length (sy_contexts s). success_at s j))"

lemma main_inv_begin: "main_inv (main_begin fs program args h input)"
  by (auto simp: main_begin_def main_inv_def begun_def Let_def EXIT_SUCCESS_def EXIT_FAILURE_def
      split: CliStatus.splits prod.splits)

lemma main_inv_main:
  assumes "main_step strerror x s = Some s'" and inv: "main_inv s"
  shows "main_inv s'"
  using assms(1)
proof (cases rule: main_step_cases)
  case (create i)
  then show ?thesis using inv by (auto simp: main_inv_def nth_list_update)
next
  case (create_fails i)
  then show ?thesis using inv by (auto simp: main_inv_def)
next
  case (all_created i)
  then show ?thesis using inv by (auto simp: main_inv_def)
next
  case (join i)
  then show ?thesis using inv by (auto simp: main_inv_def success_at_def less_Suc_eq)
next
  case (join_fails i)
  then show ?thesis using inv by (auto simp: main_inv_def)
next
  case (leave i)
  then show ?thesis using inv by (auto simp: main_inv_def success_at_def EXIT_SUCCESS_def EXIT_FAILURE_def)
qed

lemma main_inv_machine:
  assumes "machine_move strerror i mv s = Some s'" and i: "i < length (sy_contexts s)" and inv: "main_inv s"
  shows "main_inv s'"
proof -
  obtain c p w where r: "runGuest_step strerror mv (sy_contexts s ! i) (sy_world s) (sy_phases s ! i) = Some (c, p, w)"
    and s': "s' = put i c p w s" using assms(1) by (rule machine_moveD)
  have "sy_phases s ! i \<noteq> Ended" "sy_phases s ! i \<noteq> Absent" "p \<noteq> Absent"
    using r by (auto elim: runGuest_step_cases)
  moreover from this have "success_at s j \<Longrightarrow> success_at s' j" for j
    by (cases "j = i") (simp_all add: success_at_def s')
  ultimately show ?thesis
    using inv i by (auto simp: main_inv_def s' nth_list_update split: main_pc.splits)
qed

lemma main_inv_step: "system_step strerror G k s s' \<Longrightarrow> main_inv s \<Longrightarrow> main_inv s'"
  by (auto elim!: system_stepE intro: main_inv_main main_inv_machine)

text \<open>Invariants that count the file accesses, for every run.\<close>

lemma system_run_inv:
  assumes "system_run strerror G n s s'" and "I 0 s"
    and "\<And>m k s s'. I m s \<Longrightarrow> system_step strerror G k s s' \<Longrightarrow> m + k \<le> n \<Longrightarrow> I (m + k) s'"
  shows "I n s'"
  using assms by (induction rule: system_run.induct) auto

lemma main_inv_run: "system_run strerror G n s s' \<Longrightarrow> main_inv s \<Longrightarrow> main_inv s'"
  by (rule system_run_inv [where I = "\<lambda>_. main_inv"]) (auto intro: main_inv_step)

lemma system_run_trans: "system_run strerror G n s' s'' \<Longrightarrow> system_run strerror G m s s' \<Longrightarrow> system_run strerror G (m + n) s s''"
  by (induction rule: system_run.induct) (auto simp: add.assoc [symmetric] intro: system_run.more)

lemma system_run_any: "system_run strerror G n s s' \<Longrightarrow> system_run strerror any_guest n s s'"
  by (induction rule: system_run.induct)
    (auto elim!: system_stepE intro: system_run.intros system_step.intros simp: any_guest_def)

subsection \<open>The start\<close>

lemma main_begin_created:
  assumes "sy_main (main_begin fs program args h input) = Creating 0"
  defines "s \<equiv> main_begin fs program args h input" and "cfg \<equiv> config (co_result (parseArguments program args))"
  shows "sy_contexts s = guest_contexts cfg" and "w_host (sy_world s) = h"
    and "sharedFiles (w_shared (sy_world s)) = shared_table fs (cfg_sharedFiles cfg)"
    and "buffer_state (w_shared (sy_world s)) = buffer_state (initial_shared cfg)"
    and "sy_phases s = map (\<lambda>_. Absent) (guest_contexts cfg)"
    and "status (co_result (parseArguments program args)) = Cli_Ok"
proof -
  obtain ss err where set_up: "configureSharedFiles fs cfg (initial_shared cfg) = (True, ss, err)"
    and eqs: "sy_contexts s = guest_contexts cfg" "w_host (sy_world s) = h" "w_shared (sy_world s) = ss"
      "sy_phases s = map (\<lambda>_. Absent) (guest_contexts cfg)" "status (co_result (parseArguments program args)) = Cli_Ok"
    using assms(1) unfolding s_def cfg_def
    by (auto simp: main_begin_def begun_def Let_def split: CliStatus.splits prod.splits if_splits)
  have "ss = (initial_shared cfg)\<lparr>sharedFiles := shared_table fs (cfg_sharedFiles cfg)\<rparr>"
    using set_up unfolding configureSharedFiles_def configure_loop_ok
    by (simp add: initial_shared_def initial_SharedState_def)
  then show "sy_contexts s = guest_contexts cfg" "w_host (sy_world s) = h"
    "sharedFiles (w_shared (sy_world s)) = shared_table fs (cfg_sharedFiles cfg)"
    "buffer_state (w_shared (sy_world s)) = buffer_state (initial_shared cfg)"
    "sy_phases s = map (\<lambda>_. Absent) (guest_contexts cfg)" "status (co_result (parseArguments program args)) = Cli_Ok"
    using eqs by simp_all
qed

lemma left_stays: "system_run strerror G n s s' \<Longrightarrow> sy_main s = Left x \<Longrightarrow> s' = s \<and> n = 0"
  by (induction rule: system_run.induct) (auto elim!: system_stepE simp: main_step_def)

lemma main_begin_cases: "sy_main (main_begin fs program args h input) = Creating 0 \<or>
    (\<exists>x. sy_main (main_begin fs program args h input) = Left x)"
  by (auto simp: main_begin_def begun_def Let_def split: CliStatus.splits prod.splits)

lemma main_begin_host: "w_host (sy_world (main_begin fs program args h input)) = h"
  by (auto simp: main_begin_def begun_def Let_def split: CliStatus.splits prod.splits)

subsection \<open>A small run\<close>

text \<open>Two guests and one shared file; the first machine is created and set up.\<close>

definition demo_config :: Config where
  "demo_config = \<lparr>cfg_memorySize = 2 * MiB, cfg_pageSize = 4 * KiB, guestImages = [''w.img'', ''r.img''],
     cfg_sharedFiles = [''/srv/a'']\<rparr>"

definition demo_arguments :: "string list" where
  "demo_arguments = command_line demo_config [(Page, True), (Guest, False), (Memory, False), (Files, True)]"

definition demo_paths :: path_answers where
  "demo_paths = \<lparr>canonical = Some, is_regular_file = (\<lambda>p. p = ''/srv/a'')\<rparr>"

definition demo_begin :: "host \<Rightarrow> system" where
  "demo_begin h = main_begin demo_paths ''vm'' demo_arguments h []"

lemma demo_parsed: "parseArguments ''vm'' demo_arguments = \<lparr>co_result = \<lparr>status = Cli_Ok, config = demo_config\<rparr>, co_out = [], co_err = []\<rparr>"
  unfolding demo_arguments_def
  by (rule parse_documented) (simp add: documented_def demo_config_def valid_values_def is_value_def)

lemma demo_file: "file_name ''/srv/a'' = ''a''" "isValidGuestFileName ''a''"
  by code_simp+

lemma demo_table: "shared_table demo_paths (cfg_sharedFiles demo_config) = [''a'' \<mapsto> ''/srv/a'']"
  by (simp add: shared_table_def demo_config_def demo_paths_def demo_file)

lemma demo_begin_main: "sy_main (demo_begin h) = Creating 0"
proof -
  have "configureSharedFiles demo_paths demo_config (initial_shared demo_config) =
      (True, (initial_shared demo_config)\<lparr>sharedFiles := shared_table demo_paths (cfg_sharedFiles demo_config)\<rparr>, [])"
    unfolding configureSharedFiles_def configure_loop_ok
    by (simp add: demo_config_def usable_file_def demo_paths_def demo_file initial_shared_def initial_SharedState_def)
  then show ?thesis by (simp add: demo_begin_def main_begin_def demo_parsed begun_def)
qed

lemma demo_begin_created:
  "sy_contexts (demo_begin h) = guest_contexts demo_config" "w_host (sy_world (demo_begin h)) = h"
  "sharedFiles (w_shared (sy_world (demo_begin h))) = [''a'' \<mapsto> ''/srv/a'']"
  "buffer_state (w_shared (sy_world (demo_begin h))) = buffer_state (initial_shared demo_config)"
  "sy_phases (demo_begin h) = [Absent, Absent]"
  using main_begin_created [OF demo_begin_main [unfolded demo_begin_def]] demo_table
  unfolding demo_begin_def demo_parsed by (simp_all add: guest_contexts_def demo_config_def upt_rec)

lemma demo_context: "guest_contexts demo_config ! 0 = guest_context demo_config 0" "length (guest_contexts demo_config) = 2"
  by (simp_all add: guest_contexts_def demo_config_def)

text \<open>Machine 0 is created, set up, and halts before the transfer; its thread ends.\<close>

lemma demo_run:
  obtains s1 s2 v where "system_run no_messages any_guest 0 (demo_begin h) s1" "sy_phases s1 = [Active (Running v 2), Absent]"
    "sy_contexts s1 = guest_contexts demo_config" "sy_main s1 = Creating 1"
    "system_run no_messages any_guest 0 s1 s2" "sy_phases s2 = [Ended, Absent]" "sy_main s2 = Creating 1"
proof -
  let ?c = "guest_context demo_config 0" and ?r = "boot_machine no_messages (guest_context demo_config 0) good_boot (sy_world (demo_begin h))"
  define s0 where "s0 = (demo_begin h)\<lparr>sy_phases := [Created, Absent], sy_started := Suc (sy_started (demo_begin h)), sy_main := Creating 1\<rparr>"
  have cs: "sy_contexts (demo_begin h) = guest_contexts demo_config" by (rule demo_begin_created)
  have "main_step no_messages 0 (demo_begin h) = Some s0"
    by (simp add: main_step_def demo_begin_main cs demo_context(2) demo_begin_created(5) s0_def)
  then have r0: "system_run no_messages any_guest 0 (demo_begin h) s0"
    using system_run.more [OF system_run.start system_step.main] by fastforce
  have "memorySize ?c = 2097152" by (simp add: guest_context_def demo_config_def MiB_def KiB_def)
  then obtain v where v: "br_thread ?r = Running v 2" using good_boot_runs(1) by blast
  define s1 where "s1 = put 0 ?c (Active (Running v 2)) (br_world ?r) s0"
  have "machine_move no_messages 0 (Boot good_boot) s0 = Some s1"
    by (simp add: machine_move_def s0_def cs demo_context(1) v s1_def Let_def)
  moreover have "0 < length (sy_contexts s0)" "\<nexists>x. sy_main s0 = Left x" by (simp_all add: s0_def cs demo_context(2))
  moreover have "any_guest s0 0 (Boot good_boot)" by (simp add: any_guest_def)
  ultimately have r1: "system_run no_messages any_guest 0 (demo_begin h) s1"
    using system_run.more [OF r0 system_step.machine] by fastforce
  have c1: "sy_contexts s1 = guest_contexts demo_config"
    using list_update_id [of "guest_contexts demo_config" 0] by (simp add: s1_def s0_def cs demo_context(1))
  have p1: "sy_phases s1 = [Active (Running v 2), Absent]" "sy_main s1 = Creating 1" by (simp_all add: s1_def s0_def)
  have "\<exists>w' rel. run_event no_messages ?c v 2 (sy_world s1) early_halt = Finished False ?c w' rel"
    by (simp add: run_event_def early_halt_def flush_def flushSerialOutput_def guest_context_def initial_GuestContext_def
        initial_SharedBufferVmState_def)
  then obtain w rel where h: "run_event no_messages ?c v 2 (sy_world s1) early_halt = Finished False ?c w rel" by blast
  define s2 where "s2 = put 0 ?c (Active (Returned False rel)) w s1"
  have "machine_move no_messages 0 (Event early_halt) s1 = Some s2"
    by (simp add: machine_move_def c1 p1 demo_context(1) h s2_def)
  moreover have "0 < length (sy_contexts s1)" "\<nexists>x. sy_main s1 = Left x" by (simp_all add: c1 p1 demo_context(2))
  moreover have "file_accesses (Event early_halt) = 0" by (simp add: early_halt_def)
  moreover have "any_guest s1 0 (Event early_halt)" by (simp add: any_guest_def)
  ultimately have r2: "system_run no_messages any_guest 0 s1 s2"
    using system_run.more [OF system_run.start system_step.machine] by fastforce
  obtain c3 w3 where f: "finish_guest False ?c w = (c3, w3)" by fastforce
  have c2: "sy_contexts s2 ! 0 = ?c" "0 < length (sy_contexts s2)" "\<nexists>x. sy_main s2 = Left x"
    by (simp_all add: s2_def c1 p1 demo_context)
  have "machine_move no_messages 0 Finish s2 = Some (put 0 c3 Ended w3 s2)"
    using c2 f by (simp add: machine_move_def s2_def p1)
  then have r3: "system_run no_messages any_guest 0 s1 (put 0 c3 Ended w3 s2)"
    using system_run.more [OF r2 system_step.machine] c2 any_guest_def by fastforce
  show thesis by (rule that [OF r1 p1(1) c1 p1(2) r3]) (simp_all add: s2_def p1)
qed

end
