(* ===== verification/Hypervisor_Files.thy ===== *)
theory Hypervisor_Files
  imports Hypervisor
begin

text \<open>
  The files of the whole process: every action of every thread is a step of the file service of
  \<open>File_Service\<close>, so its invariant, the safety of the shared originals and the account of the
  host's descriptors hold for every run of the process, up to its end.
\<close>

subsection \<open>What one action does to the files\<close>

definition file_effect :: "nat \<Rightarrow> GuestContext \<Rightarrow> host \<Rightarrow> GuestContext \<Rightarrow> host \<Rightarrow> bool" where
  "file_effect k c h c' h' \<longleftrightarrow> (\<forall>P. guest_step P c h c' h') \<and> numbering c c' \<and>
     (k = 0 \<longrightarrow> nextDescriptor (fileState c') = nextDescriptor (fileState c))"

text \<open>An action that does not touch the files at all.\<close>

definition no_file_effect :: "GuestContext \<Rightarrow> world \<Rightarrow> GuestContext \<Rightarrow> world \<Rightarrow> bool" where
  "no_file_effect c w c' w' \<longleftrightarrow> gid c' = gid c \<and> fileState c' = fileState c \<and> w_host w' = w_host w"

lemma no_file_effect_effect: "no_file_effect c w c' w' \<Longrightarrow> file_effect k c (w_host w) c' (w_host w')"
  by (auto simp: no_file_effect_def file_effect_def guest_step_def table_def numbering_same)

lemma flushSerialOutput_files:
  "flushSerialOutput c fin con = (c', con') \<Longrightarrow> gid c' = gid c \<and> fileState c' = fileState c"
  by (auto simp: flushSerialOutput_def Let_def split: if_splits)

lemma handleSerialIo_files:
  "handleSerialIo c v con = (ok, c', v', con') \<Longrightarrow> gid c' = gid c \<and> fileState c' = fileState c"
  by (auto simp: handleSerialIo_def Let_def split: if_splits io_direction.splits list.splits prod.splits
      dest: flushSerialOutput_files)

lemma handleSharedBufferIo_files:
  "handleSharedBufferIo c b v = Done (ok, c', b', v') \<Longrightarrow> gid c' = gid c \<and> fileState c' = fileState c"
  by (auto simp: handleSharedBufferIo_def Let_def split: if_splits option.splits outcome.splits prod.splits)

lemma port_device_files:
  assumes "port_device (c, w) v = Done (ok, (c', w'), v')"
  shows "numbered c \<Longrightarrow> file_effect (if io_port (io (run v)) = FILE_IO_PORT then 1 else 0) c (w_host w) c' (w_host w')"
    and "sharedFiles (w_shared w') = sharedFiles (w_shared w)"
proof -
  show "file_effect (if io_port (io (run v)) = FILE_IO_PORT then 1 else 0) c (w_host w) c' (w_host w')" if "numbered c"
  proof (cases "io_port (io (run v)) = FILE_IO_PORT")
    case True
    then obtain h' where h: "handleFileIo c (w_shared w) v (w_host w) = (ok, c', v', h')" "w_host w' = h'"
      using assms by (auto simp: port_device_def Let_def file_device_def split: prod.splits)
    show ?thesis using guest_step_handle [OF h(1) that] True h(2) by (simp add: file_effect_def)
  next
    case False
    have "no_file_effect c w c' w'"
      using assms False
      by (auto simp: port_device_def Let_def shared_buffer_device_def serial_device_def set_buffer_def no_file_effect_def
          split: if_splits prod.splits outcome.splits dest: handleSerialIo_files handleSharedBufferIo_files)
    then show ?thesis by (rule no_file_effect_effect)
  qed
  show "sharedFiles (w_shared w') = sharedFiles (w_shared w)"
    using assms
    by (auto simp: port_device_def Let_def file_device_def shared_buffer_device_def serial_device_def set_buffer_def
        split: if_splits prod.splits outcome.splits)
qed

lemma flush_files: "flush (c, w) = (c', w') \<Longrightarrow> no_file_effect c w c' w' \<and> w_shared w' = w_shared w"
  by (auto simp: flush_def no_file_effect_def split: prod.splits dest: flushSerialOutput_files)

lemma file_effect_flush:
  assumes "file_effect k c h c1 (w_host w1)" and "flush (c1, w1) = (c2, w2)"
  shows "file_effect k c h c2 (w_host w2)"
proof -
  have "no_file_effect c1 w1 c2 w2" using flush_files [OF assms(2)] by simp
  then have "fileState c2 = fileState c1" "gid c2 = gid c1" "w_host w2 = w_host w1"
    by (simp_all add: no_file_effect_def)
  then show ?thesis using assms(1)
    by (simp add: file_effect_def guest_step_def numbering_def table_def)
qed

lemma w_host_on_console [simp]: "w_host (on_console f w) = w_host w" "w_shared (on_console f w) = w_shared w"
  by simp_all

lemma run_event_files:
  assumes "result_of (run_event strerror c v n w e) = Some (c', w')" and "numbered c"
  shows "file_effect (file_accesses (Event e)) c (w_host w) c' (w_host w') \<and>
    sharedFiles (w_shared w') = sharedFiles (w_shared w)"
proof (cases e)
  case (Run_Failed eintr err)
  then have "no_file_effect c w c' w'" "w_shared w' = w_shared w"
    using assms(1) by (auto simp: run_event_def no_file_effect_def split: if_splits)
  then show ?thesis using no_file_effect_effect by simp
next
  case (Exited reason i d m answer)
  show ?thesis
  proof (cases "reason = KVM_EXIT_IO")
    case True
    let ?v = "exited v reason i d m"
    have p: "io_port (io (run ?v)) = io_port i" by (simp add: exited_def)
    obtain ok c1 w1 v1 where dev: "port_device (c, w) ?v = Done (ok, (c1, w1), v1)"
      and r: "ok \<and> c' = c1 \<and> w' = w1 \<or>
        (\<exists>c2 w2. flush (c1, w1) = (c2, w2) \<and> c' = c2 \<and> w' = on_console (printError c2 ''Failed to handle an I/O exit'') w2)"
      using assms(1) True Exited
      by (auto simp: run_event_def split: outcome.splits prod.splits if_splits)
    note f = port_device_files [OF dev]
    have "file_effect (file_accesses (Event e)) c (w_host w) c1 (w_host w1)"
      using f(1) [OF assms(2)] True Exited p by simp
    then show ?thesis using r f(2) file_effect_flush flush_files by (auto 0 3)
  next
    case False
    then have "no_file_effect c w c' w' \<and> w_shared w' = w_shared w"
      using assms(1) Exited
      by (auto simp: run_event_def Let_def no_file_effect_def
          split: exit_reason.splits prod.splits if_splits dest: flush_files)
    then show ?thesis using no_file_effect_effect by simp
  qed
qed

lemma file_effect_numbered:
  assumes "file_effect k c h c' h'" and "numbered c" and "k = 0 \<or> 0 < opens_left c"
  shows "numbered c'" and "opens_left c - int k \<le> opens_left c'"
proof -
  have "numbered c' \<and> opens_left c - int k \<le> opens_left c'"
  proof (cases "k = 0")
    case True
    then show ?thesis using assms(1,2)
        by (fastforce simp: file_effect_def numbering_def numbered_def opens_left_def)
  next
    case False
    then show ?thesis using assms numbering_numbered [of c c'] by (auto simp: file_effect_def)
  qed
  then show "numbered c'" "opens_left c - int k \<le> opens_left c'" by auto
qed

lemma finish_guest_files:
  assumes "finish_guest ok c w = (c', w')"
  shows "file_effect k c (w_host w) c' (w_host w')" and "table c' = []"
    and "sharedFiles (w_shared w') = sharedFiles (w_shared w)"
proof -
  let ?c = "c\<lparr>completedSuccessfully := ok\<rparr>"
  obtain h where cl: "closeGuestFiles ?c (w_host w) = (c', h)" and w': "w_host w' = h"
    "sharedFiles (w_shared w') = sharedFiles (w_shared w)"
    using assms by (auto simp: finish_guest_def Let_def set_buffer_def split: prod.splits if_splits)
  have "guest_step P c (w_host w) ?c (w_host w)" for P by (simp add: guest_step_def table_def)
  then have "guest_step P c (w_host w) c' h" for P
    using guest_step_trans guest_step_closeGuestFiles(1) [OF cl] by blast
  moreover have "numbering c c'" "nextDescriptor (fileState c') = nextDescriptor (fileState c)"
    using cl by (auto simp: closeGuestFiles_def numbering_def table_def set_openFiles_def)
  ultimately show "file_effect k c (w_host w) c' (w_host w')" using w' by (simp add: file_effect_def)
  show "table c' = []" by (rule guest_step_closeGuestFiles(2) [OF cl])
  show "sharedFiles (w_shared w') = sharedFiles (w_shared w)" by (rule w')
qed

lemma boot_machine_files: "no_file_effect c w c (br_world (boot_machine strerror c a w))"
  by (auto simp: boot_machine_def Let_def boot_failed_def no_file_effect_def split: prod.splits if_splits)

lemma runGuest_step_files:
  assumes "runGuest_step strerror mv c w p = Some (c', p', w')" and "numbered c"
  shows "file_effect (file_accesses mv) c (w_host w) c' (w_host w')"
    and "at_rest p' \<Longrightarrow> table c' = []" and "sharedFiles (w_shared w') = sharedFiles (w_shared w)"
proof -
  have "file_effect (file_accesses mv) c (w_host w) c' (w_host w') \<and> (at_rest p' \<longrightarrow> table c' = []) \<and>
      sharedFiles (w_shared w') = sharedFiles (w_shared w)"
    using assms(1)
  proof (cases rule: runGuest_step_cases)
    case (boot a)
    then show ?thesis using no_file_effect_effect [OF boot_machine_files] by (simp add: boot_machine_shared)
  next
    case (loop e v n v' n')
    then show ?thesis using run_event_files [of strerror c v n w e c' w'] assms(2) by simp
  next
    case (return e v n ok released)
    then show ?thesis using run_event_files [of strerror c v n w e c' w'] assms(2) by simp
  next
    case (finish ok released)
    then show ?thesis using finish_guest_files [OF finish(4)] by simp
  qed
  then show "file_effect (file_accesses mv) c (w_host w) c' (w_host w')"
    "at_rest p' \<Longrightarrow> table c' = []" "sharedFiles (w_shared w') = sharedFiles (w_shared w)" by auto
qed

subsection \<open>The invariant of the process\<close>

definition files_inv :: "nat set \<Rightarrow> (string \<rightharpoonup> string) \<Rightarrow> GuestContext list \<Rightarrow> host \<Rightarrow> nat \<Rightarrow> system \<Rightarrow> bool" where
  "files_inv S tab cs0 h0 n s \<longleftrightarrow>
     (let cs = sy_contexts s; h = w_host (sy_world s) in
      service_inv S (cs, h) \<and> map gid cs = map gid cs0 \<and> length (sy_phases s) = length cs \<and>
      sharedFiles (w_shared (sy_world s)) = tab \<and>
      (\<forall>c\<in>set cs. 2 ^ 31 - 4 - int n \<le> opens_left c) \<and>
      (\<forall>i<length cs. at_rest (sy_phases s ! i) \<longrightarrow> table (cs ! i) = []) \<and>
      accounted {} h0 (all_fds cs) h \<and> (\<forall>k\<in>S. h_data h k = h_data h0 k) \<and>
      (\<forall>p. p \<notin> (\<Union>c\<in>set cs0. own_names (gid c)) \<longrightarrow> h_names h p = h_names h0 p))"

lemma main_step_files:
  assumes "main_step strerror x s = Some s'"
  shows "sy_contexts s' = sy_contexts s" and "w_host (sy_world s') = w_host (sy_world s)"
    and "sharedFiles (w_shared (sy_world s')) = sharedFiles (w_shared (sy_world s))"
  using assms by (cases rule: main_step_cases; simp)+

lemma files_inv_main:
  assumes "main_step strerror x s = Some s'" and "main_inv s" and "files_inv S tab cs0 h0 n s"
  shows "files_inv S tab cs0 h0 n s'"
  using assms(1)
proof (cases rule: main_step_cases)
  case (create i)
  then have "sy_phases s ! i = Absent" using assms(2) by (simp add: main_inv_def)
  then have "at_rest ((sy_phases s)[i := Created] ! j) \<Longrightarrow> at_rest (sy_phases s ! j)" for j
    by (cases "j = i") simp_all
  then show ?thesis using assms(3) create by (simp add: files_inv_def Let_def)
qed (use assms(3) in \<open>simp_all add: files_inv_def Let_def\<close>)

lemma file_accesses_le: "file_accesses mv \<le> 1"
  by (cases mv rule: file_accesses.cases) simp_all

lemma files_inv_machine:
  assumes move: "machine_move strerror i mv s = Some s'" and i: "i < length (sy_contexts s)"
    and inv: "files_inv S tab cs0 h0 n s" and bound: "n + file_accesses mv \<le> 2 ^ 31 - 4"
  shows "files_inv S tab cs0 h0 (n + file_accesses mv) s'"
proof -
  let ?cs = "sy_contexts s" and ?h = "w_host (sy_world s)" and ?k = "file_accesses mv"
  obtain c p w where r: "runGuest_step strerror mv (?cs ! i) (sy_world s) (sy_phases s ! i) = Some (c, p, w)"
    and s': "s' = put i c p w s" using move by (rule machine_moveD)
  have inv1: "service_inv S (?cs, ?h)" "map gid ?cs = map gid cs0" "length (sy_phases s) = length ?cs"
    "sharedFiles (w_shared (sy_world s)) = tab" "\<forall>c\<in>set ?cs. 2 ^ 31 - 4 - int n \<le> opens_left c"
    "\<forall>j<length ?cs. at_rest (sy_phases s ! j) \<longrightarrow> table (?cs ! j) = []" "accounted {} h0 (all_fds ?cs) ?h"
    "\<forall>k\<in>S. h_data ?h k = h_data h0 k"
    "\<forall>p. p \<notin> (\<Union>c\<in>set cs0. own_names (gid c)) \<longrightarrow> h_names ?h p = h_names h0 p"
    using inv by (simp_all add: files_inv_def Let_def)
  have num: "numbered (?cs ! i)" using inv1(1) i by (simp add: service_inv_def)
  have left: "2 ^ 31 - 4 - int n \<le> opens_left (?cs ! i)" using inv1(5) i by simp
  note f = runGuest_step_files [OF r num]
  have "?k = 0 \<or> 0 < opens_left (?cs ! i)" 
  proof (cases "?k = 0")
    case False
    then have "int n < 2147483644" using bound by simp
    then show ?thesis using left by simp
  qed simp
  note num' = file_effect_numbered [OF f(1) num this]
  have step: "guest_step (protected S ?cs ?h i) (?cs ! i) ?h c (w_host w)" using f(1) by (simp add: file_effect_def)
  note sv = service_step [OF inv1(1) i step num'(1)] and ac = service_step_accounted [OF inv1(1) i step]
  have "\<forall>d\<in>set (?cs[i := c]). 2 ^ 31 - 4 - int (n + ?k) \<le> opens_left d"
  proof
    fix d assume "d \<in> set (?cs[i := c])"
    then have "d = c \<or> d \<in> set ?cs" using set_update_subset_insert by fastforce
    then show "2 ^ 31 - 4 - int (n + ?k) \<le> opens_left d" using inv1(5) left num'(2) by auto
  qed
  moreover have "\<forall>j<length ?cs. at_rest ((sy_phases s)[i := p] ! j) \<longrightarrow> table (?cs[i := c] ! j) = []"
  proof (intro allI impI)
    fix j assume "j < length ?cs" "at_rest ((sy_phases s)[i := p] ! j)"
    then show "table (?cs[i := c] ! j) = []" using inv1(3,6) f(2) i by (cases "j = i") simp_all
  qed
  moreover have "accounted {} h0 (all_fds (?cs[i := c])) (w_host w)" by (rule accounted_trans [OF inv1(7) ac(1)])
  moreover have "h_names (w_host w) q = h_names h0 q" if "q \<notin> (\<Union>c\<in>set cs0. own_names (gid c))" for q
    using that inv1(9) ac(3) [of q] own_names_map_gid [OF inv1(2)] by simp
  ultimately show ?thesis
    using sv(1,3) ac(2) inv1 f(3) by (simp add: files_inv_def Let_def s')
qed

lemma files_inv_run:
  assumes "system_run strerror G n s s'" and "n \<le> 2 ^ 31 - 4" and "main_inv s" and "files_inv S tab cs0 h0 0 s"
  shows "files_inv S tab cs0 h0 n s'"
proof -
  have "files_inv S tab cs0 h0 n s' \<and> main_inv s'"
    by (rule system_run_inv [OF assms(1)])
      (use assms(2-4) in \<open>auto elim!: system_stepE intro: files_inv_main files_inv_machine main_inv_main main_inv_machine\<close>)
  then show ?thesis by simp
qed

text \<open>
  The host the process starts on: its tables are consistent, and no file in a machine's own
  directory is one of the shared files or is linked from outside the directory.
\<close>

definition host_prepared :: "path_answers \<Rightarrow> Config \<Rightarrow> host \<Rightarrow> bool" where
  "host_prepared fs cfg h \<longleftrightarrow> host_ok h \<and>
     (\<forall>k<length (guestImages cfg). \<forall>n i. h_names h (local_path k n) = Some i \<longrightarrow>
        (\<forall>p. h_names h p = Some i \<longrightarrow> p \<in> own_names k \<and> p \<notin> ran (shared_table fs (cfg_sharedFiles cfg))))"

definition original_inodes :: "(string \<rightharpoonup> string) \<Rightarrow> host \<Rightarrow> nat set" where
  "original_inodes tab h = {i. \<exists>p\<in>ran tab. h_names h p = Some i}"

lemma booted_begin:
  assumes "host_prepared fs cfg h"
  shows "booted (original_inodes (shared_table fs (cfg_sharedFiles cfg)) h) (guest_contexts cfg, h)"
proof -
  have "host_ok h" using assms by (simp add: host_prepared_def)
  moreover have "c \<in> set (guest_contexts cfg) \<Longrightarrow> gid c < length (guestImages cfg) \<and> fileState c = initial_FileState" for c
    by (auto simp: guest_contexts_def guest_context_def initial_GuestContext_def)
  moreover have "i < h_next h" if "i \<in> original_inodes tab h" for tab i
    using that \<open>host_ok h\<close> by (auto simp: original_inodes_def host_ok_def)
  ultimately show ?thesis
    using assms by (fastforce simp: booted_def gid_guest_contexts host_prepared_def original_inodes_def)
qed

lemma files_inv_begin:
  assumes "sy_main (main_begin fs program args h input) = Creating 0"
    and "host_prepared fs (config (co_result (parseArguments program args))) h"
  defines "s \<equiv> main_begin fs program args h input"
  defines "tab \<equiv> sharedFiles (w_shared (sy_world s))"
  shows "files_inv (original_inodes tab h) tab (sy_contexts s) h 0 s"
    and "p \<in> ran tab \<Longrightarrow> h_names h p \<noteq> None \<Longrightarrow> p \<notin> (\<Union>c\<in>set (sy_contexts s). own_names (gid c))"
proof -
  let ?cfg = "config (co_result (parseArguments program args))"
  note s = main_begin_created [OF assms(1), folded s_def]
  have tab: "tab = shared_table fs (cfg_sharedFiles ?cfg)" using s(3) by (simp add: tab_def)
  note b = booted_begin [OF assms(2)]
  show "files_inv (original_inodes tab h) tab (sy_contexts s) h 0 s"
    using service_inv_booted [OF b] b
    by (auto simp: files_inv_def Let_def s tab all_fds_def accounted_def table_def booted_def initial_FileState_def)
  show "p \<notin> (\<Union>c\<in>set (sy_contexts s). own_names (gid c))" if "p \<in> ran tab" "h_names h p \<noteq> None"
  proof -
    have "gid c < length (guestImages ?cfg)" if "c \<in> set (guest_contexts ?cfg)" for c
      using that by (auto simp: guest_contexts_def guest_context_def)
    then show ?thesis
      using assms(2) that unfolding s tab host_prepared_def own_names_def by fastforce
  qed
qed

subsection \<open>The small run\<close>

lemma demo_prepared: "host_prepared demo_paths (config (co_result (parseArguments ''vm'' demo_arguments))) shared_disk"
proof -
  have "''/srv/a'' \<noteq> local_path k n \<and> local_path k n \<noteq> ''/srv/a''" for k n by (simp add: local_path_def)
  moreover have "inode_of shared_disk d = None" for d by (simp add: inode_of_def fd_lookup_def shared_disk_def)
  ultimately show ?thesis
    by (auto simp: demo_parsed host_prepared_def demo_table host_ok_def shared_disk_def local_path_inj split: if_splits)
qed

text \<open>Machine 0 asks the host to open the shared file.\<close>

definition open_request :: kvm_event where
  "open_request = Exited KVM_EXIT_IO (io (run open_exit)) (run_data (run open_exit)) (mem open_exit) 0"

lemma demo_access: "\<exists>s. system_run no_messages any_guest 1 (demo_begin h) s"
proof -
  obtain s1 s2 v where s1: "system_run no_messages any_guest 0 (demo_begin h) s1" "sy_phases s1 = [Active (Running v 2), Absent]"
      "sy_contexts s1 = guest_contexts demo_config" "sy_main s1 = Creating 1" by (rule demo_run)
  let ?c = "guest_context demo_config 0"
  let ?v = "exited v KVM_EXIT_IO (io (run open_exit)) (run_data (run open_exit)) (mem open_exit)"
  have "port_device (?c, sy_world s1) ?v = file_device (?c, sy_world s1) ?v"
    by (simp add: port_device_def exited_def open_exit_def)
  then obtain ok c w v' where "port_device (?c, sy_world s1) ?v = Done (ok, (c, w), v')"
    by (cases "handleFileIo ?c (w_shared (sy_world s1)) ?v (w_host (sy_world s1))") (simp add: file_device_def)
  then have "result_of (run_event no_messages ?c v 2 (sy_world s1) open_request) \<noteq> None"
    by (simp add: run_event_def open_request_def split: prod.splits)
  then obtain c' p' w' where "runGuest_step no_messages (Event open_request) ?c (sy_world s1) (Active (Running v 2)) = Some (c', p', w')"
    by (cases "run_event no_messages ?c v 2 (sy_world s1) open_request") auto
  then have "machine_move no_messages 0 (Event open_request) s1 = Some (put 0 c' p' w' s1)"
    by (simp add: machine_move_def s1(2,3) demo_context(1))
  moreover have "0 < length (sy_contexts s1)" "\<nexists>x. sy_main s1 = Left x" by (simp_all add: s1 demo_context(2))
  moreover have "file_accesses (Event open_request) = 1" by (simp add: open_request_def open_exit_def)
  moreover have "any_guest s1 0 (Event open_request)" by (simp add: any_guest_def)
  ultimately have "system_run no_messages any_guest 1 (demo_begin h) (put 0 c' p' w' s1)"
    using system_run.more [OF s1(1) system_step.machine] by fastforce
  then show ?thesis by blast
qed

subsection \<open>Properties\<close>

text \<open>
  C6. The shared files survive the whole process: from the command line to the exit, with any
  guests, any interleaving of the threads and any failing host calls (and at most 2^31 - 4
  accesses to the file port), every shared file keeps its name and its content.
\<close>

theorem process_keeps_originals:
  assumes "system_run strerror any_guest n (main_begin fs program args h input) s" and "n \<le> 2 ^ 31 - 4"
    and "host_prepared fs (config (co_result (parseArguments program args))) h"
    and "p \<in> ran (sharedFiles (w_shared (sy_world (main_begin fs program args h input))))" and "h_names h p = Some i"
  shows "h_names (w_host (sy_world s)) p = Some i \<and> h_data (w_host (sy_world s)) i = h_data h i"
proof (cases "sy_main (main_begin fs program args h input) = Creating 0")
  case True
  let ?s0 = "main_begin fs program args h input"
  note inv = files_inv_run [OF assms(1,2) main_inv_begin files_inv_begin(1) [OF True assms(3)]]
  have "i \<in> original_inodes (sharedFiles (w_shared (sy_world ?s0))) h"
    using assms(4,5) by (auto simp: original_inodes_def)
  moreover have "p \<notin> (\<Union>c\<in>set (sy_contexts ?s0). own_names (gid c))"
    using files_inv_begin(2) [OF True assms(3,4)] assms(5) by simp
  ultimately show ?thesis using inv assms(5) by (simp add: files_inv_def Let_def)
next
  case False
  then obtain x where "sy_main (main_begin fs program args h input) = Left x" using main_begin_cases by metis
  then have "s = main_begin fs program args h input" using left_stays [OF assms(1)] by simp
  then show ?thesis using assms(5) by (simp add: main_begin_host)
qed

theorem process_keeps_originals_witness:
  "\<exists>s. system_run no_messages any_guest 1 (main_begin demo_paths ''vm'' demo_arguments shared_disk []) s \<and>
     h_data (w_host (sy_world s)) 0 = [1, 2, 3]"
proof -
  obtain s where s: "system_run no_messages any_guest 1 (main_begin demo_paths ''vm'' demo_arguments shared_disk []) s"
    using demo_access by (auto simp: demo_begin_def)
  have "''/srv/a'' \<in> ran (sharedFiles (w_shared (sy_world (main_begin demo_paths ''vm'' demo_arguments shared_disk []))))"
    using demo_begin_created(3) by (simp add: demo_begin_def)
  moreover have "h_names shared_disk ''/srv/a'' = Some 0" "h_data shared_disk 0 = [1, 2, 3]"
    by (simp_all add: shared_disk_def local_path_def)
  ultimately show ?thesis using process_keeps_originals [OF s _ demo_prepared] s by fastforce
qed

text \<open>
  C19. Nothing stays open: whenever no machine is active, in particular after every machine has
  ended, the descriptor table of the process is the one it started with.
\<close>

theorem process_closes_descriptors:
  assumes "system_run strerror any_guest n (main_begin fs program args h input) s" and "n \<le> 2 ^ 31 - 4"
    and "host_prepared fs (config (co_result (parseArguments program args))) h"
    and "list_all at_rest (sy_phases s)"
  shows "fd_lookup (w_host (sy_world s)) d = fd_lookup h d"
proof (cases "sy_main (main_begin fs program args h input) = Creating 0")
  case True
  note inv = files_inv_run [OF assms(1,2) main_inv_begin files_inv_begin(1) [OF True assms(3)]]
  then have "\<forall>i<length (sy_contexts s). table (sy_contexts s ! i) = []"
    using assms(4) by (simp add: files_inv_def Let_def list_all_length)
  then have "all_fds (sy_contexts s) = {}" by (auto simp: all_fds_def fds_def owners_def in_set_conv_nth)
  then show ?thesis using inv by (simp add: files_inv_def Let_def accounted_def)
next
  case False
  then obtain x where "sy_main (main_begin fs program args h input) = Left x" using main_begin_cases by metis
  then have "s = main_begin fs program args h input" using left_stays [OF assms(1)] by simp
  then show ?thesis by (simp add: main_begin_host)
qed

theorem process_closes_descriptors_witness:
  "\<exists>s. system_run no_messages any_guest 0 (main_begin demo_paths ''vm'' demo_arguments shared_disk []) s \<and>
     sy_phases s = [Ended, Absent] \<and> fd_lookup (w_host (sy_world s)) 3 = None"
proof -
  obtain s1 s2 where s: "system_run no_messages any_guest 0 (demo_begin shared_disk) s1" "system_run no_messages any_guest 0 s1 s2" "sy_phases s2 = [Ended, Absent]"
    by (rule demo_run)
  then have r: "system_run no_messages any_guest 0 (main_begin demo_paths ''vm'' demo_arguments shared_disk []) s2"
    using system_run_trans by (fastforce simp: demo_begin_def)
  have "fd_lookup shared_disk 3 = None" by (simp add: fd_lookup_def shared_disk_def)
  then show ?thesis using process_closes_descriptors [OF r _ demo_prepared] r s(3) by auto
qed

end
