(* ===== verification/File_Spec.thy ===== *)
theory File_Spec
  imports File_Io
begin

text \<open>
  What the file service promises one machine, without the host: an ordinary file system of its
  own. A file has a name and bytes; an open file has a name, flags and an offset. There are no
  shared files, host descriptors, directories, inodes or copies here: that the service
  implements this system over one host that all machines share is shown in \<open>File_Views\<close>.
\<close>

subsection \<open>A machine's file system\<close>

record spec_file =
  sf_name :: string
  sf_flags :: i32
  sf_offset :: nat

record file_system =
  fs_files :: "string \<rightharpoonup> u8 list"
  fs_open :: "i32 \<rightharpoonup> spec_file"
  fs_next :: i32
  fs_pending :: "i32 list"

definition content :: "file_system \<Rightarrow> spec_file \<Rightarrow> u8 list" where
  "content V f = (case fs_files V (sf_name f) of Some bs \<Rightarrow> bs | None \<Rightarrow> [])"

definition move_to :: "i32 \<Rightarrow> spec_file \<Rightarrow> nat \<Rightarrow> file_system \<Rightarrow> file_system" where
  "move_to k f off V = V\<lparr>fs_open := (fs_open V)(k \<mapsto> f\<lparr>sf_offset := off\<rparr>)\<rparr>"

subsection \<open>Its operations\<close>

definition spec_open :: "file_system \<Rightarrow> string \<Rightarrow> i32 \<Rightarrow> int \<times> file_system" where
  "spec_open V n fl =
     (if fs_files V n = None \<and> fl AND FILE_OPEN_CREATE = 0 then (-1, V)
      else (sint (fs_next V),
        V\<lparr>fs_files := (fs_files V)(n := Some (case fs_files V n of None \<Rightarrow> [] | Some bs \<Rightarrow> bs)),
          fs_open := (fs_open V)(fs_next V \<mapsto> \<lparr>sf_name = n, sf_flags = fl, sf_offset = 0\<rparr>), fs_next := fs_next V + 1\<rparr>))"

definition spec_close :: "file_system \<Rightarrow> i32 \<Rightarrow> int \<times> file_system" where
  "spec_close V k = (case fs_open V k of None \<Rightarrow> (-1, V) | Some f \<Rightarrow> (0, V\<lparr>fs_open := (fs_open V)(k := None)\<rparr>))"

text \<open>The bytes a read of \<open>n\<close> delivers.\<close>

definition spec_read :: "file_system \<Rightarrow> i32 \<Rightarrow> spec_file \<Rightarrow> nat \<Rightarrow> u8 list \<times> file_system" where
  "spec_read V k f n =
     (let bs = take n (drop (sf_offset f) (content V f)) in (bs, move_to k f (sf_offset f + length bs) V))"

definition spec_write :: "file_system \<Rightarrow> i32 \<Rightarrow> spec_file \<Rightarrow> u8 list \<Rightarrow> file_system" where
  "spec_write V k f bs =
     move_to k f (sf_offset f + length bs)
       (V\<lparr>fs_files := (fs_files V)(sf_name f \<mapsto> patch (content V f) (sf_offset f) bs)\<rparr>)"

definition spec_seek :: "file_system \<Rightarrow> file_request \<Rightarrow> int \<times> file_system" where
  "spec_seek V r =
     (case fs_open V (req_descriptor r) of None \<Rightarrow> (-1, V) | Some f \<Rightarrow>
      let target = (if req_flags r = FILE_SEEK_SET then Some (sint (req_offset r))
                    else if req_flags r = FILE_SEEK_END then Some (int (length (content V f))) else None)
      in case target of None \<Rightarrow> (-1, V) | Some off \<Rightarrow>
      if off < 0 then (-1, V)
      else (if off > 2 ^ 31 - 1 then -1 else off, move_to (req_descriptor r) f (nat off) V))"

subsection \<open>Requests\<close>

definition spec_transfer :: "file_system \<Rightarrow> vm \<Rightarrow> file_request \<Rightarrow> int \<times> file_system \<times> vm" where
  "spec_transfer V v r =
     (case fs_open V (req_descriptor r) of None \<Rightarrow> (-1, V, v) | Some f \<Rightarrow>
      let reading = (req_operation r = FILE_OPERATION_READ); n = nat (sint (req_count r)) in
      if \<not> (if reading then hasReadAccess (sf_flags f) else hasWriteAccess (sf_flags f)) \<or> sint (req_count r) < 0 then (-1, V, v) else
      if sint (req_count r) = 0 then (0, V, v) else
      case getGuestMemory v (req_buffer r) n of None \<Rightarrow> (-1, V, v) | Some a \<Rightarrow>
      if reading then let (bs, V) = spec_read V (req_descriptor r) f n in (int (length bs), V, v\<lparr>mem := store_bytes (mem v) a bs\<rparr>)
      else (int n, spec_write V (req_descriptor r) f (load_bytes (mem v) a n), v))"

definition spec_request :: "file_system \<Rightarrow> vm \<Rightarrow> file_request \<Rightarrow> int \<times> file_system \<times> vm" where
  "spec_request V v r =
     (if req_operation r = FILE_OPERATION_OPEN then
        (if \<not> areValidOpenFlags (req_flags r) then (-1, V, v) else
         case readGuestFileName v (req_buffer r) of None \<Rightarrow> (-1, V, v)
         | Some n \<Rightarrow> let (x, V) = spec_open V n (req_flags r) in (x, V, v))
      else if req_operation r = FILE_OPERATION_CLOSE then let (x, V) = spec_close V (req_descriptor r) in (x, V, v)
      else if req_operation r = FILE_OPERATION_READ \<or> req_operation r = FILE_OPERATION_WRITE then spec_transfer V v r
      else if req_operation r = FILE_OPERATION_LSEEK then let (x, V) = spec_seek V r in (x, V, v)
      else (-1, V, v))"

text \<open>An exit on the file port: an OUT submits a request, an IN fetches the last answer.\<close>

definition spec_access :: "vm \<Rightarrow> file_system \<Rightarrow> (bool \<times> vm) \<times> file_system" where
  "spec_access v V =
     (let i = io (run v); data = unat (io_data_offset i) in
      if io_port i \<noteq> FILE_IO_PORT \<or> io_size i \<noteq> 4 \<or> io_count i \<noteq> 1 \<or> \<not> data_in_mapping v 4 then ((False, v), V) else
      case io_direction i of
        KVM_EXIT_IO_OUT \<Rightarrow>
          let (x, V, v) =
            (case getGuestMemory v (load32 (run_data (run v)) data) file_request_size of None \<Rightarrow> (-1, V, v)
             | Some a \<Rightarrow> spec_request V v (decode_request (mem v) a))
          in ((True, v), V\<lparr>fs_pending := fs_pending V @ [word_of_int x]\<rparr>)
      | KVM_EXIT_IO_IN \<Rightarrow>
          let x = (if fs_pending V = [] then -1 else last (fs_pending V))
          in ((True, set_run_data v (store32 (run_data (run v)) data x)), V\<lparr>fs_pending := butlast (fs_pending V)\<rparr>)
      | Direction_Other \<Rightarrow> ((False, v), V))"

end
