(* ===== verification/File_Views.thy ===== *)
theory File_Views
  imports File_Open File_Service File_Spec
begin

text \<open>
  The file service implements \<open>File_Spec\<close>: when the host's calls do not fail, every machine sees
  a file system of its own, in which each shared file is there from the start. Which host file
  a name stands for, when a private copy is made and what the other machines do is invisible.
\<close>

subsection \<open>What a machine sees\<close>

definition view_entry :: "host \<Rightarrow> OpenFile \<Rightarrow> spec_file" where
  "view_entry h f = \<lparr>sf_name = name f, sf_flags = flags f, sf_offset = oh_offset (the (fd_lookup h (hostDescriptor f)))\<rparr>"

text \<open>A name stands for the machine's own file, else for the shared one.\<close>

definition seen_file :: "GuestContext \<Rightarrow> SharedState \<Rightarrow> host \<Rightarrow> string \<Rightarrow> u8 list option" where
  "seen_file c ss h n = (case h_names h (local_path (gid c) n) of Some i \<Rightarrow> Some (h_data h i)
     | None \<Rightarrow> (case sharedFiles ss n of None \<Rightarrow> None | Some p \<Rightarrow> map_option (h_data h) (h_names h p)))"

definition file_view :: "GuestContext \<Rightarrow> SharedState \<Rightarrow> host \<Rightarrow> file_system" where
  "file_view c ss h = \<lparr>fs_files = seen_file c ss h, fs_open = (\<lambda>k. map_option (view_entry h) (map_of (table c) k)),
     fs_next = nextDescriptor (fileState c), fs_pending = pendingResults (fileState c)\<rparr>"

text \<open>
  The host as the machine with the id \<open>k\<close> needs it: nothing in the way of its directory, its
  files writable and under one name each, and the shared files elsewhere.
\<close>

definition host_view :: "nat \<Rightarrow> SharedState \<Rightarrow> host \<Rightarrow> bool" where
  "host_view k ss h \<longleftrightarrow> h_names h (vm_directory k) = None \<and> h_names h ''vm_files'' = None \<and>
     (\<forall>n. \<not> h_dirs h (local_path k n)) \<and>
     (\<forall>n i. h_names h (local_path k n) = Some i \<longrightarrow> h_owner_write h i \<and> (\<forall>p. h_names h p = Some i \<longrightarrow> p = local_path k n)) \<and>
     (\<forall>n p. sharedFiles ss n = Some p \<longrightarrow> h_names h p \<noteq> None \<and> p \<notin> own_names k)"

definition entry_view :: "GuestContext \<Rightarrow> SharedState \<Rightarrow> host \<Rightarrow> OpenFile \<Rightarrow> bool" where
  "entry_view c ss h f \<longleftrightarrow> areValidOpenFlags (flags f) \<and> isValidGuestFileName (name f) \<and>
     (\<exists>g. fd_lookup h (hostDescriptor f) = Some g \<and>
        (if shared f then sharedFiles ss (name f) = Some (hostPath f) \<and> h_names h (local_path (gid c) (name f)) = None \<and>
           h_names h (hostPath f) = Some (oh_inode g) \<and> oh_access g = O_RDONLY
         else h_names h (local_path (gid c) (name f)) = Some (oh_inode g) \<and> oh_access g = hf_access (toHostOpenFlags (flags f))))"

definition view_inv :: "GuestContext \<Rightarrow> SharedState \<Rightarrow> host \<Rightarrow> bool" where
  "view_inv c ss h \<longleftrightarrow> h_faults h = [] \<and> guest_inv {} c h \<and> numbered c \<and> host_view (gid c) ss h \<and>
     (\<forall>(k, f)\<in>set (table c). entry_view c ss h f)"

lemma host_view_shared:
  assumes "host_view k ss h" and "sharedFiles ss n = Some p"
  shows "\<exists>i. h_names h p = Some i" and "p \<noteq> local_path k m"
  using assms local_path_own [of k m] unfolding host_view_def by (blast, metis)

lemma view_entry_fields [simp]:
  "sf_name (view_entry h f) = name f" "sf_flags (view_entry h f) = flags f"
  "sf_offset (view_entry h f) = oh_offset (the (fd_lookup h (hostDescriptor f)))"
  by (simp_all add: view_entry_def)

lemma file_view_fields [simp]:
  "fs_files (file_view c ss h) = seen_file c ss h" "fs_open (file_view c ss h) k = map_option (view_entry h) (map_of (table c) k)"
  "fs_next (file_view c ss h) = nextDescriptor (fileState c)" "fs_pending (file_view c ss h) = pendingResults (fileState c)"
  by (simp_all add: file_view_def)

subsection \<open>What an operation does to the host's names\<close>

definition same_meta :: "host \<Rightarrow> host \<Rightarrow> bool" where
  "same_meta h h' \<longleftrightarrow> h_names h' = h_names h \<and> h_owner_write h' = h_owner_write h \<and> h_next h' = h_next h \<and> h_faults h' = h_faults h \<and>
     h_dirs h' = h_dirs h"

text \<open>Nothing, or one new file of the machine; directories only above its files.\<close>

definition quiet_host :: "GuestContext \<Rightarrow> host \<Rightarrow> host \<Rightarrow> bool" where
  "quiet_host c h h' \<longleftrightarrow> h_faults h' = [] \<and> (\<forall>q. h_dirs h' q \<longrightarrow> h_dirs h q \<or> q \<in> {vm_directory (gid c), ''vm_files''}) \<and>
     (h_names h' = h_names h \<and> h_owner_write h' = h_owner_write h \<or>
      (\<exists>n. h_names h (local_path (gid c) n) = None \<and> h_names h' = (h_names h)(local_path (gid c) n \<mapsto> h_next h) \<and>
         h_owner_write h' = (h_owner_write h)(h_next h := True)))"

lemma quiet_host_same: "same_meta h h' \<Longrightarrow> h_faults h = [] \<Longrightarrow> quiet_host c h h'"
  by (simp add: quiet_host_def same_meta_def)

lemma quiet_host_then_same: "quiet_host c h h1 \<Longrightarrow> same_meta h1 h2 \<Longrightarrow> quiet_host c h h2"
  unfolding quiet_host_def same_meta_def by simp

lemma quiet_host_names:
  assumes "quiet_host c h h'"
  shows "h_names h p = Some i \<Longrightarrow> h_names h' p = Some i"
    and "p \<notin> own_names (gid c) \<Longrightarrow> h_names h' p = h_names h p"
  using assms by (auto simp: quiet_host_def)

lemma quiet_host_view:
  assumes q: "quiet_host c h h'" and ok: "host_ok h" and v: "host_view k ss h"
  shows "host_view k ss h'"
proof -
  have dirs: "\<not> h_dirs h' (local_path k n)" for n
    using q v local_path_not_directory unfolding quiet_host_def host_view_def by blast
  have shared: "h_names h' p \<noteq> None \<and> p \<notin> own_names k" if "sharedFiles ss n = Some p" for n p
    using v quiet_host_names(1) [OF q] that unfolding host_view_def by blast
  have above: "vm_directory k \<notin> own_names (gid c)" "''vm_files'' \<notin> own_names (gid c)"
    using local_path_not_directory unfolding own_names_def by auto metis+
  have own: "h_owner_write h' i \<and> (\<forall>p. h_names h' p = Some i \<longrightarrow> p = local_path k n)"
    if n: "h_names h' (local_path k n) = Some i" for n i
  proof -
    consider "h_names h' = h_names h" "h_owner_write h' = h_owner_write h"
      | m where "h_names h (local_path (gid c) m) = None" "h_names h' = (h_names h)(local_path (gid c) m \<mapsto> h_next h)"
          "h_owner_write h' = (h_owner_write h)(h_next h := True)"
      using q by (auto simp: quiet_host_def)
    then show ?thesis
    proof cases
      case 1
      then show ?thesis using v n by (auto simp: host_view_def)
    next
      case 2
      have old: "j < h_next h" if "h_names h p = Some j" for p j using ok that by (auto simp: host_ok_def)
      show ?thesis
      proof (cases "local_path k n = local_path (gid c) m")
        case True
        then have "i = h_next h" using n 2(2) by simp
        then show ?thesis using 2(2,3) True old by (auto split: if_splits)
      next
        case False
        then have i: "h_names h (local_path k n) = Some i" using n 2(2) by simp
        then have "i \<noteq> h_next h" using old by blast
        then show ?thesis using v i 2(2,3) by (auto simp: host_view_def)
      qed
    qed
  qed
  show ?thesis
    using v dirs shared own quiet_host_names(2) [OF q above(1)] quiet_host_names(2) [OF q above(2)]
    unfolding host_view_def by auto
qed

subsection \<open>Each operation is one of the specification\<close>

text \<open>Afterwards the machine sees \<open>V'\<close>.\<close>

definition becomes :: "GuestContext \<Rightarrow> SharedState \<Rightarrow> host \<Rightarrow> GuestContext \<Rightarrow> host \<Rightarrow> file_system \<Rightarrow> bool" where
  "becomes c ss h c' h' V' \<longleftrightarrow> file_view c' ss h' = V' \<and> quiet_host c h h' \<and> (\<forall>(k, f)\<in>set (table c'). entry_view c' ss h' f)"

lemma becomes_refl: "view_inv c ss h \<Longrightarrow> becomes c ss h c h (file_view c ss h)"
  by (simp add: becomes_def view_inv_def quiet_host_def)

lemma view_inv_step:
  assumes "view_inv c ss h" and "becomes c ss h c' h' V'" and "guest_step {} c h c' h'" and "numbered c'"
  shows "view_inv c' ss h'"
proof -
  have "host_ok h" "gid c' = gid c" using assms(1,3) by (auto simp: view_inv_def guest_inv_def own_inv_def guest_step_def)
  then show ?thesis
    using assms guest_stepD(1) [OF assms(3)] quiet_host_view [of c h h' "gid c" ss]
    by (auto simp: view_inv_def becomes_def quiet_host_def)
qed

text \<open>An open file, its host descriptor and its bytes.\<close>

lemma entry_viewE:
  assumes "view_inv c ss h" and "map_of (table c) k = Some f"
  obtains g where "fd_lookup h (hostDescriptor f) = Some g" "areValidOpenFlags (flags f)" "entry_view c ss h f"
    "seen_file c ss h (name f) = Some (h_data h (oh_inode g))" "content (file_view c ss h) (view_entry h f) = h_data h (oh_inode g)"
    "oh_access g = (if shared f then O_RDONLY else hf_access (toHostOpenFlags (flags f)))"
    "\<not> shared f \<Longrightarrow> h_names h (local_path (gid c) (name f)) = Some (oh_inode g)"
proof -
  have e: "entry_view c ss h f" using assms by (auto simp: view_inv_def dest: map_of_SomeD)
  then obtain g where g: "fd_lookup h (hostDescriptor f) = Some g"
      "if shared f then sharedFiles ss (name f) = Some (hostPath f) \<and> h_names h (local_path (gid c) (name f)) = None \<and>
         h_names h (hostPath f) = Some (oh_inode g) \<and> oh_access g = O_RDONLY
       else h_names h (local_path (gid c) (name f)) = Some (oh_inode g) \<and> oh_access g = hf_access (toHostOpenFlags (flags f))"
    by (auto simp: entry_view_def)
  then have "seen_file c ss h (name f) = Some (h_data h (oh_inode g))" by (auto simp: seen_file_def split: if_splits)
  moreover from this have "content (file_view c ss h) (view_entry h f) = h_data h (oh_inode g)" by (simp add: content_def)
  ultimately show thesis using that [of g] g e by (auto simp: entry_view_def split: if_splits)
qed

lemma entry_view_cong:
  assumes "fd_lookup h' (hostDescriptor f) = fd_lookup h (hostDescriptor f)" and "h_names h' = h_names h" and "gid c' = gid c"
  shows "entry_view c' ss h' f = entry_view c ss h f"
  unfolding entry_view_def assms by (rule refl)

lemma seen_file_cong:
  "h_names h' = h_names h \<Longrightarrow> h_data h' = h_data h \<Longrightarrow> gid c' = gid c \<Longrightarrow> seen_file c' ss h' = seen_file c ss h"
  by (rule ext) (simp add: seen_file_def split: option.split)

text \<open>A descriptor moves.\<close>

lemma offset_becomes:
  assumes v: "view_inv c ss h" and k: "map_of (table c) k = Some f" and g: "fd_lookup h (hostDescriptor f) = Some g"
  shows "becomes c ss h c (fd_update h (hostDescriptor f) (g\<lparr>oh_offset := x\<rparr>)) (move_to k (view_entry h f) x (file_view c ss h))"
proof -
  let ?h = "fd_update h (hostDescriptor f) (g\<lparr>oh_offset := x\<rparr>)"
  have inv: "guest_inv {} c h" using v by (simp add: view_inv_def)
  have dist: "distinct (map fst (table c))" using inv by (simp add: guest_inv_def)
  have look: "fd_lookup ?h (hostDescriptor f1) = fd_lookup h (hostDescriptor f1)" if "map_of (table c) j = Some f1" "j \<noteq> k" for j f1
    using descriptors_differ [OF inv that(1) k that(2)] by simp
  have entries: "entry_view c ss ?h f1" if j: "(j, f1) \<in> set (table c)" for j f1
  proof -
    have m: "map_of (table c) j = Some f1" using j map_of_eq_Some_iff [OF dist] by blast
    have e: "entry_view c ss h f1" using v j by (auto simp: view_inv_def)
    show ?thesis
    proof (cases "j = k")
      case True
      then show ?thesis using m k g e by (simp add: entry_view_def)
    next
      case False
      then show ?thesis using e entry_view_cong [OF look [OF m False], of c c ss] by simp
    qed
  qed
  have open_k: "map_option (view_entry ?h) (map_of (table c) j) =
      (if j = k then Some ((view_entry h f)\<lparr>sf_offset := x\<rparr>) else map_option (view_entry h) (map_of (table c) j))" for j
    using k g look [of j] by (cases "map_of (table c) j") (auto simp: view_entry_def)
  have "seen_file c ss ?h = seen_file c ss h" by (rule seen_file_cong) simp_all
  then have "file_view c ss ?h = move_to k (view_entry h f) x (file_view c ss h)"
    using open_k by (auto simp: file_view_def move_to_def)
  moreover have "quiet_host c h ?h"
    using v by (intro quiet_host_same) (simp_all add: same_meta_def view_inv_def)
  ultimately show ?thesis using entries by (auto simp: becomes_def)
qed

text \<open>The bytes of the machine's own file \<open>n\<close> change.\<close>

lemma data_view_inv:
  assumes v: "view_inv c ss h" and n: "h_names h (local_path (gid c) n) = Some i"
  shows "view_inv c ss (h\<lparr>h_data := (h_data h)(i := bs)\<rparr>)"
    and "file_view c ss (h\<lparr>h_data := (h_data h)(i := bs)\<rparr>) = (file_view c ss h)\<lparr>fs_files := (seen_file c ss h)(n \<mapsto> bs)\<rparr>"
proof -
  let ?h = "h\<lparr>h_data := (h_data h)(i := bs)\<rparr>"
  have i: "inode_of ?h = inode_of h" by (rule ext) (simp add: inode_of_def)
  have hv: "host_view (gid c) ss h" using v by (simp add: view_inv_def)
  have "entry_view c ss ?h f = entry_view c ss h f" for f by (rule entry_view_cong) simp_all
  moreover have "host_view k ss ?h = host_view k ss h" for k by (simp add: host_view_def)
  moreover have "guest_inv P c ?h = guest_inv P c h" for P by (simp add: guest_inv_def own_inv_def host_ok_def i)
  ultimately show "view_inv c ss ?h" using v by (simp add: view_inv_def)
  have own: "j = i \<longleftrightarrow> m = n" if "h_names h (local_path (gid c) m) = Some j" for m j
    using hv n that unfolding host_view_def by (metis local_path_inj option.inject)
  have shd: "j \<noteq> i" if "sharedFiles ss m = Some p" "h_names h p = Some j" for m p j
    using hv n that unfolding host_view_def own_names_def by blast
  have "seen_file c ss ?h m = ((seen_file c ss h)(n \<mapsto> bs)) m" for m
  proof (cases "h_names h (local_path (gid c) m)")
    case None
    have "map_option ((h_data h)(i := bs)) (h_names h p) = map_option (h_data h) (h_names h p)" if "sharedFiles ss m = Some p" for p
      using shd [OF that] by (cases "h_names h p") auto
    then show ?thesis using n None by (auto simp: seen_file_def split: option.split)
  next
    case (Some j)
    then show ?thesis using own [OF Some] by (auto simp: seen_file_def)
  qed
  moreover have "view_entry ?h = view_entry h" by (rule ext) (simp add: view_entry_def)
  ultimately show "file_view c ss ?h = (file_view c ss h)\<lparr>fs_files := (seen_file c ss h)(n \<mapsto> bs)\<rparr>"
    by (auto simp: file_view_def)
qed

lemma access_of_flags:
  assumes "areValidOpenFlags fl"
  shows "hf_access (toHostOpenFlags fl) = O_WRONLY \<Longrightarrow> \<not> hasReadAccess fl"
    and "hasWriteAccess fl \<Longrightarrow> hf_access (toHostOpenFlags fl) \<noteq> O_RDONLY"
  using assms by (auto simp: toHostOpenFlags_def hasReadAccess_def hasWriteAccess_def open_flags split: if_splits)

lemma seek_view:
  assumes v: "view_inv c ss h"
  shows "\<exists>x h' V'. seekFile c h r = (x, h') \<and> spec_seek (file_view c ss h) r = (x, V') \<and> becomes c ss h c h' V'"
proof (cases "map_of (table c) (req_descriptor r)")
  case None
  then show ?thesis using becomes_refl [OF v] by (auto simp: seekFile_def spec_seek_def table_def)
next
  case (Some f)
  let ?V = "file_view c ss h" and ?f = "view_entry h f"
  obtain g where g: "fd_lookup h (hostDescriptor f) = Some g" "content ?V ?f = h_data h (oh_inode g)"
    by (rule entry_viewE [OF v Some])
  define target where "target = (if req_flags r = FILE_SEEK_SET then Some (W_SET, sint (req_offset r))
    else if req_flags r = FILE_SEEK_END then Some (W_END, 0) else None)"
  define at where "at = (if req_flags r = FILE_SEEK_SET then sint (req_offset r) else int (length (content ?V ?f)))"
  have faults: "h_faults h = []" using v by (simp add: view_inv_def)
  have seek: "seekFile c h r = (case target of None \<Rightarrow> (-1, h) | Some (w, off) \<Rightarrow>
      let (x, h) = os_lseek h (hostDescriptor f) off w in if x < 0 \<or> x > 2 ^ 31 - 1 then (-1, h) else (x, h))"
    using Some by (simp add: seekFile_def table_def target_def)
  have spec: "spec_seek ?V r = (if target = None \<or> at < 0 then (-1, ?V)
      else (if at > 2 ^ 31 - 1 then -1 else at, move_to (req_descriptor r) ?f (nat at) ?V))"
    using Some by (simp add: spec_seek_def target_def at_def)
  show ?thesis
  proof (cases target)
    case None
    then show ?thesis using seek spec becomes_refl [OF v] by auto
  next
    case t: (Some t)
    have "os_lseek h (hostDescriptor f) (snd t) (fst t) =
        (if at < 0 then (-1, h) else (at, fd_update h (hostDescriptor f) (g\<lparr>oh_offset := nat at\<rparr>)))"
      using t g faults by (auto simp: target_def at_def os_lseek_def take_fault_none split: if_splits)
    then have "seekFile c h r = (if at < 0 then (-1, h)
        else (if at > 2 ^ 31 - 1 then -1 else at, fd_update h (hostDescriptor f) (g\<lparr>oh_offset := nat at\<rparr>)))"
      using seek t by (simp add: case_prod_beta Let_def)
    then show ?thesis
      using spec t becomes_refl [OF v] offset_becomes [OF v Some g(1), of "nat at"] by (cases "at < 0") auto
  qed
qed

lemma close_view:
  assumes v: "view_inv c ss h"
  shows "\<exists>x c' h' V'. closeFile c h k = (x, c', h') \<and> spec_close (file_view c ss h) k = (x, V') \<and> becomes c ss h c' h' V'"
proof (cases "map_of (table c) k")
  case None
  then show ?thesis using becomes_refl [OF v] by (auto simp: closeFile_def spec_close_def table_def)
next
  case (Some f)
  let ?h = "fd_remove h (hostDescriptor f)" and ?c = "set_openFiles c (erase k (table c))"
  obtain g where g: "fd_lookup h (hostDescriptor f) = Some g" by (rule entry_viewE [OF v Some])
  have inv: "guest_inv {} c h" and faults: "h_faults h = []" using v by (auto simp: view_inv_def)
  have close: "closeFile c h k = (0, ?c, ?h)"
    using Some g os_close_quiet [OF faults, of "hostDescriptor f"] by (simp add: closeFile_def table_def)
  have look: "fd_lookup ?h (hostDescriptor f1) = fd_lookup h (hostDescriptor f1)" if "map_of (table c) j = Some f1" "j \<noteq> k" for j f1
    using descriptors_differ [OF inv that(1) Some that(2)] by simp
  have erased: "map_of (erase k t) j = (if j = k then None else map_of t j)" for t :: "(i32 \<times> OpenFile) list" and j
    unfolding erase_def by (induction t) auto
  have entries: "entry_view ?c ss ?h f1" if j: "(j, f1) \<in> set (erase k (table c))" for j f1
  proof -
    have "(j, f1) \<in> set (table c)" "j \<noteq> k" using j by (auto simp: erase_def)
    moreover from this have "map_of (table c) j = Some f1" using inv by (simp add: guest_inv_def)
    ultimately show ?thesis
      using v entry_view_cong [OF look, of j f1 ?c c ss] by (auto simp: view_inv_def)
  qed
  have "map_option (view_entry ?h) (map_of (erase k (table c)) j) = (if j = k then None else map_option (view_entry h) (map_of (table c) j))" for j
    using look [of j] by (cases "map_of (table c) j") (auto simp: erased view_entry_def)
  moreover have "seen_file ?c ss ?h = seen_file c ss h" by (rule seen_file_cong) simp_all
  ultimately have "file_view ?c ss ?h = (file_view c ss h)\<lparr>fs_open := (fs_open (file_view c ss h))(k := None)\<rparr>"
    by (auto simp: file_view_def)
  moreover have "quiet_host c h ?h" using faults by (intro quiet_host_same) (simp_all add: same_meta_def)
  ultimately have "becomes c ss h ?c ?h ((file_view c ss h)\<lparr>fs_open := (fs_open (file_view c ss h))(k := None)\<rparr>)"
    using entries by (auto simp: becomes_def)
  then show ?thesis using close Some by (simp add: spec_close_def)
qed

lemma read_view:
  assumes v: "view_inv c ss h" and op: "req_operation r = FILE_OPERATION_READ"
  shows "\<exists>x vm' h' V'. readFile c vm h r = (x, vm', h') \<and> spec_transfer (file_view c ss h) vm r = (x, V', vm') \<and> becomes c ss h c h' V'"
proof (cases "map_of (table c) (req_descriptor r)")
  case None
  then show ?thesis using becomes_refl [OF v] by (auto simp: readFile_def spec_transfer_def table_def)
next
  case (Some f)
  let ?V = "file_view c ss h" and ?f = "view_entry h f" and ?n = "nat (sint (req_count r))"
  obtain g where g: "fd_lookup h (hostDescriptor f) = Some g" "content ?V ?f = h_data h (oh_inode g)" "areValidOpenFlags (flags f)"
      "oh_access g = (if shared f then O_RDONLY else hf_access (toHostOpenFlags (flags f)))"
    by (rule entry_viewE [OF v Some])
  have faults: "h_faults h = []" using v by (simp add: view_inv_def)
  consider "\<not> hasReadAccess (flags f) \<or> sint (req_count r) \<le> 0 \<or> getGuestMemory vm (req_buffer r) ?n = None"
    | a where "hasReadAccess (flags f)" "0 < sint (req_count r)" "getGuestMemory vm (req_buffer r) ?n = Some a"
    by fastforce
  then show ?thesis
  proof cases
    case 1
    then show ?thesis using Some op becomes_refl [OF v] by (auto simp: readFile_def spec_transfer_def table_def)
  next
    case 2
    define bs where "bs = take ?n (drop (oh_offset g) (h_data h (oh_inode g)))"
    have "oh_access g \<noteq> O_WRONLY" using g(3,4) access_of_flags(1) 2(1) by (auto split: if_splits)
    then have "readFile c vm h r = (int (length bs), vm\<lparr>mem := store_bytes (mem vm) a bs\<rparr>,
        fd_update h (hostDescriptor f) (g\<lparr>oh_offset := oh_offset g + length bs\<rparr>))"
      using 2 Some os_read_quiet [OF faults g(1)] by (simp add: readFile_def table_def bs_def)
    moreover have "spec_transfer ?V vm r = (int (length bs), move_to (req_descriptor r) ?f (oh_offset g + length bs) ?V,
        vm\<lparr>mem := store_bytes (mem vm) a bs\<rparr>)"
      using 2 Some op g(1,2) by (simp add: spec_transfer_def spec_read_def bs_def Let_def)
    ultimately show ?thesis using offset_becomes [OF v Some g(1)] by auto
  qed
qed

lemma unwritten_view:
  assumes v: "view_inv c ss h" and f: "map_of (table c) k = Some f" "shared f" and g: "fd_lookup h (hostDescriptor f) = Some g"
  shows "unwritten c h (name f) (oh_inode g)"
proof -
  have e: "entry_view c ss h f1" if "(j, f1) \<in> set (table c)" for j f1 using v that by (auto simp: view_inv_def)
  have ef: "entry_view c ss h f" by (rule e [OF map_of_SomeD [OF f(1)]])
  then have p: "isValidGuestFileName (name f)" "sharedFiles ss (name f) = Some (hostPath f)"
    "h_names h (local_path (gid c) (name f)) = None" "h_names h (hostPath f) = Some (oh_inode g)"
    using f(2) g by (auto simp: entry_view_def)
  have "no_file_above h (local_path (gid c) (name f))"
    using v no_file_above_local [OF valid_name_no_slash [OF p(1)]] by (simp add: view_inv_def host_view_def)
  moreover have "fd_lookup h (hostDescriptor f1) \<noteq> None \<and> (matches (name f) f1 \<longrightarrow> h_names h (hostPath f1) = Some (oh_inode g))"
    if "(j, f1) \<in> set (table c)" for j f1
    using e [OF that] p by (auto simp: entry_view_def split: if_splits)
  ultimately show ?thesis
    using v p(3) by (auto simp: unwritten_def Let_def view_inv_def host_view_def guest_inv_def own_inv_def no_file_above_def owners_def)
qed

lemma set_moved: "(k, f') \<in> set (map (moved p rs) t) \<Longrightarrow> \<exists>f. (k, f) \<in> set t \<and> (k, f') = moved p rs (k, f)"
  by (auto simp: moved_def)

lemma fst_moved [simp]: "fst (moved p rs e) = fst e"
  by (simp add: moved_def split: prod.split)

text \<open>The table and the files after the private copy of \<open>n\<close> has been made as inode \<open>j\<close>.\<close>

lemma copied_entry:
  assumes v: "view_inv c ss h" and mv: "moved_to j n c h c' h'" and names: "h_names h' = (h_names h)(local_path (gid c) n \<mapsto> j)"
    and loc: "h_names h (local_path (gid c) n) = None"
    and t: "map_of (table c) k = Some f" and t': "map_of (table c') k = Some f'"
  shows "entry_view c' ss h' f' \<and> view_entry h' f' = view_entry h f \<and> (matches n f \<longrightarrow> \<not> shared f')"
proof -
  have e: "entry_view c ss h f" using v map_of_SomeD [OF t] by (auto simp: view_inv_def)
  have gid: "gid c' = gid c" using mv by (auto simp: moved_to_def)
  have hp: "q \<noteq> local_path (gid c) n" if "sharedFiles ss m = Some q" for m q
    using v host_view_shared(2) [OF _ that] unfolding view_inv_def by blast
  show ?thesis
  proof (cases "matches n f")
    case True
    then have eq: "f' = f\<lparr>hostDescriptor := hostDescriptor f', hostPath := local_path (gid c) n, shared := False\<rparr>"
        "fd_lookup h' (hostDescriptor f') = Some (reopened_at j h f)"
      using mv t t' unfolding moved_to_def by (metis option.inject)+
    have "flags f' = flags f" "name f' = n" "\<not> shared f'" using True by (subst eq(1), simp)+
    then show ?thesis using e eq(2) names True by (simp add: entry_view_def view_entry_def reopened_at_def gid)
  next
    case False
    then have "f' = f" "fd_lookup h' (hostDescriptor f) = fd_lookup h (hostDescriptor f)"
      using mv t t' unfolding moved_to_def by (metis option.inject)+
    then show ?thesis
      using e names False hp loc by (auto simp: entry_view_def view_entry_def gid local_path_inj)
  qed
qed

lemma copied_table:
  assumes v: "view_inv c ss h" and mv: "moved_to j n c h c' h'" and names: "h_names h' = (h_names h)(local_path (gid c) n \<mapsto> j)"
    and loc: "h_names h (local_path (gid c) n) = None"
  shows "\<forall>(k, f')\<in>set (table c'). entry_view c' ss h' f'" and "numbered c'" and "fileState c' = (fileState c)\<lparr>openFiles := table c'\<rparr>"
    and "map_option (view_entry h') (map_of (table c') k) = map_option (view_entry h) (map_of (table c) k)"
    and "map_of (table c') k = None \<longleftrightarrow> map_of (table c) k = None"
proof -
  let ?p = "local_path (gid c) n"
  obtain rs where c': "c' = set_openFiles c (map (moved ?p rs) (table c))" using mv by (auto simp: moved_to_def)
  have both: "map_of (table c') k = map_option (\<lambda>f. snd (moved ?p rs (k, f))) (map_of (table c) k)" for k
    by (simp add: c' map_of_moved)
  have keys: "map fst (table c') = map fst (table c)" by (simp add: c' comp_def)
  have dist: "distinct (map fst (table c'))" using v unfolding keys by (simp add: view_inv_def guest_inv_def)
  note entry = copied_entry [OF v mv names loc]
  show "\<forall>(k, f')\<in>set (table c'). entry_view c' ss h' f'"
  proof clarify
    fix k f' assume "(k, f') \<in> set (table c')"
    then have m: "map_of (table c') k = Some f'" using map_of_eq_Some_iff [OF dist] by blast
    then obtain f where "map_of (table c) k = Some f" using both by fastforce
    then show "entry_view c' ss h' f'" using entry m by blast
  qed
  show none: "map_of (table c') k = None \<longleftrightarrow> map_of (table c) k = None" for k by (simp add: both)
  show "map_option (view_entry h') (map_of (table c') k) = map_option (view_entry h) (map_of (table c) k)"
  proof (cases "map_of (table c) k")
    case (Some f)
    then obtain f' where "map_of (table c') k = Some f'" using none [of k] by auto
    then show ?thesis using Some entry [OF Some] by simp
  qed (simp add: both)
  show "numbered c'" using v arg_cong [OF keys, of set] by (simp add: numbered_def view_inv_def c')
  show "fileState c' = (fileState c)\<lparr>openFiles := table c'\<rparr>" by (simp add: c')
qed

lemma copied_files:
  assumes v: "view_inv c ss h" and names: "h_names h' = (h_names h)(local_path (gid c) n \<mapsto> h_next h)"
    and data: "h_data h' = (h_data h)(h_next h := bs)" and seen: "seen_file c ss h n = Some bs" and gid: "gid c' = gid c"
  shows "seen_file c' ss h' = seen_file c ss h"
proof
  fix m
  have old: "i < h_next h" if "h_names h q = Some i" for q i
    using v that by (auto simp: view_inv_def guest_inv_def own_inv_def host_ok_def)
  have hp: "q \<noteq> local_path (gid c) n" if "sharedFiles ss m = Some q" for q
    using v host_view_shared(2) [OF _ that] unfolding view_inv_def by blast
  show "seen_file c' ss h' m = seen_file c ss h m"
  proof (cases "m = n")
    case True
    then show ?thesis using seen names data by (simp add: seen_file_def gid)
  next
    case False
    have "map_option (h_data h') (h_names h' q) = map_option (h_data h) (h_names h q)" if "sharedFiles ss m = Some q" for q
      using names data hp [OF that] old [of q] by (cases "h_names h q") auto
    then show ?thesis
      using False names data old by (auto simp: seen_file_def gid local_path_inj split: option.split)
  qed
qed

text \<open>Making the private copy is invisible.\<close>

lemma prepare_view:
  assumes v: "view_inv c ss h" and f: "map_of (table c) k = Some f"
  shows "\<exists>c' h' f'. prepareFileForWrite c h f = (True, c', h') \<and> becomes c ss h c' h' (file_view c ss h) \<and> numbered c' \<and>
    map_of (table c') k = Some f' \<and> \<not> shared f' \<and> view_entry h' f' = view_entry h f"
proof (cases "shared f")
  case False
  then show ?thesis using f becomes_refl [OF v] v by (simp add: prepareFileForWrite_def view_inv_def)
next
  case True
  let ?n = "name f"
  let ?p = "local_path (gid c) ?n"
  obtain g where g: "fd_lookup h (hostDescriptor f) = Some g" "seen_file c ss h ?n = Some (h_data h (oh_inode g))"
      "entry_view c ss h f" by (rule entry_viewE [OF v f])
  have un: "unwritten c h ?n (oh_inode g)" by (rule unwritten_view [OF v f True g(1)])
  obtain c' h' where p: "prepareFileForWrite c h f = (True, c', h')" "h_faults h' = []" "h_names h' = (h_names h)(?p \<mapsto> h_next h)"
      "h_data h' = (h_data h)(h_next h := h_data h (oh_inode g))" "moved_to (h_next h) ?n c h c' h'"
      "h_owner_write h' = (h_owner_write h)(h_next h := True)" "h_dirs h' = (\<lambda>q. h_dirs h q \<or> q \<in> set (ancestors (parent_path ?p)))"
    using prepareFileForWrite_quiet [OF un map_of_SomeD [OF f] conjI [OF True refl]] by blast
  have gid: "gid c' = gid c" using p(5) by (auto simp: moved_to_def)
  have valid: "isValidGuestFileName ?n" and loc: "h_names h ?p = None" using g(3) True by (auto simp: entry_view_def)
  have dirs: "set (ancestors (parent_path ?p)) = {vm_directory (gid c), ''vm_files''}"
    by (simp add: parent_local [OF valid_name_no_slash [OF valid]] ancestors_directory)
  note tab = copied_table [OF v p(5,3) loc]
  have "quiet_host c h h'" unfolding quiet_host_def using p loc dirs by auto
  moreover have "file_view c' ss h' = file_view c ss h"
    using copied_files [OF v p(3,4) g(2) gid] tab(3,4) by (simp add: file_view_def)
  ultimately have "becomes c ss h c' h' (file_view c ss h)" using tab(1) by (simp add: becomes_def)
  moreover obtain f' where "map_of (table c') k = Some f'" using tab(5) [of k] f by auto
  ultimately show ?thesis using p(1) tab(2) copied_entry [OF v p(5,3) loc f] True by blast
qed

lemma own_write_view:
  assumes v: "view_inv c ss h" and f: "map_of (table c) k = Some f" "\<not> shared f" and acc: "hasWriteAccess (flags f)"
  shows "\<exists>h'. os_write h (hostDescriptor f) bs = (int (length bs), h') \<and> same_meta h h' \<and>
    becomes c ss h c h' (spec_write (file_view c ss h) k (view_entry h f) bs)"
proof -
  let ?V = "file_view c ss h" and ?f = "view_entry h f"
  obtain g where g: "fd_lookup h (hostDescriptor f) = Some g" "content ?V ?f = h_data h (oh_inode g)"
      "h_names h (local_path (gid c) (name f)) = Some (oh_inode g)" "oh_access g = hf_access (toHostOpenFlags (flags f))"
      "areValidOpenFlags (flags f)"
    using entry_viewE [OF v f(1)] f(2) by (metis (full_types))
  define bytes where "bytes = patch (h_data h (oh_inode g)) (oh_offset g) bs"
  define h1 where "h1 = h\<lparr>h_data := (h_data h)(oh_inode g := bytes)\<rparr>"
  define h2 where "h2 = fd_update h1 (hostDescriptor f) (g\<lparr>oh_offset := oh_offset g + length bs\<rparr>)"
  have faults: "h_faults h = []" using v by (simp add: view_inv_def)
  have "oh_access g \<noteq> O_RDONLY" using access_of_flags(2) [OF g(5) acc] g(4) by simp
  then have w: "os_write h (hostDescriptor f) bs = (int (length bs), h2)"
    using os_write_quiet [OF faults g(1)] by (simp add: h2_def h1_def bytes_def)
  note v1 = data_view_inv [OF v g(3), of bytes, folded h1_def]
  have g1: "fd_lookup h1 (hostDescriptor f) = Some g" "view_entry h1 f = ?f"
    using g(1) by (simp_all add: h1_def view_entry_def)
  have "becomes c ss h1 c h2 (move_to k ?f (oh_offset g + length bs) (file_view c ss h1))"
    using offset_becomes [OF v1(1) f(1) g1(1)] by (simp add: h2_def g1(2))
  moreover have "spec_write ?V k ?f bs = move_to k ?f (oh_offset g + length bs) (file_view c ss h1)"
    using g(1,2) by (simp add: spec_write_def v1(2) bytes_def)
  moreover have same: "same_meta h h2" by (simp add: same_meta_def h2_def h1_def)
  moreover from same have "quiet_host c h h2" by (rule quiet_host_same) (rule faults)
  ultimately show ?thesis using w by (auto simp: becomes_def)
qed

lemma write_view:
  assumes v: "view_inv c ss h" and op: "req_operation r = FILE_OPERATION_WRITE"
  shows "\<exists>x c' h' V'. writeFile c vm h r = (x, c', h') \<and> spec_transfer (file_view c ss h) vm r = (x, V', vm) \<and> becomes c ss h c' h' V'"
proof (cases "map_of (table c) (req_descriptor r)")
  case None
  then show ?thesis using becomes_refl [OF v] by (auto simp: writeFile_def spec_transfer_def table_def)
next
  case (Some f)
  let ?V = "file_view c ss h" and ?n = "nat (sint (req_count r))" and ?k = "req_descriptor r"
  have nr: "req_operation r \<noteq> FILE_OPERATION_READ" by (simp add: op file_operations)
  obtain c1 h1 f1 where p: "prepareFileForWrite c h f = (True, c1, h1)" "becomes c ss h c1 h1 ?V" "numbered c1"
      "map_of (table c1) ?k = Some f1" "\<not> shared f1" "view_entry h1 f1 = view_entry h f"
    using prepare_view [OF v Some] by blast
  consider "\<not> hasWriteAccess (flags f) \<or> sint (req_count r) < 0"
    | "hasWriteAccess (flags f)" "0 \<le> sint (req_count r)" "sint (req_count r) = 0 \<or> getGuestMemory vm (req_buffer r) ?n = None"
    | a where "hasWriteAccess (flags f)" "0 < sint (req_count r)" "getGuestMemory vm (req_buffer r) ?n = Some a"
    by fastforce
  then show ?thesis
  proof cases
    case 1
    then show ?thesis using Some becomes_refl [OF v] nr by (auto simp: writeFile_def spec_transfer_def table_def)
  next
    case 2
    then show ?thesis using Some p(1,2) nr by (auto simp: writeFile_def spec_transfer_def table_def)
  next
    case 3
    have v1: "view_inv c1 ss h1" by (rule view_inv_step [OF v p(2) guest_step_prepare [OF p(1)] p(3)])
    have V: "file_view c1 ss h1 = ?V" using p(2) by (simp add: becomes_def)
    have "flags f1 = flags f" using arg_cong [OF p(6), of sf_flags] by simp
    then obtain h2 where h2: "os_write h1 (hostDescriptor f1) (load_bytes (mem vm) a ?n) = (int ?n, h2)" "same_meta h1 h2"
        "becomes c1 ss h1 c1 h2 (spec_write ?V ?k (view_entry h f) (load_bytes (mem vm) a ?n))"
      using own_write_view [OF v1 p(4,5), of "load_bytes (mem vm) a ?n"] 3(1) p(6) V by auto
    have "writeFile c vm h r = (int ?n, c1, h2)"
      using 3 Some p(1,4) h2(1) by (simp add: writeFile_def table_def)
    moreover have "spec_transfer ?V vm r = (int ?n, spec_write ?V ?k (view_entry h f) (load_bytes (mem vm) a ?n), vm)"
      using 3 Some nr by (simp add: spec_transfer_def Let_def)
    moreover have "becomes c ss h c1 h2 (spec_write ?V ?k (view_entry h f) (load_bytes (mem vm) a ?n))"
      using p(2) h2(2,3) quiet_host_then_same by (auto simp: becomes_def)
    ultimately show ?thesis by blast
  qed
qed

text \<open>An open fails exactly when there is no such file and none is to be created.\<close>

lemma open_reaches_view:
  assumes v: "view_inv c ss h" and valid: "isValidGuestFileName n"
    and "seen_file c ss h n \<noteq> None \<or> fl AND FILE_OPEN_CREATE \<noteq> 0"
  shows "\<exists>shd i. open_reaches c ss h n fl shd i"
proof -
  have hv: "host_view (gid c) ss h" using v by (simp add: view_inv_def)
  have above: "no_file_above h (local_path (gid c) n)"
    using hv by (simp add: no_file_above_local [OF valid_name_no_slash [OF valid]] host_view_def)
  have base: "h_faults h = []" "numbered c" "\<not> h_dirs h (local_path (gid c) n)" using v hv by (auto simp: view_inv_def host_view_def)
  show ?thesis
  proof (cases "h_names h (local_path (gid c) n)")
    case (Some i)
    then have "open_reaches c ss h n fl False i" using hv base above by (simp add: open_reaches_def host_view_def)
    then show ?thesis by blast
  next
    case None
    show ?thesis
    proof (cases "sharedFiles ss n")
      case s: None
      then have "fl AND FILE_OPEN_CREATE \<noteq> 0" using assms(3) None by (simp add: seen_file_def)
      then have "open_reaches c ss h n fl False (h_next h)"
        using None s base above by (simp add: open_reaches_def toHostOpenFlags_def)
      then show ?thesis by blast
    next
      case (Some p)
      then obtain i where "h_names h p = Some i" using host_view_shared [OF hv] by blast
      then have "open_reaches c ss h n fl True i" using None Some base by (simp add: open_reaches_def)
      then show ?thesis by blast
    qed
  qed
qed

lemma open_absent:
  assumes v: "view_inv c ss h" and seen: "seen_file c ss h n = None" and "req_flags r AND FILE_OPEN_CREATE = 0"
    and "readGuestFileName vm (req_buffer r) = Some n"
  shows "openFile c ss vm h r = (-1, c, h)"
proof -
  have "h_faults h = []" "\<not> h_dirs h (local_path (gid c) n)" using v by (auto simp: view_inv_def host_view_def)
  moreover have none: "h_names h (local_path (gid c) n) = None" using seen by (simp add: seen_file_def split: option.splits)
  moreover have "sharedFiles ss n = None"
    using v seen none host_view_shared [of "gid c" ss h n] by (auto simp: seen_file_def view_inv_def split: option.splits)
  ultimately have "resolveFile c ss h n = (\<lparr>rf_path = local_path (gid c) n, rf_shared = False\<rparr>, h)"
    "os_open h (local_path (gid c) n) (toHostOpenFlags (req_flags r)) = (-1, h)"
    using assms(3) by (simp_all add: resolveFile_def fs_exists_def take_fault_none os_open_def toHostOpenFlags_def)
  then show ?thesis using assms(3,4) by (simp add: openFile_def)
qed

text \<open>The names and bytes after an open: those before, or one more, empty file.\<close>

lemma reached_names:
  assumes v: "view_inv c ss h" and op: "open_reaches c ss h n fl shd i" and valid: "isValidGuestFileName n"
  defines "h1 \<equiv> reached_host c h n fl shd"
  shows "quiet_host c h h1" and "seen_file c ss h1 = (seen_file c ss h)(n := Some (case seen_file c ss h n of None \<Rightarrow> [] | Some bs \<Rightarrow> bs))"
    and "entry_view c ss h f \<Longrightarrow> entry_view c ss h1 f" and "fd_lookup h1 d = fd_lookup h d"
    and "if shd then h_names h1 (local_path (gid c) n) = None \<and> (\<exists>p. sharedFiles ss n = Some p \<and> h_names h1 p = Some i)
      else h_names h1 (local_path (gid c) n) = Some i"
proof -
  let ?p = "local_path (gid c) n"
  have hv: "host_view (gid c) ss h" and faults: "h_faults h = []" using v by (auto simp: view_inv_def)
  have hp: "q \<noteq> local_path (gid c) m" if "sharedFiles ss m' = Some q" for m m' q
    by (rule host_view_shared(2) [OF hv that])
  have dirs: "set (ancestors (parent_path ?p)) = {vm_directory (gid c), ''vm_files''}"
    by (simp add: parent_local [OF valid_name_no_slash [OF valid]] ancestors_directory)
  show "fd_lookup h1 d = fd_lookup h d" for d by (simp add: h1_def reached_host_def Let_def)
  have d1: "h_dirs h1 q \<longrightarrow> h_dirs h q \<or> q \<in> {vm_directory (gid c), ''vm_files''}" for q
    using dirs by (auto simp: h1_def reached_host_def Let_def)
  consider (there) "h_names h1 = h_names h" "h_data h1 = h_data h" "h_owner_write h1 = h_owner_write h" "h_faults h1 = []"
      "seen_file c ss h n \<noteq> None"
      "if shd then h_names h ?p = None \<and> (\<exists>p. sharedFiles ss n = Some p \<and> h_names h p = Some i) else h_names h ?p = Some i"
    | (fresh) "h_names h ?p = None" "sharedFiles ss n = None" "\<not> shd" "i = h_next h" "h_names h1 = (h_names h)(?p \<mapsto> i)"
      "h_data h1 = (h_data h)(i := [])" "h_owner_write h1 = (h_owner_write h)(i := True)" "h_faults h1 = []"
    using op faults by (fastforce simp: open_reaches_def h1_def reached_host_def Let_def seen_file_def split: option.splits if_splits)
  then have "quiet_host c h h1 \<and> seen_file c ss h1 = (seen_file c ss h)(n := Some (case seen_file c ss h n of None \<Rightarrow> [] | Some bs \<Rightarrow> bs)) \<and>
    (entry_view c ss h f \<longrightarrow> entry_view c ss h1 f) \<and>
    (if shd then h_names h1 ?p = None \<and> (\<exists>p. sharedFiles ss n = Some p \<and> h_names h1 p = Some i) else h_names h1 ?p = Some i)"
  proof cases
    case there
    have "seen_file c ss h1 = seen_file c ss h" by (rule seen_file_cong [OF there(1,2) refl])
    then show ?thesis using there d1 \<open>\<And>d. fd_lookup h1 d = fd_lookup h d\<close> by (auto simp: quiet_host_def entry_view_def)
  next
    case fresh
    have old: "j \<noteq> i" if "h_names h q = Some j" for q j
      using v that by (auto simp: view_inv_def guest_inv_def own_inv_def host_ok_def fresh(4))
    have "seen_file c ss h1 m = ((seen_file c ss h)(n := Some (case seen_file c ss h n of None \<Rightarrow> [] | Some bs \<Rightarrow> bs))) m" for m
      using fresh(1,2,5,6) hp old by (auto simp: seen_file_def local_path_inj map_option_case split: option.splits)
    moreover have "entry_view c ss h f \<longrightarrow> entry_view c ss h1 f"
      using fresh(1,2,5) hp \<open>\<And>d. fd_lookup h1 d = fd_lookup h d\<close> by (auto simp: entry_view_def local_path_inj)
    ultimately show ?thesis using fresh d1 by (auto simp: quiet_host_def)
  qed
  then show "quiet_host c h h1" "seen_file c ss h1 = (seen_file c ss h)(n := Some (case seen_file c ss h n of None \<Rightarrow> [] | Some bs \<Rightarrow> bs))"
    "entry_view c ss h f \<Longrightarrow> entry_view c ss h1 f"
    "if shd then h_names h1 ?p = None \<and> (\<exists>p. sharedFiles ss n = Some p \<and> h_names h1 p = Some i) else h_names h1 ?p = Some i"
    by blast+
qed

lemma open_view:
  assumes v: "view_inv c ss h" and fl: "areValidOpenFlags (req_flags r)" and name: "readGuestFileName vm (req_buffer r) = Some n"
  shows "\<exists>x c' h' V'. openFile c ss vm h r = (x, c', h') \<and> spec_open (file_view c ss h) n (req_flags r) = (x, V') \<and> becomes c ss h c' h' V'"
proof (cases "seen_file c ss h n = None \<and> req_flags r AND FILE_OPEN_CREATE = 0")
  case True
  then show ?thesis using open_absent [OF v _ _ name] becomes_refl [OF v] by (simp add: spec_open_def)
next
  case False
  let ?fl = "req_flags r" and ?k = "nextDescriptor (fileState c)" and ?V = "file_view c ss h"
  have valid: "isValidGuestFileName n" by (rule readGuestFileName_valid [OF name])
  obtain shd i where op: "open_reaches c ss h n ?fl shd i" using open_reaches_view [OF v valid] False by blast
  define h1 where "h1 = reached_host c h n ?fl shd"
  obtain d h' where ins: "fd_install h1 (reached_handle ?fl shd i) = (d, h')" by fastforce
  define f where "f = reached_file c ss n ?fl shd d"
  define V' where "V' = snd (spec_open ?V n ?fl)"
  have o: "openFile c ss vm h r = (sint ?k, with_descriptor c f, h')"
    using openFile_quiet [OF op name fl refl ins [unfolded h1_def]] by (simp add: f_def)
  note r = reached_names [OF v op valid, folded h1_def]
  have h': "h_names h' = h_names h1" "h_data h' = h_data h1" "same_meta h1 h'"
    using arg_cong [OF ins, of snd] by (auto simp: same_meta_def)
  have look: "fd_lookup h' e = (if e = d then Some (reached_handle ?fl shd i) else fd_lookup h e)" for e
    using fd_lookup_install [of h1 "reached_handle ?fl shd i" e] ins r(4) by simp
  have fresh: "fd_lookup h d = None" using fd_install_fresh [of h1 "reached_handle ?fl shd i"] ins r(4) by simp
  have old: "fd_lookup h' (hostDescriptor f1) = fd_lookup h (hostDescriptor f1)" "entry_view c ss h' f1"
    if "(j, f1) \<in> set (table c)" for j f1
  proof -
    have e: "entry_view c ss h f1" using v that by (auto simp: view_inv_def)
    then have "hostDescriptor f1 \<noteq> d" using fresh by (auto simp: entry_view_def)
    then show l: "fd_lookup h' (hostDescriptor f1) = fd_lookup h (hostDescriptor f1)" by (simp add: look)
    show "entry_view c ss h' f1"
      using r(3) [OF e] entry_view_cong [of h' f1 h1 c c ss] l r(4) h'(1) by simp
  qed
  have tab: "table (with_descriptor c f) = (?k, f) # table c" "gid (with_descriptor c f) = gid c"
    "nextDescriptor (fileState (with_descriptor c f)) = ?k + 1" "pendingResults (fileState (with_descriptor c f)) = pendingResults (fileState c)"
    by (simp_all add: with_descriptor_def Let_def)
  have "entry_view c ss h' f"
    using r(5) fl valid op
    by (auto simp: entry_view_def f_def reached_file_def reached_handle_def look h' split: if_splits)
  then have entries: "\<forall>(j, f1)\<in>set (table (with_descriptor c f)). entry_view (with_descriptor c f) ss h' f1"
    using old(2) entry_view_cong [OF refl refl tab(2)] unfolding tab(1) by auto
  have "view_entry h' f = \<lparr>sf_name = n, sf_flags = ?fl, sf_offset = 0\<rparr>"
    by (simp add: view_entry_def f_def reached_file_def reached_handle_def look)
  moreover have "map_option (view_entry h') (map_of (table c) j) = map_option (view_entry h) (map_of (table c) j)" for j
    using old(1) by (cases "map_of (table c) j") (auto simp: view_entry_def dest: map_of_SomeD)
  moreover have "seen_file (with_descriptor c f) ss h' = seen_file c ss h1" by (rule seen_file_cong) (simp_all add: tab(2) h')
  ultimately have "file_view (with_descriptor c f) ss h' = V'"
    using False by (auto simp: file_view_def V'_def spec_open_def tab r(2) fun_eq_iff)
  then have "becomes c ss h (with_descriptor c f) h' V'"
    using entries quiet_host_then_same [OF r(1) h'(3)] by (simp add: becomes_def)
  moreover have "spec_open ?V n ?fl = (sint ?k, V')" using False by (auto simp: V'_def spec_open_def)
  ultimately show ?thesis using o by blast
qed

subsection \<open>Requests and accesses\<close>

lemma request_view:
  assumes v: "view_inv c ss h"
  shows "\<exists>x c' vm' h' V'. processFileRequest c ss vm h r = (x, c', vm', h') \<and> spec_request (file_view c ss h) vm r = (x, V', vm') \<and>
    becomes c ss h c' h' V'"
proof -
  consider (opn) "req_operation r = FILE_OPERATION_OPEN" | (cls) "req_operation r = FILE_OPERATION_CLOSE"
    | (rd) "req_operation r = FILE_OPERATION_READ" | (wr) "req_operation r = FILE_OPERATION_WRITE"
    | (sk) "req_operation r = FILE_OPERATION_LSEEK"
    | (none) "req_operation r \<notin> {FILE_OPERATION_OPEN, FILE_OPERATION_CLOSE, FILE_OPERATION_READ, FILE_OPERATION_WRITE, FILE_OPERATION_LSEEK}"
    by blast
  then show ?thesis
  proof cases
    case opn
    show ?thesis
    proof (cases "areValidOpenFlags (req_flags r) \<and> readGuestFileName vm (req_buffer r) \<noteq> None")
      case True
      then show ?thesis using opn open_view [OF v] by (fastforce simp: processFileRequest_def spec_request_def)
    next
      case False
      then show ?thesis using opn becomes_refl [OF v]
        by (auto simp: processFileRequest_def spec_request_def openFile_def split: option.split)
    qed
  next
    case cls
    then show ?thesis using close_view [OF v, of "req_descriptor r"]
      by (auto simp: processFileRequest_def spec_request_def file_operations)
  next
    case rd
    then show ?thesis using read_view [OF v rd, of vm] by (auto simp: processFileRequest_def spec_request_def file_operations)
  next
    case wr
    then show ?thesis using write_view [OF v wr, of vm] by (auto simp: processFileRequest_def spec_request_def file_operations)
  next
    case sk
    then show ?thesis using seek_view [OF v, of r] by (auto simp: processFileRequest_def spec_request_def file_operations)
  next
    case none
    then show ?thesis using becomes_refl [OF v] by (auto simp: processFileRequest_def spec_request_def)
  qed
qed

text \<open>The queue of answers changes nothing but the queue.\<close>

lemma pending_becomes:
  assumes "becomes c ss h c' h' V'"
  shows "becomes c ss h (c'\<lparr>fileState := (fileState c')\<lparr>pendingResults := q\<rparr>\<rparr>) h' (V'\<lparr>fs_pending := q\<rparr>)"
proof -
  let ?c = "c'\<lparr>fileState := (fileState c')\<lparr>pendingResults := q\<rparr>\<rparr>"
  have t: "table ?c = table c'" by (simp add: table_def)
  have "entry_view ?c ss h' f = entry_view c' ss h' f" for f by (rule entry_view_cong) simp_all
  moreover have "seen_file ?c ss h' = seen_file c' ss h'" by (rule seen_file_cong) simp_all
  then have "file_view ?c ss h' = (file_view c' ss h')\<lparr>fs_pending := q\<rparr>" by (simp add: file_view_def t)
  ultimately show ?thesis using assms by (auto simp: becomes_def t)
qed

lemma access_view:
  assumes v: "view_inv c ss h" and handle: "handleFileIo c ss vm h = (ok, c', vm', h')"
  shows "\<exists>V'. spec_access vm (file_view c ss h) = ((ok, vm'), V') \<and> becomes c ss h c' h' V'"
proof -
  let ?i = "io (run vm)" and ?V = "file_view c ss h"
  let ?data = "unat (io_data_offset ?i)"
  let ?a = "getGuestMemory vm (load32 (run_data (run vm)) ?data) file_request_size"
  show ?thesis
  proof (cases "io_port ?i \<noteq> FILE_IO_PORT \<or> io_size ?i \<noteq> 4 \<or> io_count ?i \<noteq> 1 \<or> \<not> data_in_mapping vm 4 \<or> io_direction ?i = Direction_Other")
    case True
    then show ?thesis using handle becomes_refl [OF v] by (auto simp: handleFileIo_def spec_access_def Let_def split: if_splits)
  next
    case False
    show ?thesis
    proof (cases "io_direction ?i = KVM_EXIT_IO_IN")
      case True
      define q where "q = butlast (pendingResults (fileState c))"
      have "c' = c\<lparr>fileState := (fileState c)\<lparr>pendingResults := q\<rparr>\<rparr>" "h' = h"
        using handle True False by (auto simp: handleFileIo_def Let_def q_def split: if_splits)
      moreover have "spec_access vm ?V = ((ok, vm'), ?V\<lparr>fs_pending := q\<rparr>)"
        using handle True False by (auto simp: handleFileIo_def spec_access_def Let_def q_def split: if_splits)
      ultimately show ?thesis using pending_becomes [OF becomes_refl [OF v]] by simp
    next
      case out: False
      then have dir: "io_direction ?i = KVM_EXIT_IO_OUT" using False by (cases "io_direction ?i") auto
      obtain x c1 h1 vm1 V1 where step: "(case ?a of None \<Rightarrow> (-1, c, vm, h) | Some a \<Rightarrow> processFileRequest c ss vm h (decode_request (mem vm) a)) = (x, c1, vm1, h1)"
          "(case ?a of None \<Rightarrow> (-1, ?V, vm) | Some a \<Rightarrow> spec_request ?V vm (decode_request (mem vm) a)) = (x, V1, vm1)"
          "becomes c ss h c1 h1 V1"
        using becomes_refl [OF v] request_view [OF v, of vm] by (cases ?a) (auto, metis)
      have "handleFileIo c ss vm h = (True, push_result c1 x, vm1, h1)"
        using False dir step(1) by (simp add: handleFileIo_def Let_def)
      moreover have "spec_access vm ?V = ((True, vm1), V1\<lparr>fs_pending := fs_pending V1 @ [word_of_int x]\<rparr>)"
        using False dir step(2) by (simp add: spec_access_def Let_def)
      moreover have "fs_pending V1 = pendingResults (fileState c1)" using step(3) by (auto simp: becomes_def)
      ultimately show ?thesis using handle pending_becomes [OF step(3)] by (auto simp: push_result_def)
    qed
  qed
qed

end
