(* ===== verification/File_Refinement.thy ===== *)
theory File_Refinement
  imports File_Views
begin

text \<open>
  The file service of all machines refines one file system of \<open>File_Spec\<close> per machine: over any
  interleaving of their accesses every machine gets the answers its own file system would give,
  so no machine can observe another one through its files.
\<close>

subsection \<open>Simulation\<close>

text \<open>The answers and the final state of a sequence of inputs.\<close>

fun run_outputs :: "('i \<Rightarrow> 's \<Rightarrow> 'o \<times> 's) \<Rightarrow> 'i list \<Rightarrow> 's \<Rightarrow> 'o list \<times> 's" where
  "run_outputs step [] s = ([], s)"
| "run_outputs step (x # xs) s = (let (y, s) = step x s; (ys, s) = run_outputs step xs s in (y # ys, s))"

text \<open>
  A machine that computes with \<open>step\<close> implements \<open>spec\<close> through \<open>view\<close>, as long as a budget
  lasts that every step may reduce by one.
\<close>

locale simulation =
  fixes inv :: "nat \<Rightarrow> 's \<Rightarrow> bool" and view :: "'s \<Rightarrow> 'a"
    and step :: "'i \<Rightarrow> 's \<Rightarrow> 'o \<times> 's" and spec :: "'i \<Rightarrow> 'a \<Rightarrow> 'o \<times> 'a"
  assumes step_view: "inv (Suc m) s \<Longrightarrow> step x s = (y, s') \<Longrightarrow> spec x (view s) = (y, view s') \<and> inv m s'"
begin

lemma run_view:
  "inv (length xs + m) s \<Longrightarrow> run_outputs step xs s = (ys, s') \<Longrightarrow> run_outputs spec xs (view s) = (ys, view s') \<and> inv m s'"
proof (induction xs arbitrary: s ys s')
  case (Cons x xs)
  obtain y s1 where s1: "step x s = (y, s1)" by fastforce
  obtain zs s2 where zs: "run_outputs step xs s1 = (zs, s2)" by fastforce
  have "spec x (view s) = (y, view s1)" "inv (length xs + m) s1" using step_view [OF _ s1] Cons.prems(1) by simp_all
  then show ?case using Cons.IH [OF _ zs] Cons.prems(2) s1 zs by simp
qed simp

end

subsection \<open>The service with its answers\<close>

definition serve_access :: "SharedState \<Rightarrow> nat \<times> vm \<Rightarrow> service \<Rightarrow> (bool \<times> vm) option \<times> service" where
  "serve_access ss rq s =
     (let (i, v) = rq; (cs, h) = s in
      if i < length cs then let (ok, c, v', h') = handleFileIo (cs ! i) ss v h in (Some (ok, v'), (cs[i := c], h'))
      else (None, s))"

definition spec_serve :: "nat \<times> vm \<Rightarrow> file_system list \<Rightarrow> (bool \<times> vm) option \<times> file_system list" where
  "spec_serve rq Vs =
     (let (i, v) = rq in if i < length Vs then let (y, V) = spec_access v (Vs ! i) in (Some y, Vs[i := V]) else (None, Vs))"

definition service_view :: "SharedState \<Rightarrow> service \<Rightarrow> file_system list" where
  "service_view ss s = (let (cs, h) = s in map (\<lambda>c. file_view c ss h) cs)"

definition shared_inodes :: "SharedState \<Rightarrow> host \<Rightarrow> nat set" where
  "shared_inodes ss h = {i. \<exists>n p. sharedFiles ss n = Some p \<and> h_names h p = Some i}"

definition views_inv :: "SharedState \<Rightarrow> nat set \<Rightarrow> nat \<Rightarrow> service \<Rightarrow> bool" where
  "views_inv ss S m s \<longleftrightarrow> (case s of (cs, h) \<Rightarrow>
     service_inv S (cs, h) \<and> shared_inodes ss h \<subseteq> S \<and> (\<forall>c\<in>set cs. view_inv c ss h \<and> int m \<le> opens_left c))"

subsection \<open>One access\<close>

lemma guest_inv_weaken: "guest_inv P c h \<Longrightarrow> guest_inv {} c h"
  by (auto simp: guest_inv_alt)

text \<open>The access of another machine changes nothing that a machine sees.\<close>

lemma other_view:
  assumes v: "view_inv d ss h" and q: "quiet_host c h h'" and "gid c \<noteq> gid d" and same: "same_view d h h'"
    and inv: "guest_inv {} d h'" and shd: "\<forall>i\<in>shared_inodes ss h. h_data h' i = h_data h i"
  shows "view_inv d ss h' \<and> file_view d ss h' = file_view d ss h"
proof -
  have ok: "host_ok h" and hv: "host_view (gid d) ss h" using v by (auto simp: view_inv_def guest_inv_alt)
  have own: "h_names h' (local_path (gid d) n) = h_names h (local_path (gid d) n)" for n
    using same by (simp add: same_view_def)
  have look: "fd_lookup h' (hostDescriptor f) = fd_lookup h (hostDescriptor f)" if "(k, f) \<in> set (table d)" for k f
    using same in_owners [OF that] unfolding same_view_def fds_def by blast
  have shared: "h_names h' p = h_names h p" "map_option (h_data h') (h_names h p) = map_option (h_data h) (h_names h p)"
    if s: "sharedFiles ss n = Some p" for n p
  proof -
    obtain i where i: "h_names h p = Some i" using host_view_shared(1) [OF hv s] by blast
    have "i \<in> shared_inodes ss h" using i s by (auto simp: shared_inodes_def)
    then show "h_names h' p = h_names h p" "map_option (h_data h') (h_names h p) = map_option (h_data h) (h_names h p)"
      using quiet_host_names(1) [OF q i] i shd by simp_all
  qed
  have "entry_view d ss h' f" if "(k, f) \<in> set (table d)" for k f
  proof -
    have "entry_view d ss h f" using v that by (auto simp: view_inv_def)
    then show ?thesis using look [OF that] own shared(1) [of "name f" "hostPath f"]
      by (cases "shared f") (auto simp: entry_view_def)
  qed
  then have "view_inv d ss h'"
    using v inv q quiet_host_view [OF q ok hv] by (auto simp: view_inv_def quiet_host_def)
  moreover have "seen_file d ss h' n = seen_file d ss h n" for n
  proof -
    have "h_data h' i = h_data h i" if "h_names h (local_path (gid d) n) = Some i" for i
      using same that local_path_own unfolding same_view_def belongings_def by blast
    then show ?thesis using own [of n] shared by (auto simp: seen_file_def split: option.split)
  qed
  moreover have "map_option (view_entry h') (map_of (table d) k) = map_option (view_entry h) (map_of (table d) k)" for k
    using look by (cases "map_of (table d) k") (auto simp: view_entry_def dest: map_of_SomeD)
  ultimately show ?thesis by (auto simp: file_view_def)
qed

lemma shared_inodes_quiet:
  assumes "view_inv c ss h" and q: "quiet_host c h h'"
  shows "shared_inodes ss h' = shared_inodes ss h"
proof -
  have "h_names h' p = h_names h p" if "sharedFiles ss n = Some p" for n p
    using host_view_shared(1) [OF _ that] quiet_host_names(1) [OF q] assms(1) by (fastforce simp: view_inv_def)
  then show ?thesis unfolding shared_inodes_def by (intro Collect_cong) metis
qed

text \<open>One machine does something that its own file system allows.\<close>

lemma service_view_step:
  assumes sv: "service_inv S (cs, h)" and sh: "shared_inodes ss h \<subseteq> S" and each: "\<And>c. c \<in> set cs \<Longrightarrow> view_inv c ss h"
    and i: "i < length cs" and becomes: "becomes (cs ! i) ss h c' h' V'" and step: "\<And>P. guest_step P (cs ! i) h c' h'" and num: "numbered c'"
  shows "service_inv S (cs[i := c'], h')" and "shared_inodes ss h' \<subseteq> S" and "\<And>c. c \<in> set (cs[i := c']) \<Longrightarrow> view_inv c ss h'"
    and "service_view ss (cs[i := c'], h') = (service_view ss (cs, h))[i := V']"
proof -
  have ci: "view_inv (cs ! i) ss h" using each i by simp
  have q: "quiet_host (cs ! i) h h'" using becomes by (simp add: becomes_def)
  note st = service_step [OF sv i step num]
  show "service_inv S (cs[i := c'], h')" by (rule st)
  show "shared_inodes ss h' \<subseteq> S" using shared_inodes_quiet [OF ci q] sh by simp
  have vi: "view_inv c' ss h'" by (rule view_inv_step [OF ci becomes step num])
  have other: "view_inv (cs ! j) ss h' \<and> file_view (cs ! j) ss h' = file_view (cs ! j) ss h" if j: "j < length cs" "j \<noteq> i" for j
  proof (rule other_view [OF _ q _ st(2) [OF j]])
    show "view_inv (cs ! j) ss h" using each j by simp
    show "gid (cs ! i) \<noteq> gid (cs ! j)" using sv i j by (auto simp: service_inv_def distinct_conv_nth)
    have "guest_inv (protected S (cs[i := c']) h' j) (cs ! j) h'" using st(1) j by (auto simp: service_inv_def)
    then show "guest_inv {} (cs ! j) h'" by (rule guest_inv_weaken)
    show "\<forall>k\<in>shared_inodes ss h. h_data h' k = h_data h k" using st(3) sh by blast
  qed
  show "view_inv c ss h'" if "c \<in> set (cs[i := c'])" for c
  proof -
    obtain j where j: "j < length cs" "c = cs[i := c'] ! j" using \<open>c \<in> set (cs[i := c'])\<close> by (auto simp: in_set_conv_nth)
    then show ?thesis using vi other [of j] by (cases "j = i") auto
  qed
  show "service_view ss (cs[i := c'], h') = (service_view ss (cs, h))[i := V']"
    by (rule nth_equalityI) (use becomes other i in \<open>auto simp: service_view_def becomes_def nth_list_update\<close>)
qed

lemma serve_access_view:
  assumes inv: "views_inv ss S (Suc m) s" and step: "serve_access ss rq s = (y, s')"
  shows "spec_serve rq (service_view ss s) = (y, service_view ss s') \<and> views_inv ss S m s'"
proof -
  obtain cs h where s: "s = (cs, h)" by (cases s)
  obtain i v where rq: "rq = (i, v)" by (cases rq)
  have sv: "service_inv S (cs, h)" and sh: "shared_inodes ss h \<subseteq> S"
    and each: "\<And>c. c \<in> set cs \<Longrightarrow> view_inv c ss h" and left: "\<And>c. c \<in> set cs \<Longrightarrow> int (Suc m) \<le> opens_left c"
    using inv by (auto simp: views_inv_def s)
  show ?thesis
  proof (cases "i < length cs")
    case False
    then show ?thesis using step inv by (force simp: serve_access_def spec_serve_def service_view_def s rq views_inv_def)
  next
    case i: True
    obtain ok c' v' h' where handle: "handleFileIo (cs ! i) ss v h = (ok, c', v', h')" by (cases "handleFileIo (cs ! i) ss v h")
    have out: "y = Some (ok, v')" "s' = (cs[i := c'], h')" using step handle i by (simp_all add: serve_access_def s rq)
    have ci: "cs ! i \<in> set cs" using i by simp
    obtain V' where V': "spec_access v (file_view (cs ! i) ss h) = ((ok, v'), V')" "becomes (cs ! i) ss h c' h' V'"
      using access_view [OF each [OF ci] handle] by blast
    have num: "numbered (cs ! i)" using sv i by (simp add: service_inv_def)
    note gs = guest_step_handle [OF handle num]
    have nb: "numbered c'" "int m \<le> opens_left c'" using numbering_numbered [OF gs(2) num] left [OF ci] by auto
    note st = service_view_step [OF sv sh each i V'(2) gs(1) nb(1)]
    have "int m \<le> opens_left c" if "c \<in> set (cs[i := c'])" for c
      using set_update_subset_insert [of cs i c'] that left nb(2) by fastforce
    then have "views_inv ss S m s'" using st(1-3) by (simp add: views_inv_def out(2))
    moreover have "spec_serve rq (service_view ss s) = (y, service_view ss s')"
      using V'(1) i st(4) by (simp add: spec_serve_def s rq out) (simp add: service_view_def)
    ultimately show ?thesis by blast
  qed
qed

interpretation service: simulation "views_inv ss S" "service_view ss" "serve_access ss" spec_serve for ss S
  by unfold_locales (rule serve_access_view)

subsection \<open>Each machine on its own\<close>

text \<open>What machine \<open>i\<close> asked for, and the answers it got.\<close>

definition requests_of :: "nat \<Rightarrow> (nat \<times> 'a) list \<Rightarrow> 'a list" where
  "requests_of i rqs = map snd (filter (\<lambda>rq. fst rq = i) rqs)"

definition answers_of :: "nat \<Rightarrow> (nat \<times> 'a) list \<Rightarrow> 'b option list \<Rightarrow> 'b list" where
  "answers_of i rqs ys = map (\<lambda>(rq, y). the y) (filter (\<lambda>(rq, y). fst rq = i) (zip rqs ys))"

lemma spec_serve_apart:
  "run_outputs spec_serve rqs Vs = (ys, Vs') \<Longrightarrow> i < length Vs \<Longrightarrow>
     run_outputs spec_access (requests_of i rqs) (Vs ! i) = (answers_of i rqs ys, Vs' ! i)"
proof (induction rqs arbitrary: Vs ys Vs')
  case Nil
  then show ?case by (simp add: requests_of_def answers_of_def)
next
  case (Cons rq rqs)
  obtain j v where rq: "rq = (j, v)" by (cases rq)
  obtain y Vs1 where s1: "spec_serve rq Vs = (y, Vs1)" by fastforce
  obtain zs Vs2 where zs: "run_outputs spec_serve rqs Vs1 = (zs, Vs2)" by fastforce
  have out: "ys = y # zs" "Vs' = Vs2" using Cons.prems(1) s1 zs by simp_all
  have "length Vs1 = length Vs" using s1 by (auto simp: spec_serve_def rq split: if_splits prod.splits)
  then have ih: "run_outputs spec_access (requests_of i rqs) (Vs1 ! i) = (answers_of i rqs zs, Vs2 ! i)"
    using Cons.IH [OF zs] Cons.prems(2) by simp
  show ?case
  proof (cases "j = i")
    case True
    obtain x V where "spec_access v (Vs ! i) = (x, V)" by fastforce
    then have "y = Some x" "Vs1 = Vs[i := V]" using s1 True Cons.prems(2) by (simp_all add: spec_serve_def rq)
    then show ?thesis
      using ih \<open>spec_access v (Vs ! i) = (x, V)\<close> True Cons.prems(2) by (simp add: requests_of_def answers_of_def rq out)
  next
    case False
    then have "Vs1 ! i = Vs ! i" using s1 by (auto simp: spec_serve_def rq split: if_splits prod.splits)
    then show ?thesis using ih False by (simp add: requests_of_def answers_of_def rq out)
  qed
qed

text \<open>
  The state the machines start in: nothing open, the shared files in place, and in the machines'
  directories only files of their own.
\<close>

definition ready :: "SharedState \<Rightarrow> service \<Rightarrow> bool" where
  "ready ss s \<longleftrightarrow> (case s of (cs, h) \<Rightarrow>
     booted (shared_inodes ss h) (cs, h) \<and> h_faults h = [] \<and> (\<forall>c\<in>set cs. host_view (gid c) ss h))"

lemma view_inv_booted:
  assumes b: "booted S (cs, h)" and "h_faults h = []" and "host_view (gid c) ss h" and c: "c \<in> set cs"
  shows "view_inv c ss h"
proof -
  obtain i where i: "i < length cs" "c = cs ! i" using c by (metis in_set_conv_nth)
  have "fileState c = initial_FileState" using b c unfolding booted_def by blast
  then have "table c = []" by (simp add: table_def initial_FileState_def)
  moreover have "guest_inv (protected S cs h i) c h" "numbered c"
    using service_inv_booted(1) [OF b] i by (simp_all add: service_inv_def)
  ultimately show ?thesis using assms guest_inv_weaken by (auto simp: view_inv_def)
qed

lemma views_inv_ready:
  assumes "ready ss (cs, h)" and "length rqs \<le> 2 ^ 31 - 4"
  shows "views_inv ss (shared_inodes ss h) (length rqs + 0) (cs, h)"
proof -
  have b: "booted (shared_inodes ss h) (cs, h)" "h_faults h = []" "\<And>c. c \<in> set cs \<Longrightarrow> host_view (gid c) ss h"
    using assms(1) by (auto simp: ready_def)
  note inv = service_inv_booted [OF b(1)]
  have "view_inv c ss h \<and> int (length rqs) \<le> opens_left c" if "c \<in> set cs" for c
    using view_inv_booted [OF b(1,2,3)] inv(2) that assms(2) by simp
  then show ?thesis using inv(1) by (auto simp: views_inv_def)
qed

lemma service_runs:
  assumes "ready ss (cs, h)" and "length rqs \<le> 2 ^ 31 - 4"
    and "run_outputs (serve_access ss) rqs (cs, h) = (ys, (cs', h'))" and "i < length cs"
  shows "run_outputs spec_access (requests_of i rqs) (file_view (cs ! i) ss h) = (answers_of i rqs ys, file_view (cs' ! i) ss h')"
proof -
  note run = service.run_view [OF views_inv_ready [OF assms(1,2)] assms(3)]
  have len: "length cs' = length cs"
  proof -
    have "length (fst (snd (run_outputs (serve_access ss) rqs s))) = length (fst s)" for rqs s
    proof (induction rqs arbitrary: s)
      case (Cons rq rqs)
      have "length (fst (snd (serve_access ss rq s))) = length (fst s)"
        by (cases s) (simp add: serve_access_def split: prod.split)
      then show ?case using Cons.IH by (simp add: case_prod_beta Let_def)
    qed simp
    from this [of rqs "(cs, h)"] show ?thesis using assms(3) by simp
  qed
  have "run_outputs spec_serve rqs (service_view ss (cs, h)) = (ys, service_view ss (cs', h'))" using run by blast
  from spec_serve_apart [OF this, of i] show ?thesis
    using assms(4) len by (simp add: service_view_def)
qed

subsection \<open>Properties\<close>

definition quiet_disk :: host where
  "quiet_disk = shared_disk\<lparr>h_faults := []\<rparr>"

lemma ready_two_machines: "ready one_shared_file (two_machines, quiet_disk)"
proof -
  have "inode_of quiet_disk d = None" for d by (simp add: inode_of_def fd_lookup_def quiet_disk_def shared_disk_def)
  moreover have names: "h_names quiet_disk = [''/srv/a'' \<mapsto> 0, local_path 1 ''b'' \<mapsto> 1]" by (simp add: quiet_disk_def shared_disk_def)
  moreover have srv: "''/srv/a'' \<noteq> local_path k n" "local_path k n \<noteq> ''/srv/a''" "vm_directory k \<noteq> ''/srv/a''" "''/srv/a'' \<notin> own_names k" for k n
    by (auto simp: local_path_def vm_directory_def own_names_def)
  moreover have dir: "vm_directory k \<noteq> local_path j n" "''vm_files'' \<noteq> local_path j n" for j k n
    using local_path_not_directory by metis+
  moreover have "shared_inodes one_shared_file quiet_disk = {0}"
    using srv by (auto simp: shared_inodes_def one_shared_file_def names)
  moreover have "host_view k one_shared_file quiet_disk" for k
    using srv dir local_path_not_directory by (auto simp: host_view_def names one_shared_file_def local_path_inj quiet_disk_def shared_disk_def split: if_splits)
  ultimately show ?thesis
    by (auto simp: ready_def booted_def two_machines_def host_ok_def initial_GuestContext_def local_path_inj
        quiet_disk_def shared_disk_def split: if_splits)
qed

text \<open>
  C7. Every machine has a file system of its own: from any boot state, over any interleaving of
  the machines' file accesses in which no host call fails, each machine gets exactly the answers
  that an ordinary file system would give it which starts with the shared files and the
  machine's old ones and which no one else uses, and what it sees in the end is that file
  system's final state. Where files are kept, when private copies are made and what the other
  machines do cannot be told from the answers.
\<close>

theorem machines_see_own_file_system:
  assumes "ready ss (cs, h)" and "length rqs \<le> 2 ^ 31 - 4" and "i < length cs"
    and "run_outputs (serve_access ss) rqs (cs, h) = (ys, (cs', h'))"
  shows "run_outputs spec_access (requests_of i rqs) (file_view (cs ! i) ss h) = (answers_of i rqs ys, file_view (cs' ! i) ss h')"
  by (rule service_runs [OF assms(1,2,4,3)])

theorem machines_see_own_file_system_witness:
  "\<exists>ys cs' h'. run_outputs (serve_access one_shared_file) [(0, open_exit), (1, open_exit)] (two_machines, quiet_disk) = (ys, (cs', h')) \<and>
     run_outputs spec_access [open_exit] (file_view (two_machines ! 1) one_shared_file quiet_disk) =
       (answers_of 1 [(0, open_exit), (1, open_exit)] ys, file_view (cs' ! 1) one_shared_file h')"
proof -
  let ?rqs = "[(0, open_exit), (1, open_exit)]"
  obtain ys cs' h' where r: "run_outputs (serve_access one_shared_file) ?rqs (two_machines, quiet_disk) = (ys, (cs', h'))"
    by (metis prod.exhaust)
  have "requests_of 1 ?rqs = [open_exit]" "1 < length two_machines" by (simp_all add: requests_of_def two_machines_def)
  then show ?thesis using machines_see_own_file_system [OF ready_two_machines _ _ r, of 1] r by auto
qed

text \<open>
  C14. No machine can observe another through its files: in two runs from the same boot state in
  which machine \<open>i\<close> makes the same accesses, it gets the same answers and sees the same files
  at the end, whatever the other machines do and however their accesses interleave, when no
  host call fails.
\<close>

theorem answers_independent_of_others:
  assumes "ready ss (cs, h)" and "i < length cs" and "requests_of i rqs1 = requests_of i rqs2"
    and "length rqs1 \<le> 2 ^ 31 - 4" and "run_outputs (serve_access ss) rqs1 (cs, h) = (ys1, (cs1, h1))"
    and "length rqs2 \<le> 2 ^ 31 - 4" and "run_outputs (serve_access ss) rqs2 (cs, h) = (ys2, (cs2, h2))"
  shows "answers_of i rqs1 ys1 = answers_of i rqs2 ys2 \<and> file_view (cs1 ! i) ss h1 = file_view (cs2 ! i) ss h2"
  using service_runs [OF assms(1,4,5,2)] service_runs [OF assms(1,6,7,2)] assms(3) by simp

theorem answers_independent_of_others_witness:
  "answers_of 0 [(0, open_exit)] (fst (run_outputs (serve_access one_shared_file) [(0, open_exit)] (two_machines, quiet_disk))) =
   answers_of 0 [(1, open_exit), (0, open_exit)]
     (fst (run_outputs (serve_access one_shared_file) [(1, open_exit), (0, open_exit)] (two_machines, quiet_disk)))"
proof -
  obtain ys1 cs1 h1 ys2 cs2 h2 where r: "run_outputs (serve_access one_shared_file) [(0, open_exit)] (two_machines, quiet_disk) = (ys1, (cs1, h1))"
      "run_outputs (serve_access one_shared_file) [(1, open_exit), (0, open_exit)] (two_machines, quiet_disk) = (ys2, (cs2, h2))"
    by (metis prod.exhaust)
  have "requests_of 0 [(0, open_exit)] = requests_of 0 [(1, open_exit), (0, open_exit)]" "0 < length two_machines"
    by (simp_all add: requests_of_def two_machines_def)
  then show ?thesis
    using answers_independent_of_others [OF ready_two_machines _ _ _ r(1) _ r(2), of 0] r by simp
qed

end
