(* ===== verification/Hypervisor_Views.thy ===== *)
theory Hypervisor_Views
  imports Hypervisor_Files File_Refinement
begin

text \<open>
  The file systems of the whole process: when the host's calls do not fail, what the machines of
  the process see of their files evolves machine by machine as \<open>File_Spec\<close> says, from the
  command line to the exit.
\<close>

subsection \<open>The machines' file systems\<close>

text \<open>
  What a machine does to its file system: it accesses it with an exit, or it ends. The answer
  to an access is the machine as it runs on; there is none when the access is refused, which
  ends the machine's thread.
\<close>

datatype file_action = Access vm | Close_All

type_synonym file_event = "file_action \<times> vm option"

fun spec_action :: "file_action \<Rightarrow> file_system \<Rightarrow> vm option \<times> file_system" where
  "spec_action (Access v) V = (let ((ok, v'), V') = spec_access v V in (if ok then Some v' else None, V'))"
| "spec_action Close_All V = (None, V\<lparr>fs_open := Map.empty\<rparr>)"

text \<open>The machine's own file system answers as the events say.\<close>

definition own_run :: "file_event list \<Rightarrow> file_system \<Rightarrow> file_system \<Rightarrow> bool" where
  "own_run es V V' \<longleftrightarrow> run_outputs spec_action (map fst es) V = (map snd es, V')"

lemma own_run_simps [simp]:
  "own_run [] V V' \<longleftrightarrow> V' = V"
  "own_run [(a, y)] V V' \<longleftrightarrow> spec_action a V = (y, V')"
  by (auto simp: own_run_def split: prod.split)

lemma run_outputs_append:
  "run_outputs step (xs @ ys) s = (let (zs, s) = run_outputs step xs s; (us, s) = run_outputs step ys s in (zs @ us, s))"
  by (induction xs arbitrary: s) (auto simp: Let_def split: prod.split)

lemma own_run_append: "own_run es V V1 \<Longrightarrow> own_run fs V1 V2 \<Longrightarrow> own_run (es @ fs) V V2"
  by (simp add: own_run_def run_outputs_append)

text \<open>Only the table of shared files matters of the state the machines share.\<close>

lemma seen_file_shared: "sharedFiles ss' = sharedFiles ss \<Longrightarrow> seen_file c ss' h = seen_file c ss h"
  by (rule ext) (simp add: seen_file_def split: option.split)

lemma file_view_shared: "sharedFiles ss' = sharedFiles ss \<Longrightarrow> file_view c ss' h = file_view c ss h"
  by (simp add: file_view_def seen_file_shared [of ss' ss])

lemma view_inv_shared: "sharedFiles ss' = sharedFiles ss \<Longrightarrow> view_inv c ss' h = view_inv c ss h"
  by (simp add: view_inv_def host_view_def entry_view_def)

lemma becomes_shared: "sharedFiles ss' = sharedFiles ss \<Longrightarrow> becomes c ss' h c' h' V = becomes c ss h c' h' V"
  by (simp add: becomes_def file_view_shared [of ss' ss] entry_view_def)

subsection \<open>What one action does to a machine's files\<close>

definition file_change :: "file_event list \<Rightarrow> GuestContext \<Rightarrow> SharedState \<Rightarrow> host \<Rightarrow> GuestContext \<Rightarrow> host \<Rightarrow> bool" where
  "file_change es c ss h c' h' \<longleftrightarrow> (\<exists>c1. gid c' = gid c1 \<and> fileState c' = fileState c1 \<and>
     ((\<exists>v ok v'. es = [(Access v, if ok then Some v' else None)] \<and> handleFileIo c ss v h = (ok, c1, v', h')) \<or>
      es = [] \<and> c1 = c \<and> h' = h \<or>
      es = [(Close_All, None)] \<and> c1 = c\<lparr>fileState := (fileState c)\<lparr>openFiles := []\<rparr>\<rparr> \<and> h' = close_all (table c) h))"

lemma file_change_then:
  "file_change es c ss h c1 (w_host w1) \<Longrightarrow> no_file_effect c1 w1 c2 w2 \<Longrightarrow> file_change es c ss h c2 (w_host w2)"
  unfolding file_change_def no_file_effect_def by metis

lemma file_change_none: "no_file_effect c w c' w' \<Longrightarrow> file_change [] c ss (w_host w) c' (w_host w')"
  unfolding file_change_def no_file_effect_def by metis

text \<open>The event of an access to a port.\<close>

definition port_events :: "vm \<Rightarrow> vm option \<Rightarrow> file_event list" where
  "port_events v answer = (if io_port (io (run v)) = FILE_IO_PORT then [(Access v, answer)] else [])"

lemma port_device_change:
  assumes "port_device (c, w) v = Done (ok, (c', w'), v')"
  shows "file_change (port_events v (if ok then Some v' else None)) c (w_shared w) (w_host w) c' (w_host w')"
proof (cases "io_port (io (run v)) = FILE_IO_PORT")
  case True
  then have "handleFileIo c (w_shared w) v (w_host w) = (ok, c', v', w_host w')"
    using assms by (auto simp: port_device_def Let_def file_device_def split: prod.splits)
  then show ?thesis using True unfolding file_change_def port_events_def by auto
next
  case False
  have "no_file_effect c w c' w'"
    using assms False
    by (auto simp: port_device_def Let_def shared_buffer_device_def serial_device_def set_buffer_def no_file_effect_def
        split: if_splits prod.splits outcome.splits dest: handleSerialIo_files handleSharedBufferIo_files)
  then show ?thesis using file_change_none False by (simp add: port_events_def)
qed

text \<open>The events of a move, from the phase of the thread before and after it.\<close>

fun running_on :: "phase \<Rightarrow> vm option" where
  "running_on (Active (Running v n)) = Some v"
| "running_on p = None"

fun file_events :: "phase \<Rightarrow> move \<Rightarrow> phase \<Rightarrow> file_event list" where
  "file_events (Active (Running v n)) (Event (Exited KVM_EXIT_IO i d m x)) p' = port_events (exited v KVM_EXIT_IO i d m) (running_on p')"
| "file_events p Finish p' = [(Close_All, None)]"
| "file_events p mv p' = []"

fun progress_vm :: "progress \<Rightarrow> vm option" where
  "progress_vm (Looping c v n w) = Some v"
| "progress_vm r = None"

fun event_events :: "vm \<Rightarrow> kvm_event \<Rightarrow> vm option \<Rightarrow> file_event list" where
  "event_events v (Exited KVM_EXIT_IO i d m x) answer = port_events (exited v KVM_EXIT_IO i d m) answer"
| "event_events v e answer = []"

lemma file_events_running: "file_events (Active (Running v n)) (Event e) p' = event_events v e (running_on p')"
  by (cases "(v, e, running_on p')" rule: event_events.cases) simp_all

lemma run_event_change:
  assumes "result_of (run_event strerror c v n w e) = Some (c', w')"
  shows "file_change (event_events v e (progress_vm (run_event strerror c v n w e))) c (w_shared w) (w_host w) c' (w_host w')"
proof (cases e)
  case (Run_Failed eintr err)
  then have "no_file_effect c w c' w'" using assms by (auto simp: run_event_def no_file_effect_def split: if_splits)
  then show ?thesis using file_change_none by (simp add: Run_Failed)
next
  case (Exited reason i d m answer)
  show ?thesis
  proof (cases "reason = KVM_EXIT_IO")
    case True
    obtain ok c1 w1 v1 where dev: "port_device (c, w) (exited v reason i d m) = Done (ok, (c1, w1), v1)"
      and r: "ok \<and> c' = c1 \<and> w' = w1 \<or>
        (\<exists>c2 w2. flush (c1, w1) = (c2, w2) \<and> c' = c2 \<and> w' = on_console (printError c2 ''Failed to handle an I/O exit'') w2)"
      and p: "progress_vm (run_event strerror c v n w e) = (if ok then Some v1 else None)"
      using assms True Exited by (auto simp: run_event_def split: outcome.splits prod.splits if_splits)
    have "no_file_effect c1 w1 c' w'"
      using r by (auto simp: no_file_effect_def dest!: flush_files)
    from file_change_then [OF port_device_change [OF dev] this] show ?thesis unfolding p by (simp add: Exited True)
  next
    case False
    then have "no_file_effect c w c' w'"
      using assms Exited
      by (auto simp: run_event_def Let_def no_file_effect_def split: exit_reason.splits prod.splits if_splits dest: flush_files)
    moreover have "event_events v e x = []" for x using False by (cases reason) (simp_all add: Exited)
    ultimately show ?thesis using file_change_none by simp
  qed
qed

lemma runGuest_step_change:
  assumes "runGuest_step strerror mv c w p = Some (c', p', w')"
  shows "file_change (file_events p mv p') c (w_shared w) (w_host w) c' (w_host w')"
  using assms
proof (cases rule: runGuest_step_cases)
  case (boot a)
  then show ?thesis using file_change_none [OF boot_machine_files] by simp
next
  case (loop e v n v' n')
  then show ?thesis using run_event_change [of strerror c v n w e c' w'] by (simp add: file_events_running)
next
  case (return e v n ok released)
  then show ?thesis using run_event_change [of strerror c v n w e c' w'] by (simp add: file_events_running)
next
  case (finish ok released)
  then have "gid c' = gid c" "fileState c' = (fileState c)\<lparr>openFiles := []\<rparr>" "w_host w' = close_all (table c) (w_host w)"
    by (auto simp: finish_guest_def Let_def closeGuestFiles_def set_openFiles_def table_def set_buffer_def split: if_splits)
  then show ?thesis using finish(1)
    unfolding file_change_def by (intro exI [of _ "c\<lparr>fileState := (fileState c)\<lparr>openFiles := []\<rparr>\<rparr>"]) simp
qed

lemma same_meta_close_all:
  "h_faults h = [] \<Longrightarrow> same_meta h (close_all t h) \<and> h_data (close_all t h) = h_data h"
proof (induction t arbitrary: h)
  case (Cons e t)
  obtain k f where e: "e = (k, f)" by (cases e)
  let ?h = "snd (os_close h (hostDescriptor f))"
  have "same_meta h ?h \<and> h_data ?h = h_data h \<and> h_faults ?h = []"
    using Cons.prems by (simp add: os_close_def take_fault_none same_meta_def)
  moreover from this have "same_meta ?h (close_all t ?h) \<and> h_data (close_all t ?h) = h_data ?h" by (intro Cons.IH) simp
  ultimately show ?case by (simp add: e same_meta_def)
qed (simp add: same_meta_def)

lemma file_change_view:
  assumes v: "view_inv c ss h" and "file_change es c ss h c' h'"
  shows "\<exists>V'. becomes c ss h c' h' V' \<and> own_run es (file_view c ss h) V'"
proof -
  obtain c1 where eq: "gid c' = gid c1" "fileState c' = fileState c1" and
    "(\<exists>x ok x'. es = [(Access x, if ok then Some x' else None)] \<and> handleFileIo c ss x h = (ok, c1, x', h')) \<or>
      es = [] \<and> c1 = c \<and> h' = h \<or>
      es = [(Close_All, None)] \<and> c1 = c\<lparr>fileState := (fileState c)\<lparr>openFiles := []\<rparr>\<rparr> \<and> h' = close_all (table c) h"
    using assms(2) unfolding file_change_def by blast
  then consider (access) x ok x' where "es = [(Access x, if ok then Some x' else None)]" "handleFileIo c ss x h = (ok, c1, x', h')"
    | (none) "es = []" "c1 = c" "h' = h"
    | (close) "es = [(Close_All, None)]" "c1 = c\<lparr>fileState := (fileState c)\<lparr>openFiles := []\<rparr>\<rparr>" "h' = close_all (table c) h" by blast
  then have "\<exists>V'. becomes c ss h c1 h' V' \<and> own_run es (file_view c ss h) V'"
  proof cases
    case access
    from access_view [OF v access(2)] show ?thesis by (auto simp: access(1))
  next
    case none
    then show ?thesis using becomes_refl [OF v] by simp
  next
    case close
    have faults: "h_faults h = []" using v by (simp add: view_inv_def)
    note m = same_meta_close_all [OF faults, of "table c"]
    have t: "table c1 = []" "fileState c1 = (fileState c)\<lparr>openFiles := []\<rparr>" "gid c1 = gid c" by (simp_all add: close(2) table_def)
    have "seen_file c1 ss h' = seen_file c ss h"
      by (rule seen_file_cong) (use m in \<open>simp_all add: close same_meta_def\<close>)
    then have "file_view c1 ss h' = (file_view c ss h)\<lparr>fs_open := Map.empty\<rparr>"
      using t by (simp add: file_view_def)
    then have "becomes c ss h c1 h' ((file_view c ss h)\<lparr>fs_open := Map.empty\<rparr>)"
      using m quiet_host_same [OF _ faults] t by (simp add: becomes_def close(3))
    then show ?thesis by (simp add: close(1))
  qed
  then obtain V' where V': "becomes c ss h c1 h' V'" "own_run es (file_view c ss h) V'" by blast
  have "table c' = table c1" by (simp add: table_def eq)
  moreover have "entry_view c' ss h' = entry_view c1 ss h'"
    by (rule ext) (rule entry_view_cong [OF refl refl eq(1)])
  moreover have "file_view c' ss h' = file_view c1 ss h'"
    using seen_file_cong [OF refl refl eq(1), of ss h'] \<open>table c' = table c1\<close> by (simp add: file_view_def eq(2))
  ultimately have "becomes c ss h c' h' V'" using V'(1) by (simp add: becomes_def)
  then show ?thesis using V'(2) by blast
qed

subsection \<open>The process\<close>

definition system_views :: "system \<Rightarrow> file_system list" where
  "system_views s = service_view (w_shared (sy_world s)) (sy_contexts s, w_host (sy_world s))"

text \<open>
  A run of the process with the file events of its machines, in order. Every run of the
  process is one.
\<close>

inductive files_run :: "(nat \<Rightarrow> string) \<Rightarrow> (nat \<times> file_event) list \<Rightarrow> system \<Rightarrow> system \<Rightarrow> bool" for strerror where
  start: "files_run strerror [] s s"
| main: "files_run strerror tr s s' \<Longrightarrow> main_step strerror x s' = Some s'' \<Longrightarrow> files_run strerror tr s s''"
| machine: "files_run strerror tr s s' \<Longrightarrow> (\<nexists>x. sy_main s' = Left x) \<Longrightarrow> i < length (sy_contexts s') \<Longrightarrow>
     machine_move strerror i mv s' = Some s'' \<Longrightarrow>
     files_run strerror (tr @ map (Pair i) (file_events (sy_phases s' ! i) mv (sy_phases s'' ! i))) s s''"

fun is_access :: "nat \<times> file_event \<Rightarrow> bool" where
  "is_access (i, Access v, answer) = True"
| "is_access (i, Close_All, answer) = False"

definition accesses_in :: "(nat \<times> file_event) list \<Rightarrow> nat" where
  "accesses_in tr = length (filter is_access tr)"

text \<open>In a step that happens, the label of \<open>Hypervisor\<close> counts the accesses.\<close>

lemma accesses_of_move:
  assumes "runGuest_step strerror mv c w p = Some (c', p', w')"
  shows "accesses_in (map (Pair i) (file_events p mv p')) = file_accesses mv"
  using assms
proof (cases rule: runGuest_step_cases)
  case (loop e v n v' n')
  then show ?thesis
    by (cases "(v, e, running_on p')" rule: event_events.cases)
      (simp_all add: file_events_running accesses_in_def port_events_def exited_def)
next
  case (return e v n ok released)
  then show ?thesis
    by (cases "(v, e, running_on p')" rule: event_events.cases)
      (simp_all add: file_events_running accesses_in_def port_events_def exited_def)
qed (simp_all add: accesses_in_def)

lemma accesses_in_append: "accesses_in (tr @ us) = accesses_in tr + accesses_in us"
  by (simp add: accesses_in_def)

lemma accesses_of_machine_move:
  assumes "machine_move strerror i mv s = Some s'" and "i < length (sy_phases s)"
  shows "accesses_in (map (Pair i) (file_events (sy_phases s ! i) mv (sy_phases s' ! i))) = file_accesses mv"
proof -
  obtain c p w where "runGuest_step strerror mv (sy_contexts s ! i) (sy_world s) (sy_phases s ! i) = Some (c, p, w)"
    "s' = put i c p w s" using assms(1) by (rule machine_moveD)
  then show ?thesis using accesses_of_move [of strerror mv "sy_contexts s ! i" "sy_world s" "sy_phases s ! i" c p w i] assms(2) by simp
qed

lemma files_run_system:
  "files_run strerror tr s s' \<Longrightarrow> main_inv s \<Longrightarrow> system_run strerror any_guest (accesses_in tr) s s' \<and> main_inv s'"
proof (induction rule: files_run.induct)
  case (start s)
  then show ?case using system_run.start by (simp add: accesses_in_def)
next
  case (main tr s s' x s'')
  then show ?case using system_run.more [of strerror any_guest "accesses_in tr" s s' 0 s''] system_step.main main_inv_main by fastforce
next
  case (machine tr s s' i mv s'')
  then have IH: "system_run strerror any_guest (accesses_in tr) s s'" "main_inv s'" by blast+
  then have i: "i < length (sy_phases s')" using machine.hyps(3) by (simp add: main_inv_def)
  have "system_step strerror any_guest (file_accesses mv) s' s''"
    using machine.hyps by (intro system_step.machine) (auto simp: any_guest_def)
  from system_run.more [OF IH(1) this] main_inv_step [OF this IH(2)] show ?case
    by (simp add: accesses_in_append accesses_of_machine_move [OF machine.hyps(4) i])
qed

lemma every_run_traced:
  "system_run strerror G n s s' \<Longrightarrow> main_inv s \<Longrightarrow> \<exists>tr. files_run strerror tr s s' \<and> accesses_in tr = n"
proof (induction rule: system_run.induct)
  case (start s)
  show ?case by (intro exI [of _ "[]"]) (simp add: accesses_in_def files_run.start)
next
  case (more n s s' k s'')
  then obtain tr where tr: "files_run strerror tr s s'" "accesses_in tr = n" by blast
  from more.hyps(2) show ?case
  proof (cases rule: system_step.cases)
    case (main x)
    then show ?thesis using files_run.main [OF tr(1)] tr(2) by auto
  next
    case (machine i mv)
    have i: "i < length (sy_phases s')" using machine(3) files_run_system [OF tr(1) more.prems] by (simp add: main_inv_def)
    from files_run.machine [OF tr(1) machine(2,3,5)] show ?thesis
      using tr(2) machine(1) accesses_of_machine_move [OF machine(5) i] by (auto simp: accesses_in_append)
  qed
qed

text \<open>Each machine's own file system makes its own events, with the same answers.\<close>

definition own_views :: "(nat \<times> file_event) list \<Rightarrow> file_system list \<Rightarrow> file_system list \<Rightarrow> bool" where
  "own_views tr Vs Vs' \<longleftrightarrow> length Vs' = length Vs \<and> (\<forall>i<length Vs. own_run (requests_of i tr) (Vs ! i) (Vs' ! i))"

lemma requests_of_own: "requests_of j (tr @ map (Pair i) es) = requests_of j tr @ (if j = i then es else [])"
  by (induction es) (auto simp: requests_of_def)

lemma own_views_step:
  assumes "own_views tr Vs Vs'" and "i < length Vs'" and "own_run es (Vs' ! i) V"
  shows "own_views (tr @ map (Pair i) es) Vs (Vs'[i := V])"
  using assms own_run_append unfolding own_views_def requests_of_own by (auto simp: nth_list_update)

definition system_views_inv :: "nat set \<Rightarrow> (nat \<times> file_event) list \<Rightarrow> file_system list \<Rightarrow> system \<Rightarrow> bool" where
  "system_views_inv S tr Vs s \<longleftrightarrow> (let ss = w_shared (sy_world s); h = w_host (sy_world s) in
     shared_inodes ss h \<subseteq> S \<and> (\<forall>c\<in>set (sy_contexts s). view_inv c ss h) \<and> own_views tr Vs (system_views s))"

lemma service_view_shared: "sharedFiles ss' = sharedFiles ss \<Longrightarrow> service_view ss' s = service_view ss s"
  by (cases s) (simp add: service_view_def file_view_shared [of ss' ss])

lemma system_views_inv_cong:
  assumes "sy_contexts s' = sy_contexts s" and "w_host (sy_world s') = w_host (sy_world s)"
    and "sharedFiles (w_shared (sy_world s')) = sharedFiles (w_shared (sy_world s))"
  shows "system_views_inv S tr Vs s' = system_views_inv S tr Vs s"
  using service_view_shared [OF assms(3)] view_inv_shared [OF assms(3)]
  by (simp add: system_views_inv_def system_views_def assms shared_inodes_def Let_def)

lemma system_views_main:
  "main_step strerror x s = Some s' \<Longrightarrow> system_views_inv S tr Vs s' = system_views_inv S tr Vs s"
  by (intro system_views_inv_cong main_step_files)

lemma system_views_machine:
  assumes move: "machine_move strerror i mv s = Some s'" and i: "i < length (sy_contexts s)"
    and files: "files_inv S tab cs0 h0 n s" and bound: "n + file_accesses mv \<le> 2 ^ 31 - 4"
    and inv: "system_views_inv S tr Vs s" and ph: "length (sy_phases s) = length (sy_contexts s)"
  shows "system_views_inv S (tr @ map (Pair i) (file_events (sy_phases s ! i) mv (sy_phases s' ! i))) Vs s'"
proof -
  let ?cs = "sy_contexts s" and ?h = "w_host (sy_world s)" and ?ss = "w_shared (sy_world s)" and ?k = "file_accesses mv"
  obtain c p w where r: "runGuest_step strerror mv (?cs ! i) (sy_world s) (sy_phases s ! i) = Some (c, p, w)"
    and s': "s' = put i c p w s" using move by (rule machine_moveD)
  have sv: "service_inv S (?cs, ?h)" and left: "2 ^ 31 - 4 - int n \<le> opens_left (?cs ! i)"
    using files i by (simp_all add: files_inv_def Let_def)
  have views: "shared_inodes ?ss ?h \<subseteq> S" "\<And>c. c \<in> set ?cs \<Longrightarrow> view_inv c ?ss ?h" "own_views tr Vs (system_views s)"
    using inv by (simp_all add: system_views_inv_def Let_def)
  have num: "numbered (?cs ! i)" using sv i by (simp add: service_inv_def)
  note f = runGuest_step_files [OF r num]
  have "?k = 0 \<or> 0 < opens_left (?cs ! i)" using left bound by (cases "?k = 0") auto
  then have num': "numbered c" by (rule file_effect_numbered(1) [OF f(1) num])
  have "view_inv (?cs ! i) ?ss ?h" using views(2) i by simp
  from file_change_view [OF this runGuest_step_change [OF r]]
  obtain V where V: "becomes (?cs ! i) ?ss ?h c (w_host w) V"
    "own_run (file_events (sy_phases s ! i) mv p) (file_view (?cs ! i) ?ss ?h) V" by blast
  have gs: "guest_step P (?cs ! i) ?h c (w_host w)" for P using f(1) by (simp add: file_effect_def)
  note st = service_view_step [OF sv views(1,2) i V(1) gs num']
  have sh: "sharedFiles (w_shared w) = sharedFiles ?ss" by (rule f(3))
  have len: "i < length (system_views s)" "system_views s ! i = file_view (?cs ! i) ?ss ?h"
    using i by (simp_all add: system_views_def service_view_def)
  have "system_views s' = (system_views s)[i := V]"
    using st(4) service_view_shared [OF sh] by (simp add: s' system_views_def)
  moreover have "sy_phases s' ! i = p" using i ph by (simp add: s')
  ultimately have "own_views (tr @ map (Pair i) (file_events (sy_phases s ! i) mv (sy_phases s' ! i))) Vs (system_views s')"
    using own_views_step [OF views(3) len(1)] V(2) len(2) by simp
  moreover have "shared_inodes (w_shared w) (w_host w) \<subseteq> S" using st(2) by (simp add: shared_inodes_def sh)
  ultimately show ?thesis using st(3) view_inv_shared [OF sh] by (simp add: system_views_inv_def s')
qed

lemma system_views_run:
  assumes "files_run strerror tr s s'" and "accesses_in tr \<le> 2 ^ 31 - 4" and "main_inv s" and "files_inv S tab cs0 h0 0 s"
    and "system_views_inv S [] Vs s"
  shows "system_views_inv S tr Vs s'"
  using assms
proof (induction rule: files_run.induct)
  case (main tr s s' x s'')
  then show ?case using system_views_main by blast
next
  case (machine tr s s' i mv s'')
  have "main_inv s'" and run: "system_run strerror any_guest (accesses_in tr) s s'"
    using files_run_system [OF machine.hyps(1) machine.prems(2)] by simp_all
  then have ph: "length (sy_phases s') = length (sy_contexts s')" by (simp add: main_inv_def)
  with machine.hyps(3) have a: "accesses_in (map (Pair i) (file_events (sy_phases s' ! i) mv (sy_phases s'' ! i))) = file_accesses mv"
    by (intro accesses_of_machine_move [OF machine.hyps(4)]) simp
  then have b: "accesses_in tr + file_accesses mv \<le> 2 ^ 31 - 4" using machine.prems(1) by (simp add: accesses_in_append)
  have "files_inv S tab cs0 h0 (accesses_in tr) s'" using files_inv_run [OF run _ machine.prems(2,3)] b by simp
  from system_views_machine [OF machine.hyps(4,3) this b machine.IH ph] show ?case using b machine.prems(2-4) by simp
qed

text \<open>
  The host as the machines of a configuration need it: no call fails, the shared files are in
  place, and the machines' directories hold only files of their own.
\<close>

definition host_quiet :: "path_answers \<Rightarrow> Config \<Rightarrow> host \<Rightarrow> bool" where
  "host_quiet fs cfg h \<longleftrightarrow> host_ok h \<and> h_faults h = [] \<and>
     (\<forall>k<length (guestImages cfg). host_view k (initial_SharedState\<lparr>sharedFiles := shared_table fs (cfg_sharedFiles cfg)\<rparr>) h)"

lemma host_quiet_prepared: "host_quiet fs cfg h \<Longrightarrow> host_prepared fs cfg h"
  by (fastforce simp: host_quiet_def host_prepared_def host_view_def ran_def)

lemma host_view_shared_table: "sharedFiles ss' = sharedFiles ss \<Longrightarrow> host_view k ss' h = host_view k ss h"
  by (simp add: host_view_def)

lemma system_views_begin:
  assumes created: "sy_main (main_begin fs program args h input) = Creating 0"
    and quiet: "host_quiet fs (config (co_result (parseArguments program args))) h"
  defines "s \<equiv> main_begin fs program args h input"
  defines "tab \<equiv> sharedFiles (w_shared (sy_world s))"
  shows "system_views_inv (original_inodes tab h) [] (system_views s) s"
proof -
  let ?cfg = "config (co_result (parseArguments program args))"
  note s = main_begin_created [OF created, folded s_def]
  have tab: "tab = shared_table fs (cfg_sharedFiles ?cfg)" using s(3) by (simp add: tab_def)
  note b = booted_begin [OF host_quiet_prepared [OF quiet], folded tab]
  have "view_inv c (w_shared (sy_world s)) h" if "c \<in> set (sy_contexts s)" for c
  proof (rule view_inv_booted [OF b])
    show "h_faults h = []" using quiet by (simp add: host_quiet_def)
    show "c \<in> set (guest_contexts ?cfg)" using that s(1) by simp
    then have "gid c < length (guestImages ?cfg)" by (auto simp: guest_contexts_def guest_context_def)
    then show "host_view (gid c) (w_shared (sy_world s)) h"
      using quiet host_view_shared_table [of "w_shared (sy_world s)" "initial_SharedState\<lparr>sharedFiles := tab\<rparr>"] s(3)
      by (simp add: host_quiet_def tab)
  qed
  moreover have "shared_inodes (w_shared (sy_world s)) h \<subseteq> original_inodes tab h"
    by (auto simp: shared_inodes_def original_inodes_def tab_def ran_def)
  moreover have "own_views [] (system_views s) (system_views s)" by (simp add: own_views_def requests_of_def)
  ultimately show ?thesis using s(2) by (simp add: system_views_inv_def)
qed

lemma no_machines_begin:
  "sy_main (main_begin fs program args h input) \<noteq> Creating 0 \<Longrightarrow> sy_contexts (main_begin fs program args h input) = []"
  by (auto simp: main_begin_def begun_def Let_def split: CliStatus.splits prod.splits if_splits)

subsection \<open>Properties\<close>

lemma demo_quiet: "host_quiet demo_paths (config (co_result (parseArguments ''vm'' demo_arguments))) quiet_disk"
proof -
  have r: "ready one_shared_file (two_machines, quiet_disk)" by (rule ready_two_machines)
  then have "host_ok quiet_disk" "h_faults quiet_disk = []" by (simp_all add: ready_def booted_def)
  moreover have "host_view k one_shared_file quiet_disk" if "k < 2" for k
  proof -
    have "k = 0 \<or> k = 1" using that by auto
    then show ?thesis using r by (auto simp: ready_def two_machines_def initial_GuestContext_def)
  qed
  ultimately show ?thesis by (simp add: host_quiet_def demo_parsed demo_table one_shared_file_def) (simp add: demo_config_def)
qed

text \<open>
  C5. The process gives each machine a file system of its own: in every run from the command
  line on, with any guests and any interleaving of the threads, if no host call fails, take a
  machine's own file accesses and its end, in their order. A file system of \<open>File_Spec\<close> that
  starts with what the machine sees at the start and does exactly these gives exactly the
  answers with which the machine ran on, and holds at the end exactly what the machine sees.
  The accesses of the other machines do not occur in it. (\<open>every_run_traced\<close>: every run of the
  process has such a trace of events.)
\<close>

theorem process_machines_have_own_files:
  assumes "files_run strerror tr (main_begin fs program args h input) s" and "accesses_in tr \<le> 2 ^ 31 - 4"
    and "host_quiet fs (config (co_result (parseArguments program args))) h"
    and "i < length (system_views (main_begin fs program args h input))"
  shows "length (system_views s) = length (system_views (main_begin fs program args h input)) \<and>
    run_outputs spec_action (map fst (requests_of i tr)) (system_views (main_begin fs program args h input) ! i) =
      (map snd (requests_of i tr), system_views s ! i)"
proof (cases "sy_main (main_begin fs program args h input) = Creating 0")
  case True
  note system_views_run [OF assms(1,2) main_inv_begin files_inv_begin(1) [OF True host_quiet_prepared [OF assms(3)]]
      system_views_begin [OF True assms(3)]]
  then show ?thesis using assms(4) by (simp add: system_views_inv_def Let_def own_views_def own_run_def)
next
  case False
  then have "sy_contexts (main_begin fs program args h input) = []" by (rule no_machines_begin)
  then show ?thesis using assms(4) by (simp add: system_views_def service_view_def)
qed

theorem process_machines_have_own_files_witness:
  "\<exists>tr s. files_run no_messages tr (main_begin demo_paths ''vm'' demo_arguments quiet_disk []) s \<and> accesses_in tr = 1 \<and>
     run_outputs spec_action (map fst (requests_of 0 tr)) (system_views (main_begin demo_paths ''vm'' demo_arguments quiet_disk []) ! 0) =
       (map snd (requests_of 0 tr), system_views s ! 0)"
proof -
  let ?s = "main_begin demo_paths ''vm'' demo_arguments quiet_disk []"
  obtain s where s: "system_run no_messages any_guest 1 ?s s"
    using demo_access by (auto simp: demo_begin_def)
  obtain tr where tr: "files_run no_messages tr ?s s" "accesses_in tr = 1" using every_run_traced [OF s main_inv_begin] by blast
  have "0 < length (system_views ?s)"
    using demo_context(2) demo_begin_created(1) [of quiet_disk, unfolded demo_begin_def] by (simp add: system_views_def service_view_def)
  then show ?thesis using process_machines_have_own_files [OF tr(1) _ demo_quiet, of 0] tr by auto
qed

end
