(* ===== verification/Guest_Views.thy ===== *)
theory Guest_Views
  imports Guest_Start Hypervisor_Views
begin

text \<open>
  The guest program over the file system of its machine: when the host's calls do not fail, a
  call of the file library does to what the guest sees of its files what \<open>File_Spec\<close> says,
  whether a file is the machine's own, a shared one, or becomes a copy on the way. The file
  test, the broadcast and the saving of a round follow on that level.
\<close>

subsection \<open>The library over the abstract file system\<close>

definition guest_files :: "guest \<Rightarrow> file_system" where
  "guest_files s = file_view (g_context s) (w_shared (g_world s)) (guest_host s)"

text \<open>The host's calls do not fail, and there are descriptor numbers for \<open>n\<close> calls.\<close>

definition able :: "nat \<Rightarrow> guest \<Rightarrow> bool" where
  "able n s \<longleftrightarrow> view_inv (g_context s) (w_shared (g_world s)) (guest_host s) \<and> int n \<le> opens_left (g_context s) \<and>
     0 \<le> sint (nextDescriptor (fileState (g_context s)))"

lemma able_less: "able n s \<Longrightarrow> m \<le> n \<Longrightarrow> able m s"
  by (simp add: able_def)

lemma reopenSharedFiles_context: "\<exists>fs. fst (snd (reopenSharedFiles c h n p)) = c\<lparr>fileState := fs\<rparr>"
proof -
  have same: "\<exists>fs. c = c\<lparr>fileState := fs\<rparr>" by (rule exI [of _ "fileState c"]) simp
  show ?thesis using same by (auto simp: reopenSharedFiles_def Let_def set_openFiles_def case_prod_beta split: option.split)
qed

lemma prepareFileForWrite_context: "\<exists>fs. fst (snd (prepareFileForWrite c h f)) = c\<lparr>fileState := fs\<rparr>"
proof -
  have same: "\<exists>fs. c = c\<lparr>fileState := fs\<rparr>" by (rule exI [of _ "fileState c"]) simp
  show ?thesis using same reopenSharedFiles_context [of c]
    by (auto simp: prepareFileForWrite_def Let_def case_prod_beta split: if_splits)
qed

lemma processFileRequest_context:
  assumes "processFileRequest c ss v h r = (x, c', v', h')"
  shows "\<exists>fs. c' = c\<lparr>fileState := fs\<rparr>"
proof -
  have same: "\<exists>fs. c = c\<lparr>fileState := fs\<rparr>" by (rule exI [of _ "fileState c"]) simp
  have opn: "\<exists>fs. fst (snd (openFile c ss v h r)) = c\<lparr>fileState := fs\<rparr>"
    using same by (auto simp: openFile_def Let_def case_prod_beta set_openFiles_def split: option.split)
  have cls: "\<exists>fs. fst (snd (closeFile c h k)) = c\<lparr>fileState := fs\<rparr>" for k
    using same by (auto simp: closeFile_def Let_def case_prod_beta set_openFiles_def split: option.split)
  have wr: "\<exists>fs. fst (snd (writeFile c v h r)) = c\<lparr>fileState := fs\<rparr>"
    using same prepareFileForWrite_context [of c h]
    by (auto simp: writeFile_def Let_def case_prod_beta split: option.split)
  show ?thesis
    using assms same opn cls [of "req_descriptor r"] wr
    by (auto simp: processFileRequest_def split: if_splits prod.splits)
qed

lemma submit_view:
  assumes "room sp s" and "able m s"
    and spec: "spec_request (guest_files s) (g_vm (poke sp (encode_request r) s)) r = (x, V', v')" and "n < m"
  shows "\<exists>s'. submit_file_request sp r s = Some (word_of_int x, s') \<and> guest_files s' = V' \<and> able n s' \<and> kept s s' \<and>
    mem (g_vm s') = mem v'"
proof -
  let ?c = "g_context s" and ?ss = "w_shared (g_world s)" and ?h = "guest_host s"
  have v: "view_inv ?c ?ss ?h" and left: "int (n + 1) \<le> opens_left ?c" using assms(2,4) by (simp_all add: able_def)
  then have num: "numbered ?c" by (simp add: view_inv_def)
  obtain c' h' where p: "processFileRequest ?c ?ss (g_vm (poke sp (encode_request r) s)) ?h r = (x, c', v', h')"
      and b: "becomes ?c ?ss ?h c' h' V'"
    using request_view [OF v, of "g_vm (poke sp (encode_request r) s)" r] spec by (auto simp: guest_files_def)
  note gs = guest_step_process [OF p num]
  have nb: "numbered c'" "int n \<le> opens_left c'" using numbering_numbered [OF gs(2) num] left by auto
  have "0 \<le> sint (nextDescriptor (fileState c'))"
    using gs(2) left assms(2) sint_succ [of "nextDescriptor (fileState ?c)"]
    by (auto simp: numbering_def able_def opens_left_def)
  have v': "view_inv c' ?ss h'" by (rule view_inv_step [OF v b gs(1) nb(1)])
  obtain s' where s': "submit_file_request sp r s = Some (word_of_int x, s')" "g_context s' = c'" "mem (g_vm s') = mem v'"
    "mem_size (g_vm s') = mem_size (g_vm s)" "mapping_size (g_vm s') = mapping_size (g_vm s)"
    "g_world s' = (g_world s)\<lparr>w_host := h'\<rparr>" by (rule submit_call [OF assms(1) p])
  have "kept s s'" using s' processFileRequest_context [OF p] by (auto simp: kept_def)
  moreover have "guest_files s' = V'" using s' b by (simp add: guest_files_def becomes_def)
  moreover have "able n s'" using s' v' nb(2) \<open>0 \<le> sint (nextDescriptor (fileState c'))\<close> by (simp add: able_def)
  ultimately show ?thesis using s'(1,3) by blast
qed

lemma submit_view_keeps:
  assumes "room sp s" and "able m s"
    and "spec_request (guest_files s) (g_vm (poke sp (encode_request r) s)) r = (x, V', g_vm (poke sp (encode_request r) s))" and "n < m"
  shows "\<exists>s'. submit_file_request sp r s = Some (word_of_int x, s') \<and> guest_files s' = V' \<and> able n s' \<and> kept s s' \<and> mem_kept sp s s'"
  using submit_view [OF assms] mem_kept_poke by blast

lemma view_open:
  assumes "room sp s" and "able m s" and "names_file sp a f s" and "areValidOpenFlags fl"
    and "fs_files (guest_files s) f \<noteq> None \<or> fl AND FILE_OPEN_CREATE \<noteq> 0" and "n < m"
  shows "\<exists>s'. guest_open sp a fl s = Some (fs_next (guest_files s), s') \<and>
    guest_files s' = snd (spec_open (guest_files s) f fl) \<and> able n s' \<and> kept s s' \<and> mem_kept sp s s'"
proof -
  let ?r = "no_request\<lparr>req_operation := FILE_OPERATION_OPEN, req_buffer := of_nat a, req_flags := fl\<rparr>"
  have "spec_request (guest_files s) (g_vm (poke sp (encode_request ?r) s)) ?r =
      (sint (fs_next (guest_files s)), snd (spec_open (guest_files s) f fl), g_vm (poke sp (encode_request ?r) s))"
    using assms(4,5) names_file_read [OF assms(3), of ?r] by (auto simp: spec_request_def spec_open_def)
  from submit_view_keeps [OF assms(1,2) this assms(6)] show ?thesis
    using assms(3) by (simp add: guest_open_def names_file_def apart_def)
qed

lemma view_close:
  assumes "room sp s" and "able m s" and "fs_open (guest_files s) k = Some e" and "n < m"
  shows "\<exists>s'. guest_close sp k s = Some (0, s') \<and>
    guest_files s' = (guest_files s)\<lparr>fs_open := (fs_open (guest_files s))(k := None)\<rparr> \<and> able n s' \<and> kept s s' \<and> mem_kept sp s s'"
proof -
  let ?r = "no_request\<lparr>req_operation := FILE_OPERATION_CLOSE, req_descriptor := k\<rparr>"
  have "spec_request (guest_files s) (g_vm (poke sp (encode_request ?r) s)) ?r =
      (0, (guest_files s)\<lparr>fs_open := (fs_open (guest_files s))(k := None)\<rparr>, g_vm (poke sp (encode_request ?r) s))"
    using assms(3) by (simp add: spec_request_def spec_close_def file_operations)
  from submit_view_keeps [OF assms(1,2) this assms(4)] show ?thesis by (simp add: guest_close_def)
qed

lemma view_seek:
  assumes "room sp s" and "able m s" and "fs_open (guest_files s) k = Some e" and "pos < 2 ^ 31" and "n < m"
  shows "\<exists>s'. guest_lseek sp k (of_nat pos) FILE_SEEK_SET s = Some (of_nat pos, s') \<and>
    guest_files s' = move_to k e pos (guest_files s) \<and> able n s' \<and> kept s s' \<and> mem_kept sp s s'"
proof -
  let ?r = "no_request\<lparr>req_operation := FILE_OPERATION_LSEEK, req_descriptor := k, req_offset := of_nat pos, req_flags := FILE_SEEK_SET\<rparr>"
  have "spec_request (guest_files s) (g_vm (poke sp (encode_request ?r) s)) ?r =
      (int pos, move_to k e pos (guest_files s), g_vm (poke sp (encode_request ?r) s))"
    using assms(3,4) sint_of_small [OF assms(4)] by (simp add: spec_request_def spec_seek_def file_operations)
  from submit_view_keeps [OF assms(1,2) this assms(5)] show ?thesis by (simp add: guest_lseek_def)
qed

lemma view_read:
  assumes "room sp s" and "able m s" and "fs_open (guest_files s) k = Some e" and "hasReadAccess (sf_flags e)"
    and "apart sp a cnt s" and "0 < cnt" and "cnt < 2 ^ 31" and "n < m"
  defines "bs \<equiv> take cnt (drop (sf_offset e) (content (guest_files s) e))"
  shows "\<exists>s'. guest_read sp k a (of_nat cnt) s = Some (of_nat (length bs), s') \<and>
    guest_files s' = move_to k e (sf_offset e + length bs) (guest_files s) \<and> able n s' \<and> kept s s' \<and>
    guest_bytes s' a (length bs) = bs \<and>
    (\<forall>b m. clear_of sp b m \<and> disjoint_areas a (length bs) b m \<longrightarrow> guest_bytes s' b m = guest_bytes s b m)"
proof -
  let ?r = "no_request\<lparr>req_operation := FILE_OPERATION_READ, req_descriptor := k, req_buffer := of_nat a, req_count := of_nat cnt\<rparr>"
  let ?v = "g_vm (poke sp (encode_request ?r) s)"
  have "spec_request (guest_files s) ?v ?r =
      (int (length bs), move_to k e (sf_offset e + length bs) (guest_files s), ?v\<lparr>mem := store_bytes (mem ?v) a bs\<rparr>)"
    using assms(3,4,6) sint_of_small [OF assms(7)] apart_memory(1) [OF assms(5), of ?r]
    by (simp add: spec_request_def spec_transfer_def spec_read_def file_operations bs_def Let_def)
  from submit_view [OF assms(1,2) this assms(8)] obtain s' where s': "submit_file_request sp ?r s = Some (word_of_int (int (length bs)), s')"
      "guest_files s' = move_to k e (sf_offset e + length bs) (guest_files s)" "able n s'" "kept s s'"
      "mem (g_vm s') = store_bytes (mem ?v) a bs" by auto
  have "guest_bytes s' b m = guest_bytes s b m" if "clear_of sp b m" "disjoint_areas a (length bs) b m" for b m
    using that s'(5) by (auto simp: poke_def clear_of_def disjoint_areas_def load_store_disjoint)
  moreover have "guest_read sp k a (of_nat cnt) s = Some (of_nat (length bs), s')"
    using s'(1) assms(5) by (simp add: guest_read_def apart_def)
  ultimately show ?thesis using s'(2-5) by (intro exI [of _ s']) simp
qed

lemma load_bytes_none: "load_bytes m a 0 = []"
  by (simp add: load_bytes_def)

lemma view_write:
  assumes "room sp s" and "able m s" and "fs_open (guest_files s) k = Some e" and "hasWriteAccess (sf_flags e)"
    and "apart sp a cnt s" and "cnt < 2 ^ 31"
    and "fs_files (guest_files s) (sf_name e) \<noteq> None" and "sf_offset e \<le> length (content (guest_files s) e)" and "n < m"
  shows "\<exists>s'. guest_write sp k a (of_nat cnt) s = Some (of_nat cnt, s') \<and>
    guest_files s' = spec_write (guest_files s) k e (guest_bytes s a cnt) \<and> able n s' \<and> kept s s' \<and> mem_kept sp s s'"
proof -
  let ?r = "no_request\<lparr>req_operation := FILE_OPERATION_WRITE, req_descriptor := k, req_buffer := of_nat a, req_count := of_nat cnt\<rparr>"
  let ?v = "g_vm (poke sp (encode_request ?r) s)" and ?V = "guest_files s"
  have "spec_write ?V k e [] = ?V"
    using assms(3,7,8) by (auto simp: spec_write_def move_to_def content_def patch_nothing map_upd_triv)
  then have "spec_request ?V ?v ?r = (int cnt, spec_write ?V k e (guest_bytes s a cnt), ?v)"
    using assms(3,4) sint_of_small [OF assms(6)] apart_memory [OF assms(5), of ?r]
    by (cases "cnt = 0") (simp_all add: spec_request_def spec_transfer_def file_operations Let_def load_bytes_none)
  from submit_view_keeps [OF assms(1,2) this assms(9)] show ?thesis
    using assms(5) by (simp add: guest_write_def apart_def)
qed

text \<open>What is fresh, and what printing keeps.\<close>

lemma able_fresh:
  assumes "able n s"
  shows "fs_open (guest_files s) (fs_next (guest_files s)) = None" and "0 \<le> sint (fs_next (guest_files s))"
  using assms numbered_fresh [of "g_context s"] by (simp_all add: able_def guest_files_def view_inv_def)

lemma printed_files:
  assumes "printed (g_context s) con s s'"
  shows "guest_files s' = guest_files s" and "able n s' = able n s" and "g_context s' = g_context s"
    and "mem (g_vm s') = mem (g_vm s)" and "mem_size (g_vm s') = mem_size (g_vm s)" and "mapping_size (g_vm s') = mapping_size (g_vm s)"
    and "w_shared (g_world s') = w_shared (g_world s)" and "w_console (g_world s') = con" and "guest_host s' = guest_host s"
  using assms by (auto simp: printed_def guest_files_def able_def mapping_size_def)

lemma poke_files [simp]: "guest_files (poke a bs s) = guest_files s" "able n (poke a bs s) = able n s"
  by (simp_all add: poke_def guest_files_def able_def)

text \<open>Memory outside the request at \<open>sp\<close> and the buffer at \<open>a\<close>.\<close>

definition mem_elsewhere :: "nat \<Rightarrow> nat \<Rightarrow> nat \<Rightarrow> guest \<Rightarrow> guest \<Rightarrow> bool" where
  "mem_elsewhere sp a n s s' \<longleftrightarrow>
     (\<forall>b m. clear_of sp b m \<and> disjoint_areas a n b m \<longrightarrow> guest_bytes s' b m = guest_bytes s b m)"

lemma mem_kept_elsewhere: "mem_kept sp s s' \<Longrightarrow> mem_elsewhere sp a n s s'"
  by (simp add: mem_kept_def mem_elsewhere_def)

lemma mem_elsewhere_trans: "mem_elsewhere sp a n s s1 \<Longrightarrow> mem_elsewhere sp a n s1 s2 \<Longrightarrow> mem_elsewhere sp a n s s2"
  by (simp add: mem_elsewhere_def)

lemma mem_elsewhere_less: "mem_elsewhere sp a n s s' \<Longrightarrow> n \<le> m \<Longrightarrow> mem_elsewhere sp a m s s'"
  by (auto simp: mem_elsewhere_def disjoint_areas_def)

lemma names_file_elsewhere:
  assumes "names_file sp b f s" and "mem_elsewhere sp' a n s s'" and "mem_size (g_vm s') = mem_size (g_vm s)"
    and "clear_of sp' b (length f + 1)" and "disjoint_areas a n b (length f + 1)"
  shows "names_file sp b f s'"
proof -
  have "clear_of sp' b (length f)" "disjoint_areas a n b (length f)" "clear_of sp' (b + length f) 1" "disjoint_areas a n (b + length f) 1"
    using assms(4,5) by (auto simp: clear_of_def disjoint_areas_def)
  then have "string_at s' b f" using assms(1,2) by (simp add: names_file_def string_at_def mem_elsewhere_def)
  then show ?thesis using assms(1,3) by (simp add: names_file_def apart_def)
qed

subsection \<open>The file test\<close>

definition held :: "file_system \<Rightarrow> string \<Rightarrow> u8 list" where
  "held V n = (case fs_files V n of None \<Rightarrow> [] | Some bs \<Rightarrow> bs)"

text \<open>What the test leaves of the guest's files.\<close>

definition after_test :: "file_system \<Rightarrow> file_system" where
  "after_test V = V\<lparr>fs_files := (fs_files V)(''guest.txt'' \<mapsto> patch (held V ''guest.txt'') 0 (bytes_of test_message)), fs_next := fs_next V + 1\<rparr>"

text \<open>Write, seek back, read and close on an open file that starts at offset 0.\<close>

lemma write_back_view:
  assumes "room sp s" and "able (n + 4) s" and e: "fs_open (guest_files s) k = Some e" "sf_offset e = 0" "hasReadAccess (sf_flags e)"
      "hasWriteAccess (sf_flags e)" "fs_files (guest_files s) (sf_name e) = Some d"
    and "apart sp a cnt s" and "apart sp b cnt s" and "guest_bytes s a cnt = bs" and "0 < cnt" and "cnt < 2 ^ 31"
  shows "\<exists>s1 s2 s3 s4. guest_write sp k a (of_nat cnt) s = Some (of_nat cnt, s1) \<and> guest_lseek sp k 0 FILE_SEEK_SET s1 = Some (0, s2) \<and>
    guest_read sp k b (of_nat cnt) s2 = Some (of_nat cnt, s3) \<and> guest_close sp k s3 = Some (0, s4) \<and>
    guest_files s4 = (guest_files s)\<lparr>fs_files := (fs_files (guest_files s))(sf_name e \<mapsto> patch d 0 bs),
      fs_open := (fs_open (guest_files s))(k := None)\<rparr> \<and>
    able n s4 \<and> kept s s4 \<and> guest_bytes s4 b cnt = bs \<and> mem_elsewhere sp b cnt s s4"
proof -
  let ?V = "guest_files s"
  have len: "length bs = cnt" using assms(10) by (metis length_load_bytes)
  have d: "content ?V e = d" using e(5) by (simp add: content_def)
  obtain s1 where s1: "guest_write sp k a (of_nat cnt) s = Some (of_nat cnt, s1)" "guest_files s1 = spec_write ?V k e bs"
      "able (n + 3) s1" "kept s s1" "mem_kept sp s s1"
    using view_write [OF assms(1,2) e(1,4) assms(8,12), of "n + 3"] assms(10) e(2,5) by auto
  have V1: "guest_files s1 = move_to k e cnt (?V\<lparr>fs_files := (fs_files ?V)(sf_name e \<mapsto> patch d 0 bs)\<rparr>)"
    using s1(2) len e(2) d by (simp add: spec_write_def)
  then have o1: "fs_open (guest_files s1) k = Some (e\<lparr>sf_offset := cnt\<rparr>)" by (simp add: move_to_def)
  obtain s2 where s2: "guest_lseek sp k 0 FILE_SEEK_SET s1 = Some (0, s2)" "guest_files s2 = move_to k (e\<lparr>sf_offset := cnt\<rparr>) 0 (guest_files s1)"
      "able (n + 2) s2" "kept s1 s2" "mem_kept sp s1 s2"
    using view_seek [OF room_kept [OF assms(1) s1(4)] s1(3) o1, of 0 "n + 2"] by auto
  have V2: "guest_files s2 = ?V\<lparr>fs_files := (fs_files ?V)(sf_name e \<mapsto> patch d 0 bs), fs_open := (fs_open ?V)(k \<mapsto> e\<lparr>sf_offset := 0\<rparr>)\<rparr>"
    by (simp add: s2(2) V1 move_to_def)
  have o2: "fs_open (guest_files s2) k = Some (e\<lparr>sf_offset := 0\<rparr>)" by (simp add: V2)
  have c2: "take cnt (drop (sf_offset (e\<lparr>sf_offset := 0\<rparr>)) (content (guest_files s2) (e\<lparr>sf_offset := 0\<rparr>))) = bs"
    by (simp add: V2 content_def patch_def len)
  have k2: "kept s s2" by (rule kept_trans [OF s1(4) s2(4)])
  obtain s3 where s3: "guest_read sp k b (of_nat cnt) s2 = Some (of_nat cnt, s3)"
      "guest_files s3 = move_to k (e\<lparr>sf_offset := 0\<rparr>) cnt (guest_files s2)" "able (n + 1) s3" "kept s2 s3"
      "guest_bytes s3 b cnt = bs" "mem_elsewhere sp b cnt s2 s3"
    using view_read [OF room_kept [OF assms(1) k2] s2(3) o2 _ apart_kept [OF assms(9) k2] assms(11,12), of "n + 1"] e(3)
    unfolding c2 len mem_elsewhere_def by auto
  have o3: "fs_open (guest_files s3) k = Some (e\<lparr>sf_offset := cnt\<rparr>)" by (simp add: s3(2) move_to_def)
  have k3: "kept s s3" by (rule kept_trans [OF k2 s3(4)])
  obtain s4 where s4: "guest_close sp k s3 = Some (0, s4)"
      "guest_files s4 = (guest_files s3)\<lparr>fs_open := (fs_open (guest_files s3))(k := None)\<rparr>" "able n s4" "kept s3 s4" "mem_kept sp s3 s4"
    using view_close [OF room_kept [OF assms(1) k3] s3(3) o3, of n] by auto
  have "guest_files s4 = ?V\<lparr>fs_files := (fs_files ?V)(sf_name e \<mapsto> patch d 0 bs), fs_open := (fs_open ?V)(k := None)\<rparr>"
    by (simp add: s4(2) s3(2) V2 move_to_def)
  moreover have "guest_bytes s4 b cnt = bs" using mem_keptD [OF s4(5) apart_kept [OF assms(9) k3]] s3(5) by simp
  moreover have "mem_elsewhere sp b cnt s s4"
    using mem_kept_elsewhere [OF s1(5)] mem_kept_elsewhere [OF s2(5)] s3(6) mem_kept_elsewhere [OF s4(5)]
    by (blast intro: mem_elsewhere_trans)
  ultimately show ?thesis
    using s1(1) s2(1) s3(1) s4(1,3) kept_trans [OF k3 s4(4)]
    by (intro exI [of _ s1] exI [of _ s2] exI [of _ s3] exI [of _ s4]) simp
qed

lemma test_file_io_calls:
  assumes ready: "test_ready L s" and able: "able (n + 5) s"
  shows "\<exists>s5. test_file_io L s = do { s \<leftarrow> print_bytes (bytes_of ''File content: '') s5; s \<leftarrow> print_string (tl_buffer L) s; cpu_outb 0xE9 10 s } \<and>
    guest_files s5 = after_test (guest_files s) \<and> able n s5 \<and> kept s s5 \<and> guest_bytes s5 (tl_buffer L) 15 = bytes_of test_message \<and>
    mem (g_vm s5) (tl_buffer L + 15) = 0 \<and> mem_elsewhere (tl_sp L) (tl_buffer L) 16 s s5"
proof -
  let ?sp = "tl_sp L" and ?fl = "FILE_OPEN_READ_WRITE OR FILE_OPEN_CREATE" and ?V = "guest_files s"
  let ?s0 = "poke (tl_buffer L + 15) [0] s" and ?msg = "bytes_of test_message" and ?k = "fs_next ?V" and ?d = "held ?V ''guest.txt''"
  have L: "room ?sp s" "names_file ?sp (tl_path L) ''guest.txt'' s" "apart ?sp (tl_message L) 15 s"
    "guest_bytes s (tl_message L) 15 = ?msg" "apart ?sp (tl_buffer L) 16 s"
    and dj: "disjoint_areas (tl_buffer L) 16 (tl_message L) 15" "disjoint_areas (tl_buffer L) 16 (tl_path L) (length ''guest.txt'' + 1)"
    using ready unfolding test_ready_def length_test_message Let_def by auto
  have nm: "names_file ?sp (tl_path L) ''guest.txt'' ?s0"
    by (rule names_file_poke [OF L(2)]) (use dj(2) in \<open>auto simp: disjoint_areas_def\<close>)
  have ap: "apart ?sp (tl_message L) 15 ?s0" "apart ?sp (tl_buffer L) 15 s" "clear_of ?sp (tl_buffer L + 15) 1"
    using L(3,5) by (auto simp: apart_def clear_of_def poke_def)
  have msg0: "guest_bytes ?s0 (tl_message L) 15 = ?msg"
    using L(4) poke_elsewhere [of "tl_buffer L + 15" "[0]" "tl_message L" 15 s] dj(1) by (auto simp: disjoint_areas_def)
  have z0: "guest_bytes ?s0 (tl_buffer L + 15) 1 = [0]" by (simp add: poke_def)
  define e where "e = \<lparr>sf_name = ''guest.txt'', sf_flags = ?fl, sf_offset = 0\<rparr>"
  have V1: "snd (spec_open ?V ''guest.txt'' ?fl) =
      ?V\<lparr>fs_files := (fs_files ?V)(''guest.txt'' \<mapsto> ?d), fs_open := (fs_open ?V)(?k \<mapsto> e), fs_next := ?k + 1\<rparr>"
    by (simp add: spec_open_def e_def held_def open_flags)
  have create: "?fl AND FILE_OPEN_CREATE \<noteq> 0" by (simp add: open_flags)
  obtain s1 where s1: "guest_open ?sp (tl_path L) ?fl ?s0 = Some (?k, s1)" "guest_files s1 = snd (spec_open ?V ''guest.txt'' ?fl)"
      "able (n + 4) s1" "kept ?s0 s1" "mem_kept ?sp ?s0 s1"
    using view_open [OF _ _ nm read_write_create(1) disjI2 [OF create], of "n + 5" "n + 4"] L(1) able by auto
  have o1: "fs_open (guest_files s1) ?k = Some e" "sf_offset e = 0" "hasReadAccess (sf_flags e)" "hasWriteAccess (sf_flags e)"
      "fs_files (guest_files s1) (sf_name e) = Some ?d"
    using read_write_create by (simp_all add: s1(2) V1 e_def)
  have k1: "kept s s1" using s1(4) by (simp add: kept_def)
  have m1: "guest_bytes s1 (tl_message L) 15 = ?msg" using mem_keptD [OF s1(5) ap(1)] msg0 by simp
  obtain s2 s3 s4 s5 where c: "guest_write ?sp ?k (tl_message L) (of_nat 15) s1 = Some (of_nat 15, s2)"
      "guest_lseek ?sp ?k 0 FILE_SEEK_SET s2 = Some (0, s3)" "guest_read ?sp ?k (tl_buffer L) (of_nat 15) s3 = Some (of_nat 15, s4)"
      "guest_close ?sp ?k s4 = Some (0, s5)"
      "guest_files s5 = (guest_files s1)\<lparr>fs_files := (fs_files (guest_files s1))(sf_name e \<mapsto> patch ?d 0 ?msg),
        fs_open := (fs_open (guest_files s1))(?k := None)\<rparr>"
      "able n s5" "kept s1 s5" "guest_bytes s5 (tl_buffer L) 15 = ?msg" "mem_elsewhere ?sp (tl_buffer L) 15 s1 s5"
    using write_back_view [OF room_kept [OF L(1) k1] s1(3) o1 apart_kept [OF L(3) k1] apart_kept [OF ap(2) k1] m1] by auto
  have "test_file_io L s = do { s \<leftarrow> print_bytes (bytes_of ''File content: '') s5; s \<leftarrow> print_string (tl_buffer L) s; cpu_outb 0xE9 10 s }"
    unfolding test_file_io_def length_test_message Let_def using s1(1) c(1-4) able_fresh(2) [OF able] by simp
  moreover have "guest_files s5 = after_test ?V"
    using able_fresh(1) [OF able] by (simp add: c(5) s1(2) V1 after_test_def e_def fun_upd_idem)
  moreover have "mem_elsewhere ?sp (tl_buffer L) 16 s ?s0"
    using poke_elsewhere [of "tl_buffer L + 15" "[0]" _ _ s] by (auto simp: mem_elsewhere_def disjoint_areas_def)
  from mem_elsewhere_trans [OF mem_elsewhere_trans [OF this mem_kept_elsewhere [OF s1(5)]] mem_elsewhere_less [OF c(9)]]
  have "mem_elsewhere ?sp (tl_buffer L) 16 s s5" by simp
  moreover have "disjoint_areas (tl_buffer L) 15 (tl_buffer L + 15) 1" by (simp add: disjoint_areas_def)
  then have "guest_bytes s5 (tl_buffer L + 15) 1 = [0]"
    using c(9) s1(5) z0 ap(3) unfolding mem_elsewhere_def mem_kept_def by metis
  then have "mem (g_vm s5) (tl_buffer L + 15) = 0" by (simp add: load_bytes_def)
  ultimately show ?thesis
    using c(6,8) kept_trans [OF k1 c(7)] by (intro exI [of _ s5]) simp
qed

subsection \<open>What else a step of the program leaves alone\<close>

text \<open>
  Of the machine and its context only the files' and the buffer's parts change, of the shared
  state only the buffer; \<open>con\<close> is the console afterwards.
\<close>

definition undisturbed :: "console \<Rightarrow> guest \<Rightarrow> guest \<Rightarrow> bool" where
  "undisturbed con s s' \<longleftrightarrow> mem_size (g_vm s') = mem_size (g_vm s) \<and> mapping_size (g_vm s') = mapping_size (g_vm s) \<and>
     gid (g_context s') = gid (g_context s) \<and> serialOutputBuffer (g_context s') = serialOutputBuffer (g_context s) \<and>
     sharedFiles (w_shared (g_world s')) = sharedFiles (w_shared (g_world s)) \<and> w_console (g_world s') = con"

lemma undisturbed_trans: "undisturbed con s s1 \<Longrightarrow> undisturbed con' s1 s2 \<Longrightarrow> undisturbed con' s s2"
  by (simp add: undisturbed_def)

lemma undisturbed_kept: "kept s s' \<Longrightarrow> undisturbed (w_console (g_world s)) s s'"
  using kept_context [of s s'] by (simp only: undisturbed_def kept_def simp_thms)

lemma undisturbed_printed: "printed (g_context s) con s s' \<Longrightarrow> undisturbed con s s'"
  by (auto simp: undisturbed_def printed_def mapping_size_def)

lemma shifted_undisturbed: "undisturbed (w_console (g_world s)) s (shifted s g b rn m)"
  by (simp add: undisturbed_def shifted_def set_buffer_def mapping_size_def)

lemma shifted_files: "guest_files (shifted s g b rn m) = guest_files s" "able n (shifted s g b rn m) = able n s"
proof -
  have sf: "sharedFiles (w_shared (set_buffer (g_world s) b)) = sharedFiles (w_shared (g_world s))" by (simp add: set_buffer_def)
  have c: "table ((g_context s)\<lparr>sharedBuffer := g\<rparr>) = table (g_context s)" by (simp add: table_def)
  have "seen_file ((g_context s)\<lparr>sharedBuffer := g\<rparr>) ss h = seen_file (g_context s) ss h" for ss h
    by (rule ext) (simp add: seen_file_def)
  then show "guest_files (shifted s g b rn m) = guest_files s"
    using file_view_shared [OF sf, of "g_context s"] c
    by (simp add: guest_files_def shifted_def file_view_def set_buffer_def)
  have "view_inv ((g_context s)\<lparr>sharedBuffer := g\<rparr>) ss h = view_inv (g_context s) ss h" for ss h
    using c by (simp add: view_inv_def guest_inv_alt numbered_def entry_view_def own_inv_def fds_def)
  then show "able n (shifted s g b rn m) = able n s"
    using view_inv_shared [OF sf, of "g_context s"] by (simp add: able_def shifted_def set_buffer_def opens_left_def)
qed

lemma received_shifted: "received a n s s' \<Longrightarrow> \<exists>g b rn m. s' = shifted s g b rn m"
  by (auto simp: received_def)

lemma received_elsewhere: "received a n s s' \<Longrightarrow> mem_elsewhere sp a n s s'"
  by (simp add: received_def mem_elsewhere_def)

lemma names_elsewhere_same:
  assumes "mem_elsewhere sp a n s s'" and "names_file sp b f s" and "mem_size (g_vm s') = mem_size (g_vm s)"
    and "disjoint_areas a n b (length f + 1)"
  shows "names_file sp b f s'"
  by (rule names_file_elsewhere [OF assms(2,1,3) _ assms(4)]) (use assms(2) in \<open>simp add: names_file_def apart_def\<close>)

lemma transfer_ready_elsewhere:
  assumes "transfer_ready L s" and "mem_elsewhere (xl_sp L) (xl_buffer L) (BUFFER_SIZE + 1) s s'"
    and "mem_size (g_vm s') = mem_size (g_vm s)" and "mapping_size (g_vm s') = mapping_size (g_vm s)"
  shows "transfer_ready L s'"
proof -
  have "names_file (xl_sp L) (xl_guest L) ''guest.txt'' s'" "names_file (xl_sp L) (xl_reader L) ''reader.txt'' s'"
    by (rule names_elsewhere_same [OF assms(2) _ assms(3)]; use assms(1) in \<open>simp add: transfer_ready_def Let_def\<close>)+
  then show ?thesis using assms(1,3,4) by (simp add: transfer_ready_def Let_def room_def apart_def)
qed

subsection \<open>The file test as a whole\<close>

lemma file_test_view:
  assumes "test_ready L s" and "able (n + 5) s" and "serialOutputBuffer (g_context s) = []"
  shows "\<exists>s'. test_file_io L s = Some s' \<and> guest_files s' = after_test (guest_files s) \<and> able n s' \<and>
    undisturbed (to_out (tagged_line s (''File content: '' @ test_message @ newline)) (w_console (g_world s))) s s' \<and>
    sharedBuffer (g_context s') = sharedBuffer (g_context s) \<and> w_shared (g_world s') = w_shared (g_world s) \<and>
    mem_elsewhere (tl_sp L) (tl_buffer L) 16 s s'"
proof -
  obtain s5 where s5: "test_file_io L s = do { s \<leftarrow> print_bytes (bytes_of ''File content: '') s5; s \<leftarrow> print_string (tl_buffer L) s; cpu_outb 0xE9 10 s }"
      "guest_files s5 = after_test (guest_files s)" "able n s5" "kept s s5" "guest_bytes s5 (tl_buffer L) 15 = bytes_of test_message"
      "mem (g_vm s5) (tl_buffer L + 15) = 0" "mem_elsewhere (tl_sp L) (tl_buffer L) 16 s s5"
    using test_file_io_calls [OF assms(1,2)] by blast
  have c: "1025 \<le> mapping_size (g_vm s5)" "serialOutputBuffer (g_context s5) = []" "tagged_line s5 l = tagged_line s l"
      "w_console (g_world s5) = w_console (g_world s)" for l
    using assms(1,3) s5(4) kept_context [OF s5(4)] by (simp_all add: test_ready_def Let_def room_def kept_def tagged_line_def)
  obtain s' where s': "do { s \<leftarrow> print_bytes (bytes_of ''File content: '') s5; s \<leftarrow> print_string (tl_buffer L) s; cpu_outb 0xE9 10 s } = Some s'"
      "printed (g_context s5) (to_out (tagged_line s (''File content: '' @ test_message @ newline)) (w_console (g_world s))) s5 s'"
    using content_line [OF c(1) s5(5,6) c(2)] unfolding c(3,4) by blast
  note p = printed_files [OF s'(2)]
  have "mem_elsewhere (tl_sp L) (tl_buffer L) 16 s s'" using s5(7) p(4) by (simp add: mem_elsewhere_def)
  moreover note undisturbed_trans [OF undisturbed_kept [OF s5(4)] undisturbed_printed [OF s'(2)]]
  moreover have "sharedBuffer (g_context s') = sharedBuffer (g_context s)" "w_shared (g_world s') = w_shared (g_world s)"
    using p(3,7) kept_context(3) [OF s5(4)] s5(4) by (simp_all add: kept_def)
  ultimately show ?thesis using s5(1-3) s'(1) p(1,2) by (intro exI [of _ s']) simp
qed

end
