(* ===== verification/Fleet_Rounds.thy ===== *)
theory Fleet_Rounds
  imports Broadcast
begin

text \<open>
  The round that the guest programs run, seen from the shared buffer: how far each machine is,
  and what the protocol's state is then, for one writer and any number of readers that advance
  in any order.
\<close>

datatype stage = Not_Started | Mode_Pending | Transfer_Pending | Readers_Awaited | Transferred | Left_Loop

definition has_mode :: "stage \<Rightarrow> bool" where
  "has_mode t \<longleftrightarrow> t \<notin> {Not_Started, Mode_Pending}"

definition has_sent :: "stage \<Rightarrow> bool" where
  "has_sent t \<longleftrightarrow> t \<in> {Readers_Awaited, Transferred, Left_Loop}"

definition is_done :: "stage \<Rightarrow> bool" where
  "is_done t \<longleftrightarrow> t \<in> {Transferred, Left_Loop}"

text \<open>The buffer when the writer is at \<open>t\<close>, and the part of machine \<open>i\<close> at \<open>t\<close> when the writer is at \<open>t0\<close>.\<close>

definition buffer_at :: "u8 list \<Rightarrow> stage \<Rightarrow> SharedBufferState \<Rightarrow> u8 list \<Rightarrow> bool" where
  "buffer_at bs t b snt \<longleftrightarrow> \<not> stopped b \<and> generation b = (if has_sent t then 1 else 0) \<and>
     (roundInProgress b \<longleftrightarrow> t = Readers_Awaited) \<and> (has_sent t \<longrightarrow> dataReady b \<and> snt = bs)"

definition part_at :: "stage \<Rightarrow> nat \<Rightarrow> stage \<Rightarrow> SharedBufferVmState \<Rightarrow> bool" where
  "part_at t0 i t g \<longleftrightarrow> (modeDelivered g \<longleftrightarrow> has_mode t) \<and>
     (i \<noteq> 0 \<longrightarrow> lastReadGeneration g = (if is_done t then 1 else 0) \<and> activeReadGeneration g = lastReadGeneration g \<and>
        t \<noteq> Readers_Awaited \<and> (is_done t \<longrightarrow> has_sent t0) \<and> (is_done t0 \<longrightarrow> is_done t))"

definition rounds_at :: "nat \<Rightarrow> u8 list \<Rightarrow> (nat \<Rightarrow> stage) \<Rightarrow> rounds \<Rightarrow> bool" where
  "rounds_at n bs st r \<longleftrightarrow> rounds_ok r \<and> length (machines r) = n \<and> buffer_at bs (st 0) (shbuf r) (sent r) \<and>
     (\<forall>i<n. part_at (st 0) i (st i) (part r i))"

lemma rounds_atD:
  assumes "rounds_at n bs st r"
  shows "rounds_ok r" "length (machines r) = n" "buffer_at bs (st 0) (shbuf r) (sent r)" "i < n \<Longrightarrow> part_at (st 0) i (st i) (part r i)"
  using assms by (auto simp: rounds_at_def)

lemma rounds_at_generation: "rounds_at n bs st r \<Longrightarrow> generation (shbuf r) \<noteq> - 1"
  by (simp add: rounds_at_def buffer_at_def)

text \<open>One machine goes on to \<open>t\<close>.\<close>

lemma rounds_at_go:
  assumes at: "rounds_at n bs st r" and i: "i < n" and "rounds_ok r'" and "length (machines r') = n"
    and parts: "\<And>j. j \<noteq> i \<Longrightarrow> part r' j = part r j"
    and own: "part_at (if i = 0 then t else st 0) i t (part r' i)" and buf: "buffer_at bs (if i = 0 then t else st 0) (shbuf r') (sent r')"
    and writer: "i = 0 \<Longrightarrow> (has_sent (st 0) \<longrightarrow> has_sent t) \<and> (is_done t \<longrightarrow> (\<forall>j\<in>{1..<n}. is_done (st j)))"
  shows "rounds_at n bs (st(i := t)) r'"
proof -
  have "part_at ((st(i := t)) 0) j ((st(i := t)) j) (part r' j)" if "j < n" for j
  proof (cases "j = i")
    case True
    then show ?thesis using own by simp
  next
    case False
    have "part_at (st 0) j (st j) (part r j)" by (rule rounds_atD(4) [OF at that])
    then have "part_at (if i = 0 then t else st 0) j (st j) (part r' j)"
      using parts [OF False] writer False that by (cases "i = 0") (auto simp: part_at_def)
    then show ?thesis using False by simp
  qed
  then show ?thesis using assms(3,4) buf by (simp add: rounds_at_def)
qed

lemma rounds_at_modes:
  assumes "rounds_at n bs st r"
  shows "0 < n" and "sb_mode (part r 0) = VM_MODE_WRITER" and "i \<in> {1..<n} \<Longrightarrow> sb_mode (part r i) = VM_MODE_READER"
  using assms by (auto simp: rounds_at_def rounds_ok_def round_inv_def writer_inv_def reader_inv_def)

text \<open>Nothing changes for the buffer when a program starts or ends.\<close>

lemma rounds_at_same:
  assumes at: "rounds_at n bs st r" and i: "i < n" and same: "has_mode t = has_mode (st i)" "has_sent t = has_sent (st i)"
    "is_done t = is_done (st i)" "t = Readers_Awaited \<longleftrightarrow> st i = Readers_Awaited"
  shows "rounds_at n bs (st(i := t)) r"
proof (rule rounds_at_go [OF at i rounds_atD(1,2) [OF at]])
  show "part_at (if i = 0 then t else st 0) i t (part r i)"
    using rounds_atD(4) [OF at i] same by (auto simp: part_at_def)
  show "buffer_at bs (if i = 0 then t else st 0) (shbuf r) (sent r)"
    using rounds_atD(3) [OF at] same by (auto simp: buffer_at_def)
  show "(has_sent (st 0) \<longrightarrow> has_sent t) \<and> (is_done t \<longrightarrow> (\<forall>j\<in>{1..<n}. is_done (st j)))" if "i = 0"
    using that same rounds_atD(4) [OF at] by (auto simp: part_at_def)
qed simp

lemma rounds_at_mode:
  assumes at: "rounds_at n bs st r" and i: "i < n" and st: "st i = Mode_Pending"
  defines "r' \<equiv> updated r i ((part r i)\<lparr>modeDelivered := True\<rparr>) (shbuf r) (sent r) (got r i)"
  shows "inb i SHARED_BUFFER_PORT r = Some (sb_mode (part r i), r')" and "rounds_at n bs (st(i := Transfer_Pending)) r'"
proof -
  have len: "length (machines r) = n" by (rule rounds_atD(2) [OF at])
  have off: "\<not> modeDelivered (part r i)" using rounds_atD(4) [OF at i] st by (simp add: part_at_def has_mode_def)
  show io: "inb i SHARED_BUFFER_PORT r = Some (sb_mode (part r i), r')"
    unfolding r'_def by (rule inb_mode [OF off])
  have "disciplined_step r r'"
    using io i len rounds_at_generation [OF at] by (auto simp: inb_def intro: port_try_step port_disciplined)
  then have ok: "rounds_ok r'" by (rule rounds_ok_step) (rule rounds_atD(1) [OF at])
  have eff: "part r' = (part r)(i := (part r i)\<lparr>modeDelivered := True\<rparr>)" "shbuf r' = shbuf r" "sent r' = sent r" "length (machines r') = n"
    using i len by (simp_all add: r'_def)
  have old: "part_at (st 0) i Mode_Pending (part r i)" using rounds_atD(4) [OF at i] st by simp
  show "rounds_at n bs (st(i := Transfer_Pending)) r'"
  proof (rule rounds_at_go [OF at i ok eff(4)])
    show "part_at (if i = 0 then Transfer_Pending else st 0) i Transfer_Pending (part r' i)"
      using old by (auto simp: eff part_at_def has_mode_def is_done_def)
    show "buffer_at bs (if i = 0 then Transfer_Pending else st 0) (shbuf r') (sent r')"
      using rounds_atD(3) [OF at] st by (cases "i = 0") (simp_all add: eff buffer_at_def has_sent_def)
  qed (use st in \<open>auto simp: eff has_sent_def is_done_def\<close>)
qed

lemma rounds_at_ready:
  assumes at: "rounds_at n bs st r" and "st 0 = Transfer_Pending"
  shows "ready_writer r" and "\<not> roundInProgress (shbuf r)"
  using rounds_at_modes(1,2) [OF at] rounds_atD(2,3) [OF at] rounds_atD(4) [OF at, of 0] assms(2) rounds_at_generation [OF at]
  by (auto simp: buffer_at_def part_at_def ready_writer_def has_mode_def)

lemma rounds_at_sent:
  assumes at: "rounds_at n bs st r" and st: "st 0 = Transfer_Pending" and sent: "round_sent r bs r'"
  shows "rounds_at n bs (st(0 := Readers_Awaited)) r'"
proof -
  have r': "dataReady (shbuf r')" "roundInProgress (shbuf r')" "\<not> stopped (shbuf r')" "sent r' = bs"
    "generation (shbuf r') = generation (shbuf r) + 1" "length (machines r') = length (machines r)"
    "part r' = (part r)(0 := (part r 0)\<lparr>writeGeneration := generation (shbuf r) + 1\<rparr>)" "disciplined_step\<^sup>*\<^sup>* r r'"
    using sent by (simp_all add: round_sent_def)
  have n: "0 < n" by (rule rounds_at_modes(1) [OF at])
  have len: "length (machines r') = n" using r'(6) rounds_atD(2) [OF at] by simp
  show ?thesis
  proof (rule rounds_at_go [OF at n rounds_ok_steps [OF r'(8) rounds_atD(1) [OF at]] len])
    show "part_at (if (0::nat) = 0 then Readers_Awaited else st 0) 0 Readers_Awaited (part r' 0)"
      using rounds_atD(4) [OF at n] st by (simp add: r'(7) part_at_def has_mode_def)
    show "buffer_at bs (if (0::nat) = 0 then Readers_Awaited else st 0) (shbuf r') (sent r')"
      using rounds_atD(3) [OF at] st r'(1-5) by (simp add: buffer_at_def has_sent_def)
  qed (simp_all add: r'(7) st has_sent_def is_done_def)
qed

lemma rounds_at_waiting:
  assumes at: "rounds_at n bs st r" and i: "i \<in> {1..<n}" and st: "st i = Transfer_Pending" "has_sent (st 0)"
  shows "waiting i r"
proof -
  have "part_at (st 0) i (st i) (part r i)" by (rule rounds_atD(4) [OF at]) (use i in simp)
  then show ?thesis
    using rounds_at_modes(3) [OF at i] rounds_atD(2,3) [OF at] i st
    by (simp add: waiting_def ready_reader_def part_at_def buffer_at_def has_mode_def is_done_def)
qed

lemma rounds_at_read:
  assumes at: "rounds_at n bs st r" and i: "i \<in> {1..<n}" and st: "st i = Transfer_Pending" "has_sent (st 0)"
  shows "\<exists>r'. read_shared_buffer i r = Some (Some (take BUFFER_SIZE bs), r') \<and> (\<forall>q. q \<noteq> i \<longrightarrow> part r' q = part r q) \<and>
    rounds_at n bs (st(i := Transferred)) r'"
proof -
  have w: "i \<in> {1..<length (machines r)}" "ready_reader i r" "lastReadGeneration (part r i) \<noteq> generation (shbuf r)"
    "activeReadGeneration (part r i) = lastReadGeneration (part r i)"
    using rounds_at_waiting [OF at i st] by (auto simp: waiting_def)
  have buf: "buffer_at bs (st 0) (shbuf r) (sent r)" by (rule rounds_atD(3) [OF at])
  then have sr: "sent r = bs" "generation (shbuf r) = 1" using st(2) by (simp_all add: buffer_at_def)
  obtain r' where r': "read_shared_buffer i r = Some (Some (take BUFFER_SIZE (sent r)), r')"
      "shbuf r' = notify_all ((shbuf r)\<lparr>completedReaders := completedReaders (shbuf r) + 1\<rparr>)" "sent r' = sent r"
      "\<forall>q. q \<noteq> i \<longrightarrow> part r' q = part r q" "length (machines r') = length (machines r)" "disciplined_step\<^sup>*\<^sup>* r r'"
      "modeDelivered (part r' i)" "lastReadGeneration (part r' i) = generation (shbuf r)" "activeReadGeneration (part r' i) = generation (shbuf r)"
    using read_shared_buffer_succeeds [OF rounds_atD(1) [OF at] w] by auto
  have n: "i < n" and len: "length (machines r') = n" using i r'(5) rounds_atD(2) [OF at] by simp_all
  have "rounds_at n bs (st(i := Transferred)) r'"
  proof (rule rounds_at_go [OF at n rounds_ok_steps [OF r'(6) rounds_atD(1) [OF at]] len])
    show "part_at (if i = 0 then Transferred else st 0) i Transferred (part r' i)"
      using i st(2) r'(7-9) sr by (simp add: part_at_def has_mode_def is_done_def)
    show "buffer_at bs (if i = 0 then Transferred else st 0) (shbuf r') (sent r')"
      using i buf r'(2,3) by (simp add: buffer_at_def)
  qed (use i r'(4) in auto)
  then show ?thesis using r'(1,4) sr(1) by auto
qed

text \<open>The round with all readers done, from the invariant of the protocol.\<close>

lemma rounds_at_acknowledged:
  assumes at: "rounds_at n bs st r" and st: "st 0 = Readers_Awaited"
  shows "completedReaders (shbuf r) = readerCount (shbuf r) \<longleftrightarrow> (\<forall>i\<in>{1..<n}. is_done (st i))"
    and "writeGeneration (part r 0) = 1" and "generation (shbuf r) = 1" and "dataReady (shbuf r)" and "\<not> stopped (shbuf r)"
    and "modeDelivered (part r 0)" and "sb_size (shbuf r) = min (length bs) BUFFER_SIZE"
proof -
  have buf: "buffer_at bs Readers_Awaited (shbuf r) (sent r)" and n: "0 < n" "length (machines r) = n"
    using rounds_atD(2,3) [OF at] rounds_at_modes(1) [OF at] st by simp_all
  then show b: "generation (shbuf r) = 1" "dataReady (shbuf r)" "\<not> stopped (shbuf r)" by (simp_all add: buffer_at_def has_sent_def)
  have sr: "sent r = bs" "roundInProgress (shbuf r)" using buf by (simp_all add: buffer_at_def has_sent_def)
  have inv: "round_inv 0 {1..<n} (part r) (shbuf r) bs (got r)" using rounds_atD(1) [OF at] n sr by (simp add: rounds_ok_def)
  then show "writeGeneration (part r 0) = 1" "sb_size (shbuf r) = min (length bs) BUFFER_SIZE"
    using b sr by (simp_all add: round_inv_def writer_inv_def data_inv_def)
  show "modeDelivered (part r 0)" using rounds_atD(4) [OF at n(1)] st by (simp add: part_at_def has_mode_def)
  let ?A = "acknowledged {1..<n} (part r) 1"
  have last: "lastReadGeneration (part r i) = (if is_done (st i) then 1 else 0)" if "i \<in> {1..<n}" for i
    using rounds_atD(4) [OF at, of i] that by (simp add: part_at_def)
  have "i \<in> {1..<n} \<and> lastReadGeneration (part r i) = 1 \<longleftrightarrow> i \<in> {1..<n} \<and> is_done (st i)" for i
  proof (cases "i \<in> {1..<n}")
    case True
    show ?thesis unfolding last [OF True] by simp
  qed blast
  then have A: "?A = {i \<in> {1..<n}. is_done (st i)}" unfolding acknowledged_def by (rule Collect_cong)
  then have sub: "?A \<subseteq> {1..<n}" by blast
  have "card ?A = card {1..<n} \<longleftrightarrow> ?A = {1..<n}" using card_subset_eq [OF finite_atLeastLessThan sub] by metis
  also have "\<dots> \<longleftrightarrow> (\<forall>i\<in>{1..<n}. is_done (st i))" unfolding A by blast
  finally show "completedReaders (shbuf r) = readerCount (shbuf r) \<longleftrightarrow> (\<forall>i\<in>{1..<n}. is_done (st i))"
    using inv b by (simp add: round_inv_def)
qed

lemma rounds_at_finish:
  assumes at: "rounds_at n bs st r" and st: "st 0 = Readers_Awaited" and all: "\<forall>i\<in>{1..<n}. is_done (st i)"
  shows "\<exists>r'. inl 0 SHARED_BUFFER_STATUS_PORT r = Some (of_nat (min (length bs) BUFFER_SIZE), r') \<and>
    (\<forall>q. q \<noteq> 0 \<longrightarrow> part r' q = part r q) \<and> rounds_at n bs (st(0 := Transferred)) r'"
proof -
  note k = rounds_at_acknowledged [OF at st]
  have n: "0 < n" and len: "length (machines r) = n" using rounds_at_modes(1) [OF at] rounds_atD(2) [OF at] by simp_all
  have w: "ready_writer r" using k rounds_at_modes(2) [OF at] n len by (auto simp: ready_writer_def)
  define r' where "r' = updated r 0 ((part r 0)\<lparr>writeGeneration := 0, transferCompleted := True\<rparr>)
    (notify_all ((shbuf r)\<lparr>roundInProgress := False\<rparr>)) (sent r) (got r 0)"
  have io: "inl 0 SHARED_BUFFER_STATUS_PORT r = Some (of_nat (min (length bs) BUFFER_SIZE), r')"
    unfolding r'_def k(7) [symmetric] by (rule inl_finish [OF w k(4)]) (use k all in simp_all)
  have "disciplined_step r r'"
    using io w by (auto simp: inl_def ready_writer_def intro: port_try_step disciplined_writer)
  then have ok: "rounds_ok r'" by (rule rounds_ok_step) (rule rounds_atD(1) [OF at])
  have eff: "part r' = (part r)(0 := (part r 0)\<lparr>writeGeneration := 0, transferCompleted := True\<rparr>)"
    "shbuf r' = notify_all ((shbuf r)\<lparr>roundInProgress := False\<rparr>)" "sent r' = sent r" "length (machines r') = n"
    using len n by (simp_all add: r'_def)
  have "rounds_at n bs (st(0 := Transferred)) r'"
  proof (rule rounds_at_go [OF at n ok eff(4)])
    show "part_at (if (0::nat) = 0 then Transferred else st 0) 0 Transferred (part r' 0)"
      using k(6) by (simp add: eff part_at_def has_mode_def)
    show "buffer_at bs (if (0::nat) = 0 then Transferred else st 0) (shbuf r') (sent r')"
      using rounds_atD(3) [OF at] st by (simp add: eff buffer_at_def has_sent_def)
  qed (use all in \<open>simp_all add: eff has_sent_def\<close>)
  then show ?thesis using io eff(1) by auto
qed

text \<open>What waits: a reader before the round is sent, the writer before all have read.\<close>

lemma rounds_at_blocked:
  assumes at: "rounds_at n bs st r"
  shows "i \<in> {1..<n} \<Longrightarrow> st i = Transfer_Pending \<Longrightarrow> \<not> has_sent (st 0) \<Longrightarrow>
      sharedBufferIo (part r i) (shbuf r) \<lparr>io_direction = KVM_EXIT_IO_IN, io_size = 4, io_port = SHARED_BUFFER_PORT, io_count = 1,
        io_data_offset = 1024\<rparr> m 1024 = Blocked"
    and "st 0 = Readers_Awaited \<Longrightarrow> \<exists>i\<in>{1..<n}. \<not> is_done (st i) \<Longrightarrow>
      sharedBufferIo (part r 0) (shbuf r) \<lparr>io_direction = KVM_EXIT_IO_IN, io_size = 4, io_port = SHARED_BUFFER_STATUS_PORT, io_count = 1,
        io_data_offset = 1024\<rparr> m 1024 = Blocked"
proof -
  show "sharedBufferIo (part r i) (shbuf r) \<lparr>io_direction = KVM_EXIT_IO_IN, io_size = 4, io_port = SHARED_BUFFER_PORT, io_count = 1,
        io_data_offset = 1024\<rparr> m 1024 = Blocked"
    if "i \<in> {1..<n}" "st i = Transfer_Pending" "\<not> has_sent (st 0)"
    using rounds_atD(3) [OF at] rounds_atD(4) [OF at, of i] that rounds_at_modes(3) [OF at that(1)]
    by (simp add: buffer_at_def part_at_def has_mode_def is_done_def sharedBufferIo_def beginReaderRound_def shared_buffer_consts)
  assume st: "st 0 = Readers_Awaited" and "\<exists>i\<in>{1..<n}. \<not> is_done (st i)"
  then show "sharedBufferIo (part r 0) (shbuf r) \<lparr>io_direction = KVM_EXIT_IO_IN, io_size = 4, io_port = SHARED_BUFFER_STATUS_PORT,
      io_count = 1, io_data_offset = 1024\<rparr> m 1024 = Blocked"
    using rounds_at_acknowledged [OF at st] rounds_at_modes(2) [OF at]
    by (simp add: sharedBufferIo_def finishWriterRound_def shared_buffer_consts)
qed

lemma rounds_at_start:
  assumes "configured ms b"
  shows "rounds_at (length ms) bs (\<lambda>_. Not_Started) (start_rounds ms b)"
  using assms rounds_ok_start [OF assms]
  by (auto simp: rounds_at_def buffer_at_def part_at_def configured_def start_rounds_def part_def initial_SharedBufferState_def
      initial_SharedBufferVmState_def has_mode_def has_sent_def is_done_def)

end
