(* ===== verification/Guest_Sharing.thy ===== *)
theory Guest_Sharing
  imports Guest_Views Fleet_Rounds
begin

text \<open>
  The transfers of the guest program over the file system of its machine: the broadcast of
  \<^verbatim>\<open>guest.txt\<close>, the saving of a round in \<^verbatim>\<open>reader.txt\<close> and the mode interrupt, each with
  everything it leaves alone.
\<close>

subsection \<open>The file parts\<close>

definition numbered_next :: "file_system \<Rightarrow> file_system" where
  "numbered_next V = V\<lparr>fs_next := fs_next V + 1\<rparr>"

lemma load_view:
  assumes ready: "transfer_ready L s" and able: "able (n + 3) s" and given: "fs_files (guest_files s) ''guest.txt'' = Some d"
  defines "bs \<equiv> take (BUFFER_SIZE + 1) d" and "k \<equiv> fs_next (guest_files s)"
  shows "\<exists>s1 s2 s3. guest_open (xl_sp L) (xl_guest L) FILE_OPEN_READ s = Some (k, s1) \<and>
    guest_read (xl_sp L) k (xl_buffer L) (of_nat (BUFFER_SIZE + 1)) s1 = Some (of_nat (length bs), s2) \<and>
    guest_close (xl_sp L) k s2 = Some (0, s3) \<and> guest_bytes s3 (xl_buffer L) (length bs) = bs \<and> kept s s3 \<and>
    guest_files s3 = numbered_next (guest_files s) \<and> able n s3 \<and> mem_elsewhere (xl_sp L) (xl_buffer L) (BUFFER_SIZE + 1) s s3"
proof -
  let ?sp = "xl_sp L" and ?V = "guest_files s"
  have L: "room ?sp s" "names_file ?sp (xl_guest L) ''guest.txt'' s" "apart ?sp (xl_buffer L) (BUFFER_SIZE + 1) s"
    using ready by (simp_all add: transfer_ready_def Let_def)
  define e where "e = \<lparr>sf_name = ''guest.txt'', sf_flags = FILE_OPEN_READ, sf_offset = 0\<rparr>"
  have V1: "snd (spec_open ?V ''guest.txt'' FILE_OPEN_READ) = ?V\<lparr>fs_open := (fs_open ?V)(k \<mapsto> e), fs_next := k + 1\<rparr>"
    using given by (simp add: spec_open_def e_def k_def map_upd_triv)
  obtain s1 where s1: "guest_open ?sp (xl_guest L) FILE_OPEN_READ s = Some (k, s1)"
      "guest_files s1 = snd (spec_open ?V ''guest.txt'' FILE_OPEN_READ)" "able (n + 2) s1" "kept s s1" "mem_kept ?sp s s1"
    using view_open [OF L(1) able L(2) read_flags(1), of "n + 2"] given unfolding k_def by auto
  have e1: "fs_open (guest_files s1) k = Some e" "hasReadAccess (sf_flags e)"
      "take (BUFFER_SIZE + 1) (drop (sf_offset e) (content (guest_files s1) e)) = bs"
    using given read_flags(2) by (simp_all add: s1(2) V1 e_def content_def bs_def)
  have sz: "0 < BUFFER_SIZE + 1" "BUFFER_SIZE + 1 < 2 ^ 31" "length bs \<le> BUFFER_SIZE + 1" by (simp_all add: BUFFER_SIZE_def bs_def)
  obtain s2 where s2: "guest_read ?sp k (xl_buffer L) (of_nat (BUFFER_SIZE + 1)) s1 = Some (of_nat (length bs), s2)"
      "guest_files s2 = move_to k e (sf_offset e + length bs) (guest_files s1)" "able (n + 1) s2" "kept s1 s2"
      "guest_bytes s2 (xl_buffer L) (length bs) = bs" "mem_elsewhere ?sp (xl_buffer L) (length bs) s1 s2"
    using view_read [OF room_kept [OF L(1) s1(4)] s1(3) e1(1,2) apart_kept [OF L(3) s1(4)] sz(1,2), of "n + 1"]
    unfolding e1(3) mem_elsewhere_def by auto
  have k2: "kept s s2" by (rule kept_trans [OF s1(4) s2(4)])
  have o2: "fs_open (guest_files s2) k = Some (e\<lparr>sf_offset := sf_offset e + length bs\<rparr>)" by (simp add: s2(2) move_to_def)
  obtain s3 where s3: "guest_close ?sp k s2 = Some (0, s3)"
      "guest_files s3 = (guest_files s2)\<lparr>fs_open := (fs_open (guest_files s2))(k := None)\<rparr>" "able n s3" "kept s2 s3" "mem_kept ?sp s2 s3"
    using view_close [OF room_kept [OF L(1) k2] s2(3) o2, of n] by auto
  have "fs_open ?V k = None" using able_fresh(1) [OF able] by (simp add: k_def)
  then have "guest_files s3 = numbered_next ?V"
    by (simp add: s3(2) s2(2) s1(2) V1 move_to_def numbered_next_def k_def fun_upd_idem)
  moreover have "guest_bytes s3 (xl_buffer L) (length bs) = bs"
    using mem_keptD [OF s3(5) apart_less [OF apart_kept [OF L(3) k2] sz(3)]] s2(5) by simp
  moreover have "mem_elsewhere ?sp (xl_buffer L) (BUFFER_SIZE + 1) s s3"
    by (rule mem_elsewhere_trans [OF mem_elsewhere_trans [OF mem_kept_elsewhere [OF s1(5)]
        mem_elsewhere_less [OF s2(6) sz(3)]] mem_kept_elsewhere [OF s3(5)]])
  ultimately show ?thesis
    using s1(1) s2(1) s3(1,3) kept_trans [OF k2 s3(4)] by (intro exI [of _ s1] exI [of _ s2] exI [of _ s3]) simp
qed

text \<open>What saving a round leaves of the reader's files.\<close>

definition after_save :: "u8 list \<Rightarrow> file_system \<Rightarrow> file_system" where
  "after_save bs V = V\<lparr>fs_files := (fs_files V)(''reader.txt'' \<mapsto> patch (held V ''reader.txt'') 0 bs), fs_next := fs_next V + 1\<rparr>"

lemma save_view:
  assumes "room (xl_sp L) s" and "names_file (xl_sp L) (xl_reader L) ''reader.txt'' s" and "apart (xl_sp L) (xl_buffer L) cnt s"
    and "cnt < 2 ^ 31" and bs: "guest_bytes s (xl_buffer L) cnt = bs" and able: "able (n + 4) s"
  shows "\<exists>s'. save_received L (of_nat cnt) s = Some (True, s') \<and> kept s s' \<and> guest_files s' = after_save bs (guest_files s) \<and>
    able n s' \<and> mem_kept (xl_sp L) s s'"
proof -
  let ?sp = "xl_sp L" and ?fl = "FILE_OPEN_WRITE OR FILE_OPEN_CREATE" and ?V = "guest_files s" and ?k = "fs_next (guest_files s)"
  let ?d = "held ?V ''reader.txt''"
  define e where "e = \<lparr>sf_name = ''reader.txt'', sf_flags = ?fl, sf_offset = 0\<rparr>"
  have len: "length bs = cnt" using bs by (metis length_load_bytes)
  have V1: "snd (spec_open ?V ''reader.txt'' ?fl) =
      ?V\<lparr>fs_files := (fs_files ?V)(''reader.txt'' \<mapsto> ?d), fs_open := (fs_open ?V)(?k \<mapsto> e), fs_next := ?k + 1\<rparr>"
    by (simp add: spec_open_def e_def held_def open_flags)
  have create: "?fl AND FILE_OPEN_CREATE \<noteq> 0" by (simp add: open_flags)
  obtain s1 where s1: "guest_open ?sp (xl_reader L) ?fl s = Some (?k, s1)" "guest_files s1 = snd (spec_open ?V ''reader.txt'' ?fl)"
      "able (n + 3) s1" "kept s s1" "mem_kept ?sp s s1"
    using view_open [OF assms(1) able assms(2) read_flags(4) disjI2 [OF create], of "n + 3"] by auto
  have o1: "fs_open (guest_files s1) ?k = Some e" by (simp add: s1(2) V1)
  obtain s2 where s2: "guest_lseek ?sp ?k 0 FILE_SEEK_SET s1 = Some (0, s2)" "guest_files s2 = move_to ?k e 0 (guest_files s1)"
      "able (n + 2) s2" "kept s1 s2" "mem_kept ?sp s1 s2"
    using view_seek [OF room_kept [OF assms(1) s1(4)] s1(3) o1, of 0 "n + 2"] by auto
  have V2: "guest_files s2 = guest_files s1" using o1 by (simp add: s2(2) move_to_def e_def map_upd_triv)
  have k2: "kept s s2" by (rule kept_trans [OF s1(4) s2(4)])
  have e2: "fs_open (guest_files s2) ?k = Some e" "hasWriteAccess (sf_flags e)" "fs_files (guest_files s2) (sf_name e) \<noteq> None"
      "sf_offset e \<le> length (content (guest_files s2) e)" "content (guest_files s2) e = ?d" "guest_bytes s2 (xl_buffer L) cnt = bs"
    using o1 read_flags(5) mem_keptD [OF mem_kept_trans [OF s1(5) s2(5)] assms(3)] bs
    by (simp_all add: V2) (simp_all add: s1(2) V1 e_def content_def)
  obtain s3 where s3: "guest_write ?sp ?k (xl_buffer L) (of_nat cnt) s2 = Some (of_nat cnt, s3)"
      "guest_files s3 = spec_write (guest_files s2) ?k e bs" "able (n + 1) s3" "kept s2 s3" "mem_kept ?sp s2 s3"
    using view_write [OF room_kept [OF assms(1) k2] s2(3) e2(1,2) apart_kept [OF assms(3) k2] assms(4) e2(3,4), of "n + 1"]
    unfolding e2(6) by auto
  have k3: "kept s s3" by (rule kept_trans [OF k2 s3(4)])
  have o3: "fs_open (guest_files s3) ?k = Some (e\<lparr>sf_offset := sf_offset e + cnt\<rparr>)"
    by (simp add: s3(2) spec_write_def move_to_def len)
  obtain s4 where s4: "guest_close ?sp ?k s3 = Some (0, s4)"
      "guest_files s4 = (guest_files s3)\<lparr>fs_open := (fs_open (guest_files s3))(?k := None)\<rparr>" "able n s4" "kept s3 s4" "mem_kept ?sp s3 s4"
    using view_close [OF room_kept [OF assms(1) k3] s3(3) o3, of n] by auto
  have "guest_files s4 = after_save bs ?V"
    using able_fresh(1) [OF able] e2(5)
    by (simp add: s4(2) s3(2) spec_write_def V2 move_to_def) (simp add: s1(2) V1 after_save_def e_def fun_upd_idem)
  moreover have "save_received L (of_nat cnt) s = Some (True, s4)"
    using s1(1) s2(1) s3(1) s4(1) able_fresh(2) [OF able] by (simp add: save_received_def)
  moreover have "mem_kept ?sp s s4"
    using mem_kept_trans [OF mem_kept_trans [OF s1(5) s2(5)] mem_kept_trans [OF s3(5) s4(5)]] .
  ultimately show ?thesis using s4(3) kept_trans [OF k3 s4(4)] by blast
qed

subsection \<open>The transfers\<close>

lemma buffer_only_effects:
  assumes "buffer_only s s'"
  shows "guest_files s' = guest_files s" and "able n s' = able n s" and "undisturbed (w_console (g_world s)) s s'"
    and "mem (g_vm s') = mem (g_vm s)" and "guest_host s' = guest_host s"
  using assms shifted_files shifted_undisturbed by (auto simp: buffer_only_def) (simp add: shifted_def set_buffer_def)

lemma received_effects:
  assumes "received a n s s'"
  shows "guest_files s' = guest_files s" and "able m s' = able m s" and "undisturbed (w_console (g_world s)) s s'"
  using received_shifted [OF assms] shifted_files shifted_undisturbed by auto

lemma broadcast_view:
  assumes ready: "transfer_ready L s" and able: "able (n + 3) s" and given: "fs_files (guest_files s) ''guest.txt'' = Some d"
    and r: "linked 0 r s" "ready_writer r" "\<not> roundInProgress (shbuf r)"
  defines "bs \<equiv> take (BUFFER_SIZE + 1) d"
  shows "\<exists>s' r'. broadcast_file L s = Some (of_nat (length bs), 0, s') \<and> linked 0 r' s' \<and> round_sent r bs r' \<and>
    guest_files s' = numbered_next (guest_files s) \<and> able n s' \<and> undisturbed (w_console (g_world s)) s s' \<and>
    mem_elsewhere (xl_sp L) (xl_buffer L) (BUFFER_SIZE + 1) s s'"
proof -
  let ?k = "fs_next (guest_files s)"
  obtain s1 s2 s3 where s3: "guest_open (xl_sp L) (xl_guest L) FILE_OPEN_READ s = Some (?k, s1)"
      "guest_read (xl_sp L) ?k (xl_buffer L) (of_nat (BUFFER_SIZE + 1)) s1 = Some (of_nat (length bs), s2)"
      "guest_close (xl_sp L) ?k s2 = Some (0, s3)" "guest_bytes s3 (xl_buffer L) (length bs) = bs" "kept s s3"
      "guest_files s3 = numbered_next (guest_files s)" "able n s3" "mem_elsewhere (xl_sp L) (xl_buffer L) (BUFFER_SIZE + 1) s s3"
    using load_view [OF ready able given] unfolding bs_def by blast
  have len: "length bs < 2 ^ 31" by (simp add: bs_def BUFFER_SIZE_def)
  obtain s4 s5 r' where s5: "cpu_outl SHARED_BUFFER_PORT (of_nat (length bs)) s3 = Some s4" "send_from (xl_buffer L) (length bs) s4 = Some s5"
      "linked 0 r' s5" "round_sent r bs r'" "buffer_only s3 s5"
    using send_round [OF kept_linked [OF r(1) s3(5)] r(2,3) s3(4) len] by blast
  note eff = buffer_only_effects [OF s5(5)]
  have "broadcast_file L s = Some (of_nat (length bs), 0, s5)"
    unfolding broadcast_file_def using s3(1-3) s5(1,2) able_fresh(2) [OF able] bytes_counted_nat [OF len] by simp
  moreover have "mem_elsewhere (xl_sp L) (xl_buffer L) (BUFFER_SIZE + 1) s s5" using s3(8) eff(4) by (simp add: mem_elsewhere_def)
  ultimately show ?thesis
    using s5(3,4) s3(5-7) eff(1,2) undisturbed_trans [OF undisturbed_kept [OF s3(5)] eff(3)]
    by (intro exI [of _ s5] exI [of _ r']) (simp add: kept_def)
qed

lemma await_view:
  assumes "linked 0 r s" and "inl 0 SHARED_BUFFER_STATUS_PORT r = Some (of_nat (min (length bs) BUFFER_SIZE), r')" and "length bs < 2 ^ 31"
  shows "\<exists>s'. await_readers (of_nat (length bs)) 0 s = Some (True, s') \<and> linked 0 r' s' \<and> buffer_only s s'"
proof -
  obtain s' where s': "cpu_inl SHARED_BUFFER_STATUS_PORT s = Some (of_nat (min (length bs) BUFFER_SIZE), s')" "linked 0 r' s'" "buffer_only s s'"
    using inl_linked [OF assms(1) _ assms(2)] by blast
  have "min (length bs) BUFFER_SIZE < 2 ^ 32" by (simp add: BUFFER_SIZE_def)
  then have "unat (of_nat (min (length bs) BUFFER_SIZE) :: u32) = min (length bs) BUFFER_SIZE" by (simp add: unat_of_nat)
  then have "await_readers (of_nat (length bs)) 0 s = Some (True, s')"
    using s'(1) bytes_counted_nat [OF assms(3)] sint_of_small [OF assms(3)] by (simp add: await_readers_def Let_def min_def)
  then show ?thesis using s'(2,3) by blast
qed

lemma reader_view:
  assumes ready: "transfer_ready L s" and able: "able (n + 4) s" and r: "linked i r s" "read_shared_buffer i r = Some (Some bs, r')"
    and len: "length bs \<le> BUFFER_SIZE"
  shows "\<exists>s'. guest_read_shared_buffer L s = Some (True, s') \<and> linked i r' s' \<and> guest_files s' = after_save bs (guest_files s) \<and>
    able n s' \<and> undisturbed (w_console (g_world s)) s s' \<and> mem_elsewhere (xl_sp L) (xl_buffer L) (BUFFER_SIZE + 1) s s'"
proof -
  obtain s1 s2 s3 x where p: "cpu_inl SHARED_BUFFER_PORT s = Some (x, s1)" "unat x \<le> BUFFER_SIZE" "unat x = length bs"
      "receive_into (xl_buffer L) (length bs) s1 = Some s2" "cpu_outl SHARED_BUFFER_STATUS_PORT x s2 = Some s3" "linked i r' s3"
      "guest_bytes s3 (xl_buffer L) (length bs) = bs" "received (xl_buffer L) (length bs) s s3"
    using receive_round [OF r(2,1), of "xl_buffer L"] by blast
  note keeps = received_keeps [OF p(8)] and eff = received_effects [OF p(8)]
  have len': "length bs \<le> BUFFER_SIZE + 1" "length bs < 2 ^ 31" using len by (simp_all add: BUFFER_SIZE_def)
  have L: "room (xl_sp L) s3" "apart (xl_sp L) (xl_buffer L) (length bs) s3"
    using ready len'(1) unfolding keeps by (auto simp: transfer_ready_def Let_def intro: apart_less)
  have nm: "names_file (xl_sp L) (xl_reader L) ''reader.txt'' s3"
    by (rule received_names [OF received_part [OF p(8), of "xl_buffer L" "BUFFER_SIZE + 1"]])
      (use ready len'(1) in \<open>simp_all add: transfer_ready_def Let_def\<close>)
  have "able (n + 4) s3" using able by (simp only: eff)
  from save_view [OF L(1) nm L(2) len'(2) p(7) this] obtain s' where s': "save_received L (of_nat (length bs)) s3 = Some (True, s')"
      "kept s3 s'" "guest_files s' = after_save bs (guest_files s3)" "able n s'" "mem_kept (xl_sp L) s3 s'" by blast
  have "x = of_nat (length bs)" unfolding p(3) [symmetric] by simp
  then have "guest_read_shared_buffer L s = Some (True, s')"
    using p(1-5) s'(1) by (simp add: guest_read_shared_buffer_def)
  moreover have "mem_elsewhere (xl_sp L) (xl_buffer L) (BUFFER_SIZE + 1) s s'"
    by (rule mem_elsewhere_trans [OF mem_elsewhere_less [OF received_elsewhere [OF p(8)] len'(1)] mem_kept_elsewhere [OF s'(5)]])
  moreover have "w_console (g_world s3) = w_console (g_world s)" using eff(3) by (simp add: undisturbed_def)
  ultimately show ?thesis
    using kept_linked [OF p(6) s'(2)] s'(3,4) eff(1) undisturbed_trans [OF eff(3) undisturbed_kept [OF s'(2)]]
    by (intro exI [of _ s']) simp
qed

subsection \<open>The first interrupt and the end\<close>

definition mode_line :: "u8 \<Rightarrow> string" where
  "mode_line mode = (if mode = VM_MODE_WRITER then ''Mode: writer'' else ''Mode: reader'')"

lemma mode_view:
  assumes "\<not> mode_initialized g" and link: "linked i r s" and io: "inb i SHARED_BUFFER_PORT r = Some (mode, r')"
    and "serialOutputBuffer (g_context s) = []"
  shows "\<exists>s'. irq0_handler L g s = Some (g\<lparr>vm_mode := mode, mode_initialized := True\<rparr>, s') \<and> linked i r' s' \<and>
    guest_files s' = guest_files s \<and> able n s' = able n s \<and> mem (g_vm s') = mem (g_vm s) \<and>
    undisturbed (to_out (tagged_line s (mode_line mode @ newline)) (w_console (g_world s))) s s'"
proof -
  obtain s1 where s1: "cpu_inb SHARED_BUFFER_PORT s = Some (mode, s1)" "linked i r' s1" "buffer_only s s1"
    using inb_linked [OF link io] by blast
  note e1 = buffer_only_effects [OF s1(3)]
  have c1: "serialOutputBuffer (g_context s1) = []" "1025 \<le> mapping_size (g_vm s1)" "tagged_line s1 l = tagged_line s l"
    "w_console (g_world s1) = w_console (g_world s)" for l
    using e1(3) s1(2) assms(4) by (simp_all add: undisturbed_def linked_def tagged_line_def)
  have clean: "10 \<notin> set (bytes_of (mode_line mode))" by (simp add: bytes_of_def mode_line_def)
  obtain s2 where s2: "print_bytes (bytes_of (mode_line mode) @ [10]) s1 = Some s2"
      "printed (g_context s1) (to_out (tagged_line s (mode_line mode @ newline)) (w_console (g_world s))) s1 s2"
    using line_printed [OF c1(2) clean c1(1)] unfolding says_def c1(3,4) text_of_bytes by blast
  note e2 = printed_files [OF s2(2)]
  have "irq0_handler L g s = Some (g\<lparr>vm_mode := mode, mode_initialized := True\<rparr>, s2)"
    using s1(1) s2(1) assms(1) by (simp add: irq0_handler_def bytes_of_line mode_line_def)
  moreover have "linked i r' s2" using s1(2) e2 by (simp add: linked_def)
  ultimately show ?thesis
    using e1(1,2,4) e2(1,2,4) undisturbed_trans [OF e1(3) undisturbed_printed [OF s2(2)]] by (intro exI [of _ s2]) simp
qed

lemma tail_view:
  assumes "1025 \<le> mapping_size (g_vm s)" and "serialOutputBuffer (g_context s) = []"
    and "con_in (w_console (g_world s)) = x # rest" and "of_char x \<noteq> (10 :: nat)"
  shows "\<exists>s' con. main_tail True s = Some (Halt_Loop, s') \<and> con_in con = rest \<and> printed (g_context s) con s s'"
  using main_tail_output [OF assms] by (elim exE conjE) (intro exI conjI, assumption, simp_all)

subsection \<open>What waits\<close>

lemma blocked_call:
  assumes link: "linked i r s" and port: "port = SHARED_BUFFER_PORT \<or> port = SHARED_BUFFER_STATUS_PORT"
    and wait: "\<And>m. sharedBufferIo (part r i) (shbuf r)
      \<lparr>io_direction = KVM_EXIT_IO_IN, io_size = 4, io_port = port, io_count = 1, io_data_offset = 1024\<rparr> m 1024 = Blocked"
  shows "cpu_inl port s = None"
proof -
  let ?io = "\<lparr>io_direction = KVM_EXIT_IO_IN, io_size = 4, io_port = port, io_count = 1, io_data_offset = 1024\<rparr>"
  define rn where "rn = (run (g_vm s))\<lparr>exit_reason := KVM_EXIT_IO, io := ?io, run_data := store_bytes (run_data (run (g_vm s))) 1024 []\<rparr>"
  have "getIoData ((g_vm s)\<lparr>run := rn\<rparr>) = Some 1024"
    using link by (auto simp: linked_def getIoData_def data_in_mapping_iff rn_def mapping_size_def)
  then have "port_device (g_context s, g_world s) ((g_vm s)\<lparr>run := rn\<rparr>) = Blocked"
    using wait link port
    by (auto simp: linked_def port_device_def shared_buffer_device_def handleSharedBufferIo_def rn_def FILE_IO_PORT_def shared_buffer_consts)
  then show ?thesis by (simp add: cpu_inl_def port_call_def rn_def)
qed

end
