(* ===== verification/Guest_Moves.thy ===== *)
theory Guest_Moves
  imports Guest_Sharing
begin

text \<open>
  What a guest program does to the others: everything it does outside its memory is a sequence
  of port accesses, and one access leaves alone what the other machines see of their files.
\<close>

subsection \<open>Sequences of port accesses\<close>

text \<open>At most \<open>n\<close> of the accesses are on the file port.\<close>

inductive moves :: "nat \<Rightarrow> guest \<Rightarrow> guest \<Rightarrow> bool" where
  stay: "moves n s s"
| file_call: "moves n s s1 \<Longrightarrow> port_call dir port sz data s1 = Some s2 \<Longrightarrow> moves (Suc n) s s2"
| other_call: "moves n s s1 \<Longrightarrow> port \<noteq> FILE_IO_PORT \<Longrightarrow> port_call dir port sz data s1 = Some s2 \<Longrightarrow> moves n s s2"
| poked: "moves n s s1 \<Longrightarrow> moves n s (poke a bs s1)"

lemma moves_more: "moves n s s' \<Longrightarrow> n \<le> k \<Longrightarrow> moves k s s'"
proof (induction arbitrary: k rule: moves.induct)
  case (file_call n s s1 dir port sz data s2)
  then obtain j where "k = Suc j" "n \<le> j" by (cases k) auto
  then show ?case using moves.file_call [OF file_call.IH file_call.hyps(2)] by simp
qed (auto intro: moves.intros)

lemma moves_trans: "moves m s1 s2 \<Longrightarrow> moves n s s1 \<Longrightarrow> moves (n + m) s s2"
proof (induction rule: moves.induct)
  case (stay m s1)
  then show ?case by (rule moves_more) simp
next
  case (file_call m s1 s2 dir port sz data s3)
  then show ?case using moves.file_call [of "n + m" s s2] by simp
qed (auto intro: moves.intros)

lemma moves_trans0: "moves 0 s1 s2 \<Longrightarrow> moves n s s1 \<Longrightarrow> moves n s s2"
  using moves_trans by fastforce

text \<open>The port instructions, and the loops and calls over them.\<close>

lemma moves_outb: "cpu_outb port x s = Some s' \<Longrightarrow> port \<noteq> FILE_IO_PORT \<Longrightarrow> moves 0 s s'"
  and moves_inb: "cpu_inb port s = Some (y, s') \<Longrightarrow> port \<noteq> FILE_IO_PORT \<Longrightarrow> moves 0 s s'"
  and moves_outl: "cpu_outl port z s = Some s' \<Longrightarrow> moves (if port = FILE_IO_PORT then 1 else 0) s s'"
  and moves_inl: "cpu_inl port s = Some (w, s') \<Longrightarrow> moves (if port = FILE_IO_PORT then 1 else 0) s s'"
  by (auto simp: cpu_outb_def cpu_inb_def cpu_outl_def cpu_inl_def bind_eq_Some_conv
      intro: moves.other_call [OF moves.stay] moves.file_call [OF moves.stay])

lemma ports_differ: "SHARED_BUFFER_PORT \<noteq> FILE_IO_PORT" "SHARED_BUFFER_STATUS_PORT \<noteq> FILE_IO_PORT" "0xE9 \<noteq> FILE_IO_PORT"
  by (simp_all add: shared_buffer_consts FILE_IO_PORT_def)

lemma moves_submit: "submit_file_request sp r s = Some (x, s') \<Longrightarrow> moves 2 s s'"
proof -
  assume "submit_file_request sp r s = Some (x, s')"
  then obtain s1 where s1: "cpu_outl FILE_IO_PORT (of_nat sp) (poke sp (encode_request r) s) = Some s1" "cpu_inl FILE_IO_PORT s1 = Some (x, s')"
    by (auto simp: submit_file_request_def bind_eq_Some_conv)
  have "moves 0 s (poke sp (encode_request r) s)" by (intro moves.poked moves.stay)
  from moves_trans [OF moves_inl [OF s1(2)] moves_trans [OF moves_outl [OF s1(1)] this]] show "moves 2 s s'"
    by (simp add: numeral_2_eq_2)
qed

lemma moves_calls:
  "guest_open sp a fl s = Some (x, s') \<Longrightarrow> moves 2 s s'" "guest_close sp fd s = Some (x, s') \<Longrightarrow> moves 2 s s'"
  "guest_read sp fd a n s = Some (x, s') \<Longrightarrow> moves 2 s s'" "guest_write sp fd a n s = Some (x, s') \<Longrightarrow> moves 2 s s'"
  "guest_lseek sp fd p q s = Some (x, s') \<Longrightarrow> moves 2 s s'"
  by (auto simp: guest_open_def guest_close_def guest_read_def guest_write_def guest_lseek_def
      intro: moves_submit moves.stay split: if_splits)

text \<open>A call that may be skipped.\<close>

lemma moves_skip: "(if b then f else Some (y, s)) = Some (x, s') \<Longrightarrow> (f = Some (x, s') \<Longrightarrow> moves n s s') \<Longrightarrow> moves n s s'"
  by (auto intro: moves.stay split: if_splits)

lemma moves_print: "print_bytes bs s = Some s' \<Longrightarrow> moves 0 s s'"
proof (induction bs arbitrary: s)
  case Nil
  then show ?case by (simp add: moves.stay)
next
  case (Cons x xs)
  then obtain s1 where "cpu_outb 0xE9 x s = Some s1" "print_bytes xs s1 = Some s'" by (auto simp: bind_eq_Some_conv)
  then show ?case using moves_trans0 [OF Cons.IH moves_outb] ports_differ(3) by blast
qed

lemma moves_print_string: "print_string a s = Some s' \<Longrightarrow> moves 0 s s'"
proof (rule print_string.raw_induct [of "\<lambda>a s s'. moves 0 s s'"])
  fix f a s s'
  assume IH: "\<And>a s s'. f a s = Some s' \<Longrightarrow> moves 0 s s'"
    and step: "(let b = mem (g_vm s) a in if b = 0 then Some s else Option.bind (cpu_outb 0xE9 b s) (f (Suc a))) = Some s'"
  show "moves 0 s s'"
  proof (cases "mem (g_vm s) a = 0")
    case True
    then show ?thesis using step by (simp add: moves.stay)
  next
    case False
    then obtain s1 where "cpu_outb 0xE9 (mem (g_vm s) a) s = Some s1" "f (Suc a) s1 = Some s'"
      using step by (auto simp: bind_eq_Some_conv Let_def)
    then show ?thesis using moves_trans0 [OF IH moves_outb] ports_differ(3) by blast
  qed
qed

lemma moves_send: "send_from a n s = Some s' \<Longrightarrow> moves 0 s s'"
proof (induction n arbitrary: a s)
  case 0
  then show ?case by (simp add: moves.stay)
next
  case (Suc n)
  then obtain s1 where "cpu_outb SHARED_BUFFER_PORT (mem (g_vm s) a) s = Some s1" "send_from (Suc a) n s1 = Some s'"
    by (auto simp: bind_eq_Some_conv)
  then show ?case using moves_trans0 [OF Suc.IH moves_outb] ports_differ(1) by blast
qed

lemma moves_receive: "receive_into a n s = Some s' \<Longrightarrow> moves 0 s s'"
proof (induction n arbitrary: a s)
  case 0
  then show ?case by (simp add: moves.stay)
next
  case (Suc n)
  then obtain x s1 where "cpu_inb SHARED_BUFFER_PORT s = Some (x, s1)" "receive_into (Suc a) n (poke a [x] s1) = Some s'"
    by (auto simp: bind_eq_Some_conv)
  then show ?case using moves_trans0 [OF Suc.IH moves.poked [OF moves_inb]] ports_differ(1) by blast
qed

lemma moves_test: "test_file_io L s = Some s' \<Longrightarrow> moves 10 s s'"
proof -
  let ?c = "of_nat (length test_message) :: i32" and ?sp = "tl_sp L"
  assume t: "test_file_io L s = Some s'"
  then obtain fd s1 bw s2 sr s3 br s4 cr s5 where
    c: "guest_open ?sp (tl_path L) (FILE_OPEN_READ_WRITE OR FILE_OPEN_CREATE) (poke (tl_buffer L + length test_message) [0] s) = Some (fd, s1)"
    "(if 0 \<le> sint fd then guest_write ?sp fd (tl_message L) ?c s1 else Some (-1, s1)) = Some (bw, s2)"
    "(if bw = ?c then guest_lseek ?sp fd 0 FILE_SEEK_SET s2 else Some (-1, s2)) = Some (sr, s3)"
    "(if sr = 0 then guest_read ?sp fd (tl_buffer L) ?c s3 else Some (-1, s3)) = Some (br, s4)"
    "(if 0 \<le> sint fd then guest_close ?sp fd s4 else Some (-1, s4)) = Some (cr, s5)"
    and tail: "(if bw \<noteq> ?c \<or> sr \<noteq> 0 \<or> br \<noteq> ?c \<or> sint cr < 0 then print_bytes (bytes_of (''File I/O failed!'' @ newline)) s5
      else do { s \<leftarrow> print_bytes (bytes_of ''File content: '') s5; s \<leftarrow> print_string (tl_buffer L) s; cpu_outb 0xE9 10 s }) = Some s'"
    unfolding test_file_io_def Let_def by (auto simp only: bind_eq_Some_conv prod.case split_paired_all)
  have "moves 0 s (poke (tl_buffer L + length test_message) [0] s)" by (intro moves.poked moves.stay)
  from moves_trans [OF moves_calls(1) [OF c(1)] this] have "moves 2 s s1" by (simp only: add_0)
  from moves_trans [OF moves_skip [OF c(2) moves_calls(4)] this] have "moves 4 s s2" by simp
  from moves_trans [OF moves_skip [OF c(3) moves_calls(5)] this] have "moves 6 s s3" by simp
  from moves_trans [OF moves_skip [OF c(4) moves_calls(3)] this] have "moves 8 s s4" by simp
  from moves_trans [OF moves_skip [OF c(5) moves_calls(2)] this] have m: "moves 10 s s5" by simp
  have "moves 0 s5 s'"
  proof (cases "bw \<noteq> ?c \<or> sr \<noteq> 0 \<or> br \<noteq> ?c \<or> sint cr < 0")
    case True
    then show ?thesis using tail by (simp only: if_True) (rule moves_print)
  next
    case False
    then obtain s6 s7 where p: "print_bytes (bytes_of ''File content: '') s5 = Some s6" "print_string (tl_buffer L) s6 = Some s7" "cpu_outb 0xE9 10 s7 = Some s'"
      using tail by (auto simp only: if_False bind_eq_Some_conv)
    show ?thesis by (rule moves_trans0 [OF moves_outb [OF p(3) ports_differ(3)] moves_trans0 [OF moves_print_string [OF p(2)] moves_print [OF p(1)]]])
  qed
  then show ?thesis using m by (rule moves_trans0)
qed

lemma moves_broadcast: "broadcast_file L s = Some (bytes_read, close_result, s') \<Longrightarrow> moves 6 s s'"
proof -
  let ?sp = "xl_sp L"
  assume "broadcast_file L s = Some (bytes_read, close_result, s')"
  then obtain fd s1 s2 s3 s4 where
    c: "guest_open ?sp (xl_guest L) FILE_OPEN_READ s = Some (fd, s1)"
    "(if 0 \<le> sint fd then guest_read ?sp fd (xl_buffer L) (of_nat (BUFFER_SIZE + 1)) s1 else Some (-1, s1)) = Some (bytes_read, s2)"
    "(if 0 \<le> sint fd then guest_close ?sp fd s2 else Some (-1, s2)) = Some (close_result, s3)"
    and p: "cpu_outl SHARED_BUFFER_PORT (bytes_counted bytes_read) s3 = Some s4" "send_from (xl_buffer L) (unat (bytes_counted bytes_read)) s4 = Some s'"
    unfolding broadcast_file_def by (auto simp only: bind_eq_Some_conv prod.case split_paired_all option.inject prod.inject)
  from moves_trans [OF moves_skip [OF c(2) moves_calls(3)] moves_calls(1) [OF c(1)]] have "moves 4 s s2" by simp
  from moves_trans [OF moves_skip [OF c(3) moves_calls(2)] this] have "moves 6 s s3" by simp
  then show ?thesis using moves_outl [OF p(1)] moves_send [OF p(2)] ports_differ(1) by (auto intro: moves_trans0)
qed

lemma moves_await: "await_readers bytes_read close_result s = Some (ok, s') \<Longrightarrow> moves 0 s s'"
  using moves_inl [of SHARED_BUFFER_STATUS_PORT s] ports_differ(2)
  by (auto simp: await_readers_def Let_def bind_eq_Some_conv)

lemma moves_save: "save_received L cnt s = Some (ok, s') \<Longrightarrow> moves 8 s s'"
proof -
  let ?sp = "xl_sp L"
  assume "save_received L cnt s = Some (ok, s')"
  then obtain fd s1 sr s2 bw s3 cr where
    c: "guest_open ?sp (xl_reader L) (FILE_OPEN_WRITE OR FILE_OPEN_CREATE) s = Some (fd, s1)"
    "(if 0 \<le> sint fd then guest_lseek ?sp fd 0 FILE_SEEK_SET s1 else Some (-1, s1)) = Some (sr, s2)"
    "(if sr = 0 then guest_write ?sp fd (xl_buffer L) cnt s2 else Some (-1, s2)) = Some (bw, s3)"
    "(if 0 \<le> sint fd then guest_close ?sp fd s3 else Some (-1, s3)) = Some (cr, s')"
    unfolding save_received_def by (simp only: bind_eq_Some_conv split_paired_Ex prod.case option.inject prod.inject) blast
  from moves_trans [OF moves_skip [OF c(2) moves_calls(5)] moves_calls(1) [OF c(1)]] have "moves 4 s s2" by simp
  from moves_trans [OF moves_skip [OF c(3) moves_calls(4)] this] have "moves 6 s s3" by simp
  from moves_trans [OF moves_skip [OF c(4) moves_calls(2)] this] show ?thesis by simp
qed

lemma moves_read_round: "guest_read_shared_buffer L s = Some (ok, s') \<Longrightarrow> moves 8 s s'"
proof -
  assume "guest_read_shared_buffer L s = Some (ok, s')"
  then obtain cnt s1 where c: "cpu_inl SHARED_BUFFER_PORT s = Some (cnt, s1)"
    "(if unat cnt > BUFFER_SIZE then do { s \<leftarrow> cpu_outl SHARED_BUFFER_STATUS_PORT 0 s1; Some (False, s) }
      else do { s \<leftarrow> receive_into (xl_buffer L) (unat cnt) s1; s \<leftarrow> cpu_outl SHARED_BUFFER_STATUS_PORT cnt s; save_received L cnt s }) = Some (ok, s')"
    unfolding guest_read_shared_buffer_def by (auto simp only: bind_eq_Some_conv prod.case split_paired_all)
  have m1: "moves 0 s s1" using moves_inl [OF c(1)] ports_differ(1) by simp
  show ?thesis
  proof (cases "unat cnt > BUFFER_SIZE")
    case True
    then have "cpu_outl SHARED_BUFFER_STATUS_PORT 0 s1 = Some s'" using c(2) by (auto simp: bind_eq_Some_conv)
    from moves_outl [OF this] have "moves 0 s1 s'" using ports_differ(2) by simp
    from moves_more [OF moves_trans0 [OF this m1], of 8] show ?thesis by simp
  next
    case False
    then obtain s2 s3 where p: "receive_into (xl_buffer L) (unat cnt) s1 = Some s2" "cpu_outl SHARED_BUFFER_STATUS_PORT cnt s2 = Some s3"
      "save_received L cnt s3 = Some (ok, s')" using c(2) by (auto simp: bind_eq_Some_conv)
    have "moves 0 s s2" by (rule moves_trans0 [OF moves_receive [OF p(1)] m1])
    moreover have "moves 0 s2 s3" using moves_outl [OF p(2)] ports_differ(2) by simp
    ultimately have "moves 0 s s3" using moves_trans0 by blast
    from moves_trans [OF moves_save [OF p(3)] this] show ?thesis by simp
  qed
qed

lemma moves_tail: "main_tail ok s = Some (e, s') \<Longrightarrow> moves 0 s s'"
proof -
  assume t: "main_tail ok s = Some (e, s')"
  show ?thesis
  proof (cases ok)
    case False
    then show ?thesis using t by (auto simp: main_tail_def bind_eq_Some_conv simp del: print_bytes.simps intro: moves_print)
  next
    case True
    then obtain s1 s2 s3 x s4 s5 s6 where
      "print_bytes (bytes_of (''Shared buffer transfer complete.'' @ newline)) s = Some s1" "print_bytes (bytes_of (''Hello, world!'' @ newline)) s1 = Some s2"
      "print_bytes (bytes_of ''Enter one character: '') s2 = Some s3" "cpu_inb 0xE9 s3 = Some (x, s4)"
      "print_bytes (bytes_of ''Guest received: '') s4 = Some s5" "cpu_outb 0xE9 x s5 = Some s6" "cpu_outb 0xE9 10 s6 = Some s'"
      using t unfolding main_tail_def
      by (auto simp only: not_True_eq_False if_False bind_eq_Some_conv prod.case split_paired_all option.inject prod.inject)
    then show ?thesis
      by (meson moves_trans0 moves_print moves_inb moves_outb ports_differ(3))
  qed
qed

lemma moves_step:
  assumes "program_step L m m'"
  shows "moves 10 (pr_guest m) (pr_guest m')"
  using assms
proof (cases rule: program_step.cases)
  case started
  then show ?thesis by (auto simp: start_program_eq bind_eq_Some_conv intro: moves_test)
next
  case interrupted
  show ?thesis
  proof (cases "mode_initialized (pr_vars m) \<and> vm_mode (pr_vars m) = VM_MODE_WRITER")
    case True
    then show ?thesis using interrupted
      by (auto simp: take_interrupt_def Let_def bind_eq_Some_conv split: if_splits intro: moves_more [OF moves_broadcast])
  next
    case False
    then obtain g s where irq: "irq0_handler (pl_transfer L) (pr_vars m) (pr_guest m) = Some (g, s)" and m': "pr_guest m' = s"
      using interrupted by (auto simp: take_interrupt_def Let_def bind_eq_Some_conv split: if_splits)
    have "moves 8 (pr_guest m) s"
    proof (cases "mode_initialized (pr_vars m)")
      case True
      then show ?thesis using irq False by (auto simp: irq0_handler_def bind_eq_Some_conv intro: moves_read_round)
    next
      case False
      then obtain mode s1 where p: "cpu_inb SHARED_BUFFER_PORT (pr_guest m) = Some (mode, s1)"
          "print_bytes (bytes_of ((if mode = VM_MODE_WRITER then ''Mode: writer'' else ''Mode: reader'') @ newline)) s1 = Some s"
        using irq by (auto simp: irq0_handler_def bind_eq_Some_conv simp del: print_bytes.simps)
      from moves_more [OF moves_trans0 [OF moves_print [OF p(2)] moves_inb [OF p(1) ports_differ(1)]], of 8] show ?thesis by simp
    qed
    then show ?thesis unfolding m' by (rule moves_more) simp
  qed
next
  case (handled br cr)
  then show ?thesis by (auto simp: end_handler_def bind_eq_Some_conv intro: moves_more [OF moves_await])
next
  case left
  then show ?thesis by (auto simp: leave_loop_def bind_eq_Some_conv intro: moves_more [OF moves_tail])
qed

subsection \<open>What the others see\<close>

text \<open>The guest \<open>s\<close> is machine \<open>i\<close> of the contexts \<open>cs\<close>; it has become \<open>s'\<close>.\<close>

definition spares :: "nat set \<Rightarrow> nat \<Rightarrow> GuestContext list \<Rightarrow> nat \<Rightarrow> guest \<Rightarrow> guest \<Rightarrow> bool" where
  "spares S n cs i s s' \<longleftrightarrow>
     views_inv (w_shared (g_world s')) S n (cs[i := g_context s'], guest_host s') \<and>
     sharedFiles (w_shared (g_world s')) = sharedFiles (w_shared (g_world s)) \<and> gid (g_context s') = gid (g_context s) \<and>
     (\<forall>j<length cs. j \<noteq> i \<longrightarrow> file_view (cs ! j) (w_shared (g_world s')) (guest_host s') =
        file_view (cs ! j) (w_shared (g_world s)) (guest_host s))"

lemma views_inv_less: "views_inv ss S n s \<Longrightarrow> m \<le> n \<Longrightarrow> views_inv ss S m s"
  by (fastforce simp: views_inv_def split: prod.splits)

lemma port_call_spares:
  assumes inv: "views_inv (w_shared (g_world s)) S (k + n) (cs, guest_host s)" and i: "i < length cs" "cs ! i = g_context s"
    and step: "port_call dir port sz data s = Some s'" and k: "k = (if port = FILE_IO_PORT then 1 else 0)"
  shows "spares S n cs i s s'"
proof -
  let ?c = "g_context s" and ?h = "guest_host s" and ?ss = "w_shared (g_world s)"
  let ?c' = "g_context s'" and ?h' = "guest_host s'" and ?ss' = "w_shared (g_world s')"
  obtain v v' where dev: "port_device (g_context s, g_world s) v = Done (True, (?c', g_world s'), v')" and pv: "io_port (io (run v)) = port"
    using step by (auto simp: port_call_def Let_def split: outcome.splits prod.splits bool.splits)
  have sv: "service_inv S (cs, ?h)" and sh: "shared_inodes ?ss ?h \<subseteq> S" and each: "\<And>c. c \<in> set cs \<Longrightarrow> view_inv c ?ss ?h"
    and left: "\<And>c. c \<in> set cs \<Longrightarrow> int (k + n) \<le> opens_left c"
    using inv by (auto simp: views_inv_def)
  have ci: "cs ! i \<in> set cs" using i(1) by (rule nth_mem)
  have num: "numbered ?c" using each [OF ci] i(2) by (simp add: view_inv_def)
  have eff: "file_effect k ?c ?h ?c' ?h'" using port_device_files(1) [OF dev num] pv k by simp
  have nb: "numbered ?c'" "opens_left ?c - int k \<le> opens_left ?c'"
    using file_effect_numbered [OF eff num] left [OF ci] i(2) k by (auto split: if_splits)
  have sf: "sharedFiles ?ss' = sharedFiles ?ss" by (rule port_device_files(2) [OF dev])
  obtain V where V: "becomes ?c ?ss ?h ?c' ?h' V" using file_change_view [OF _ port_device_change [OF dev]] each [OF ci] i(2) by auto
  have gs: "guest_step P (cs ! i) ?h ?c' ?h'" for P using eff i(2) by (simp add: file_effect_def)
  note st = service_view_step [OF sv sh each i(1) V [folded i(2)] gs nb(1)]
  have "int n \<le> opens_left c" if "c \<in> set (cs[i := ?c'])" for c
    using set_update_subset_insert [of cs i ?c'] that left nb(2) left [OF ci] i(2) by fastforce
  then have "views_inv ?ss' S n (cs[i := ?c'], ?h')"
    using st(1-3) view_inv_shared [OF sf] by (simp add: views_inv_def shared_inodes_def sf)
  moreover have "file_view (cs ! j) ?ss' ?h' = file_view (cs ! j) ?ss ?h" if "j < length cs" "j \<noteq> i" for j
    using arg_cong [OF st(4), of "\<lambda>vs. vs ! j"] that file_view_shared [OF sf, of "cs ! j" ?h'] by (simp add: service_view_def)
  moreover have "gid ?c' = gid ?c" using gs [of "{}"] i(2) by (simp add: guest_step_def)
  ultimately show ?thesis using sf by (simp add: spares_def)
qed

lemma moves_spare:
  "moves k s s' \<Longrightarrow> views_inv (w_shared (g_world s)) S (k + n) (cs, guest_host s) \<Longrightarrow> i < length cs \<Longrightarrow> cs ! i = g_context s \<Longrightarrow>
     spares S n cs i s s'"
proof (induction arbitrary: n rule: moves.induct)
  case (stay k s)
  have same: "cs[i := g_context s] = cs" using stay(3) list_update_id [of cs i] by simp
  show ?case unfolding spares_def same using views_inv_less [OF stay(1)] by simp
next
  case (file_call k s s1 dir port sz data s2)
  have "spares S (1 + n) cs i s s1" by (rule file_call.IH) (use file_call.prems in simp_all)
  then have s1: "views_inv (w_shared (g_world s1)) S (1 + n) (cs[i := g_context s1], guest_host s1)" by (simp add: spares_def)
  have one: "views_inv (w_shared (g_world s1)) S ((if port = FILE_IO_PORT then 1 else 0) + n) (cs[i := g_context s1], guest_host s1)"
    by (rule views_inv_less [OF s1]) simp
  have "spares S n (cs[i := g_context s1]) i s1 s2"
    by (rule port_call_spares [OF one _ _ file_call.hyps(2) refl]) (use file_call.prems(2) in simp_all)
  then show ?case using \<open>spares S (1 + n) cs i s s1\<close> by (simp add: spares_def)
next
  case (other_call k s s1 port dir sz data s2)
  have s1: "spares S n cs i s s1" by (rule other_call.IH) (use other_call.prems in simp_all)
  then have "views_inv (w_shared (g_world s1)) S (0 + n) (cs[i := g_context s1], guest_host s1)" by (simp add: spares_def)
  then have "spares S n (cs[i := g_context s1]) i s1 s2"
    by (rule port_call_spares [OF _ _ _ other_call.hyps(3)]) (use other_call.prems(2) other_call.hyps(2) in simp_all)
  then show ?case using s1 by (simp add: spares_def)
next
  case (poked k s s1 a bs)
  then have "spares S n cs i s s1" by simp
  then show ?case by (simp add: spares_def poke_def)
qed

end
