(* ===== verification/Fleet.thy ===== *)
theory Fleet
  imports Guest_Moves
begin

text \<open>
  All guests at once: machines that run the guest program over one host, one shared buffer and
  one console. A step is one program's step up to its next access that may wait for the others
  (the start-up with the file test, the mode interrupt, the sending of the file, the end of the
  writer's handler, a reader's handler, the end of the program), taken in any order.
\<close>

subsection \<open>The machines and their steps\<close>

record fleet =
  fl_programs :: "program list"
  fl_world :: world

definition facing :: "world \<Rightarrow> program \<Rightarrow> program" where
  "facing w m = m\<lparr>pr_guest := (pr_guest m)\<lparr>g_world := w\<rparr>\<rparr>"

inductive fleet_step :: "program_layout list \<Rightarrow> fleet \<Rightarrow> fleet \<Rightarrow> bool" for Ls where
  "i < length (fl_programs f) \<Longrightarrow> program_step (Ls ! i) (facing (fl_world f) (fl_programs f ! i)) m \<Longrightarrow>
     fleet_step Ls f \<lparr>fl_programs = (fl_programs f)[i := m], fl_world = g_world (pr_guest m)\<rparr>"

inductive_cases fleet_stepE: "fleet_step Ls f f'"

definition fleet_contexts :: "fleet \<Rightarrow> GuestContext list" where
  "fleet_contexts f = map (\<lambda>m. g_context (pr_guest m)) (fl_programs f)"

text \<open>What machine \<open>i\<close> sees of its files.\<close>

definition fleet_files :: "fleet \<Rightarrow> nat \<Rightarrow> file_system" where
  "fleet_files f i = guest_files (pr_guest (facing (fl_world f) (fl_programs f ! i)))"

subsection \<open>One program at a stage\<close>

definition mode_of_machine :: "nat \<Rightarrow> u8" where
  "mode_of_machine i = (if i = 0 then VM_MODE_WRITER else VM_MODE_READER)"

definition phase_at :: "stage \<Rightarrow> u8 list \<Rightarrow> program_phase" where
  "phase_at t bs = (case t of Not_Started \<Rightarrow> Starting start_code | Readers_Awaited \<Rightarrow> Awaiting (of_nat (length bs)) 0
     | Left_Loop \<Rightarrow> Program_Ended Halt_Loop | _ \<Rightarrow> Waiting_Loop)"

definition vars_at :: "nat \<Rightarrow> stage \<Rightarrow> transfer_vars" where
  "vars_at i t = (if has_mode t then \<lparr>transfer_finished = is_done t, transfer_succeeded = is_done t,
     vm_mode = mode_of_machine i, mode_initialized = True\<rparr> else initial_vars)"

definition interrupts_at :: "stage \<Rightarrow> int" where
  "interrupts_at t = (if \<not> has_mode t then 2 else if t = Transfer_Pending then 1 else 0)"

definition control_at :: "program_layout \<Rightarrow> nat \<Rightarrow> stage \<Rightarrow> u8 list \<Rightarrow> program \<Rightarrow> bool" where
  "control_at L i t bs m \<longleftrightarrow> pr_phase m = phase_at t bs \<and> pr_vars m = vars_at i t \<and> pr_interrupts m = interrupts_at t \<and>
     (t \<noteq> Not_Started \<longrightarrow> armed L (pr_processor m))"

text \<open>The bytes the writer will send, and each machine's files at a stage.\<close>

definition broadcast_bytes :: "file_system \<Rightarrow> u8 list" where
  "broadcast_bytes V = take (BUFFER_SIZE + 1) (held (after_test V) ''guest.txt'')"

definition files_at :: "nat \<Rightarrow> stage \<Rightarrow> file_system \<Rightarrow> u8 list \<Rightarrow> file_system" where
  "files_at i t V bs =
     (if t = Not_Started then V else if t \<in> {Mode_Pending, Transfer_Pending} then after_test V
      else if i = 0 then numbered_next (after_test V) else after_save (take BUFFER_SIZE bs) (after_test V))"

text \<open>The program's literals and buffers are apart from each other.\<close>

definition image_ready :: "program_layout \<Rightarrow> guest \<Rightarrow> bool" where
  "image_ready L s \<longleftrightarrow> test_ready (pl_test L) s \<and> transfer_ready (pl_transfer L) s \<and>
     (let T = pl_test L; X = pl_transfer L; sp = tl_sp T; b = tl_buffer T in
      clear_of sp (xl_guest X) (length ''guest.txt'' + 1) \<and> clear_of sp (xl_reader X) (length ''reader.txt'' + 1) \<and>
      disjoint_areas b 16 (xl_guest X) (length ''guest.txt'' + 1) \<and> disjoint_areas b 16 (xl_reader X) (length ''reader.txt'' + 1))"

definition machine_at :: "program_layout \<Rightarrow> nat \<Rightarrow> stage \<Rightarrow> file_system \<Rightarrow> u8 list \<Rightarrow> rounds \<Rightarrow> program \<Rightarrow> bool" where
  "machine_at L i t V bs r m \<longleftrightarrow> (let s = pr_guest m in
     linked i r s \<and> serialOutputBuffer (g_context s) = [] \<and> 0 \<le> sint (nextDescriptor (fileState (g_context s))) \<and>
     guest_files s = files_at i t V bs \<and> transfer_ready (pl_transfer L) s \<and> (t = Not_Started \<longrightarrow> image_ready L s) \<and>
     control_at L i t bs m)"

lemma machine_atD:
  assumes "machine_at L i t V bs r m"
  shows "linked i r (pr_guest m)" "serialOutputBuffer (g_context (pr_guest m)) = []" "guest_files (pr_guest m) = files_at i t V bs"
    "transfer_ready (pl_transfer L) (pr_guest m)" "t = Not_Started \<Longrightarrow> image_ready L (pr_guest m)" "control_at L i t bs m"
    "1025 \<le> mapping_size (g_vm (pr_guest m))"
  using assms by (auto simp: machine_at_def Let_def linked_def)

lemma machine_atI:
  assumes "linked i r s" and "able n s" and "undisturbed con s0 s" and "serialOutputBuffer (g_context s0) = []"
    and "guest_files s = files_at i t V bs" and "transfer_ready (pl_transfer L) s" and "t \<noteq> Not_Started" and "control_at L i t bs m" and "pr_guest m = s"
  shows "machine_at L i t V bs r m"
  using assms by (simp add: machine_at_def able_def undisturbed_def)

lemma transfer_ready_after_test:
  assumes img: "image_ready L s" and mem: "mem_elsewhere (tl_sp (pl_test L)) (tl_buffer (pl_test L)) 16 s s'" and "undisturbed con s s'"
  shows "transfer_ready (pl_transfer L) s'"
proof -
  have sz: "mem_size (g_vm s') = mem_size (g_vm s)" "mapping_size (g_vm s') = mapping_size (g_vm s)" using assms(3) by (simp_all add: undisturbed_def)
  have "names_file (xl_sp (pl_transfer L)) (xl_guest (pl_transfer L)) ''guest.txt'' s'"
    "names_file (xl_sp (pl_transfer L)) (xl_reader (pl_transfer L)) ''reader.txt'' s'"
    by (rule names_file_elsewhere [OF _ mem sz(1)]; use img in \<open>simp add: image_ready_def transfer_ready_def Let_def\<close>)+
  then show ?thesis using img sz by (simp add: image_ready_def transfer_ready_def Let_def room_def apart_def)
qed

lemma transfer_ready_undisturbed:
  assumes "transfer_ready L s" and "mem_elsewhere (xl_sp L) (xl_buffer L) (BUFFER_SIZE + 1) s s'" and "undisturbed con s s'"
  shows "transfer_ready L s'"
  by (rule transfer_ready_elsewhere [OF assms(1,2)]) (use assms(3) in \<open>simp_all add: undisturbed_def\<close>)

lemma mem_same_elsewhere: "mem (g_vm s') = mem (g_vm s) \<Longrightarrow> mem_elsewhere sp a n s s'"
  by (simp add: mem_elsewhere_def)

text \<open>At every stage only one kind of step is possible.\<close>

lemma step_at:
  assumes "control_at L i t bs m"
  shows "program_step L m m' \<longleftrightarrow> (case t of Not_Started \<Rightarrow> start_program L m = Some m'
    | Readers_Awaited \<Rightarrow> end_handler (of_nat (length bs)) 0 m = Some m' | Transferred \<Rightarrow> leave_loop m = Some m'
    | Left_Loop \<Rightarrow> False | _ \<Rightarrow> take_interrupt L m = Some m')"
  using assms
  by (cases t) (auto simp: program_step.simps control_at_def phase_at_def vars_at_def interrupts_at_def has_mode_def is_done_def
      initial_vars_def take_interrupt_def)

subsection \<open>Each program goes on\<close>

definition next_stage :: "nat \<Rightarrow> stage \<Rightarrow> stage" where
  "next_stage i t = (case t of Not_Started \<Rightarrow> Mode_Pending | Mode_Pending \<Rightarrow> Transfer_Pending
     | Transfer_Pending \<Rightarrow> if i = 0 then Readers_Awaited else Transferred | Readers_Awaited \<Rightarrow> Transferred | _ \<Rightarrow> Left_Loop)"

text \<open>A reader needs the round, the end of the writer's handler all readers.\<close>

definition may_go :: "nat \<Rightarrow> (nat \<Rightarrow> stage) \<Rightarrow> nat \<Rightarrow> bool" where
  "may_go n st i \<longleftrightarrow> st i \<noteq> Left_Loop \<and> (st i = Transfer_Pending \<and> i \<noteq> 0 \<longrightarrow> has_sent (st 0)) \<and>
     (st i = Readers_Awaited \<longrightarrow> (\<forall>j\<in>{1..<n}. is_done (st j)))"

definition goes_to :: "program_layout \<Rightarrow> nat \<Rightarrow> nat \<Rightarrow> (nat \<Rightarrow> stage) \<Rightarrow> file_system \<Rightarrow> u8 list \<Rightarrow> rounds \<Rightarrow> program \<Rightarrow> rounds \<Rightarrow> program \<Rightarrow> bool" where
  "goes_to L n i st V bs r m r' m' \<longleftrightarrow> (let t = next_stage i (st i) in
     (\<forall>m''. program_step L m m'' \<longleftrightarrow> m'' = m') \<and> rounds_at n bs (st(i := t)) r' \<and> (\<forall>q. q \<noteq> i \<longrightarrow> part r' q = part r q) \<and>
     machine_at L i t V bs r' m' \<and>
     con_in (w_console (g_world (pr_guest m'))) =
       (if t = Left_Loop then tl (con_in (w_console (g_world (pr_guest m)))) else con_in (w_console (g_world (pr_guest m)))))"

lemma go_start:
  assumes m: "machine_at L i (st i) V bs r m" and st: "st i = Not_Started" and at: "rounds_at n bs st r" and i: "i < n" and able: "able 10 (pr_guest m)"
  shows "\<exists>r' m'. goes_to L n i st V bs r m r' m'"
proof -
  let ?s = "pr_guest m"
  note D = machine_atD [OF m]
  have img: "image_ready L ?s" using D(5) st by simp
  then obtain s' where s': "test_file_io (pl_test L) ?s = Some s'" "guest_files s' = after_test (guest_files ?s)" "able 5 s'"
      "undisturbed (to_out (tagged_line ?s (''File content: '' @ test_message @ newline)) (w_console (g_world ?s))) ?s s'"
      "sharedBuffer (g_context s') = sharedBuffer (g_context ?s)" "w_shared (g_world s') = w_shared (g_world ?s)"
      "mem_elsewhere (tl_sp (pl_test L)) (tl_buffer (pl_test L)) 16 ?s s'"
    using file_test_view [of "pl_test L" ?s 5] able D(2) by (auto simp: image_ready_def)
  define m' where "m' = m\<lparr>pr_phase := Waiting_Loop, pr_processor := (pr_processor m)\<lparr>gdtr := start_gdt (pl_gdt L), idtr := init_idt (pl_idt L) (pl_handler L),
     reg_cs := 0x08, reg_ds := 0x10, reg_es := 0x10, reg_ss := 0x10, interrupts_on := True\<rparr>, pr_guest := s'\<rparr>"
  have step: "start_program L m = Some m'" using s'(1) by (simp add: start_program_eq start_processor_eq m'_def)
  have "linked i r s'" using D(1) s'(4-6) by (simp add: linked_def undisturbed_def)
  moreover have "control_at L i Mode_Pending bs m'"
    using D(6) st armed_started [of L "pr_processor m"]
    by (simp add: control_at_def m'_def phase_at_def vars_at_def has_mode_def interrupts_at_def)
  ultimately have "machine_at L i Mode_Pending V bs r m'"
    using machine_atI [OF _ s'(3,4) D(2) _ transfer_ready_after_test [OF img s'(7,4)], of i r Mode_Pending V bs m'] s'(2) D(3) st
    by (simp add: files_at_def m'_def)
  moreover have "rounds_at n bs (st(i := Mode_Pending)) r"
    by (rule rounds_at_same [OF at i]) (simp_all add: st has_mode_def has_sent_def is_done_def)
  moreover have "con_in (w_console (g_world s')) = con_in (w_console (g_world ?s))" using s'(4) by (simp add: undisturbed_def to_out_def)
  ultimately show ?thesis
    using step_at [OF D(6)] step st by (intro exI [of _ r] exI [of _ m']) (auto simp: goes_to_def next_stage_def m'_def)
qed

lemma go_mode:
  assumes m: "machine_at L i (st i) V bs r m" and st: "st i = Mode_Pending" and at: "rounds_at n bs st r" and i: "i < n" and able: "able 10 (pr_guest m)"
  shows "\<exists>r' m'. goes_to L n i st V bs r m r' m'"
proof -
  let ?s = "pr_guest m"
  note D = machine_atD [OF m] and M = rounds_at_mode [OF at i st]
  define r' where "r' = updated r i ((part r i)\<lparr>modeDelivered := True\<rparr>) (shbuf r) (sent r) (got r i)"
  have mode: "sb_mode (part r i) = mode_of_machine i"
    using rounds_at_modes(2,3) [OF at] i by (cases "i = 0") (simp_all add: mode_of_machine_def)
  have ctl: "pr_vars m = initial_vars" "pr_interrupts m = 2" "armed L (pr_processor m)" "pr_phase m = Waiting_Loop"
    using D(6) st by (simp_all add: control_at_def vars_at_def interrupts_at_def has_mode_def phase_at_def)
  have "\<not> mode_initialized (pr_vars m)" by (simp add: ctl initial_vars_def)
  from mode_view [OF this D(1) M(1) [unfolded mode] D(2), of _ 5] obtain s' where
    s': "irq0_handler (pl_transfer L) (pr_vars m) ?s = Some ((pr_vars m)\<lparr>vm_mode := mode_of_machine i, mode_initialized := True\<rparr>, s')"
      "linked i r' s'" "guest_files s' = guest_files ?s" "able 5 s' = able 5 ?s" "mem (g_vm s') = mem (g_vm ?s)"
      "undisturbed (to_out (tagged_line ?s (mode_line (mode_of_machine i) @ newline)) (w_console (g_world ?s))) ?s s'"
    unfolding r'_def by blast
  define m' where "m' = m\<lparr>pr_interrupts := 1, pr_vars := (pr_vars m)\<lparr>vm_mode := mode_of_machine i, mode_initialized := True\<rparr>, pr_guest := s'\<rparr>"
  have step: "take_interrupt L m = Some m'"
    using s'(1) ctl by (simp add: take_interrupt_def armed_def initial_vars_def m'_def)
  have ab: "able 5 s'" using s'(4) able_less [OF able, of 5] by simp
  have "control_at L i Transfer_Pending bs m'"
    by (simp add: control_at_def m'_def phase_at_def vars_at_def has_mode_def interrupts_at_def is_done_def ctl initial_vars_def)
  then have "machine_at L i Transfer_Pending V bs r' m'"
    using machine_atI [OF s'(2) ab s'(6) D(2) _ transfer_ready_undisturbed [OF D(4) mem_same_elsewhere [OF s'(5)] s'(6)],
        of Transfer_Pending V bs m'] s'(3) D(3) st
    by (simp add: files_at_def m'_def)
  moreover have "con_in (w_console (g_world s')) = con_in (w_console (g_world ?s))" using s'(6) by (simp add: undisturbed_def to_out_def)
  moreover have "\<forall>q. q \<noteq> i \<longrightarrow> part r' q = part r q" using rounds_atD(2) [OF at] i by (simp add: r'_def)
  ultimately show ?thesis
    using step_at [OF D(6)] step st M(2) by (intro exI [of _ r'] exI [of _ m']) (auto simp: goes_to_def next_stage_def m'_def r'_def)
qed

lemma go_send:
  assumes m: "machine_at L 0 (st 0) V bs r m" and st: "st 0 = Transfer_Pending" and at: "rounds_at n bs st r" and able: "able 10 (pr_guest m)"
    and bs: "bs = broadcast_bytes V"
  shows "\<exists>r' m'. goes_to L n 0 st V bs r m r' m'"
proof -
  let ?s = "pr_guest m"
  note D = machine_atD [OF m] and R = rounds_at_ready [OF at st]
  have ctl: "pr_vars m = vars_at 0 Transfer_Pending" "pr_interrupts m = 1" "armed L (pr_processor m)"
    using D(6) st by (simp_all add: control_at_def interrupts_at_def has_mode_def)
  define d where "d = patch (held V ''guest.txt'') 0 (bytes_of test_message)"
  have f: "fs_files (guest_files ?s) ''guest.txt'' = Some d" "take (BUFFER_SIZE + 1) d = bs"
    using D(3) st by (simp_all add: files_at_def after_test_def d_def bs broadcast_bytes_def held_def)
  from broadcast_view [OF D(4) _ f(1) D(1) R, of 5] obtain s' r' where
    s': "broadcast_file (pl_transfer L) ?s = Some (of_nat (length bs), 0, s')" "linked 0 r' s'" "round_sent r bs r'"
      "guest_files s' = numbered_next (guest_files ?s)" "able 5 s'" "undisturbed (w_console (g_world ?s)) ?s s'"
      "mem_elsewhere (xl_sp (pl_transfer L)) (xl_buffer (pl_transfer L)) (BUFFER_SIZE + 1) ?s s'"
    using able_less [OF able, of "5 + 3"] unfolding f(2) by auto
  define m' where "m' = m\<lparr>pr_interrupts := 0, pr_phase := Awaiting (of_nat (length bs)) 0, pr_guest := s'\<rparr>"
  have step: "take_interrupt L m = Some m'"
    using s'(1) ctl by (simp add: take_interrupt_def armed_def vars_at_def has_mode_def mode_of_machine_def m'_def)
  have "control_at L 0 Readers_Awaited bs m'"
    by (simp add: control_at_def m'_def phase_at_def vars_at_def has_mode_def interrupts_at_def is_done_def ctl)
  then have "machine_at L 0 Readers_Awaited V bs r' m'"
    using machine_atI [OF s'(2,5,6) D(2) _ transfer_ready_undisturbed [OF D(4) s'(7,6)], of Readers_Awaited V bs m'] s'(4) D(3) st
    by (simp add: files_at_def m'_def)
  moreover have "con_in (w_console (g_world s')) = con_in (w_console (g_world ?s))" using s'(6) by (simp add: undisturbed_def)
  moreover have "\<forall>q. q \<noteq> 0 \<longrightarrow> part r' q = part r q" using s'(3) by (simp add: round_sent_def)
  ultimately show ?thesis
    using step_at [OF D(6)] step st rounds_at_sent [OF at st s'(3)]
    by (intro exI [of _ r'] exI [of _ m']) (auto simp: goes_to_def next_stage_def m'_def)
qed

lemma go_read:
  assumes m: "machine_at L i (st i) V bs r m" and st: "st i = Transfer_Pending" "has_sent (st 0)" and at: "rounds_at n bs st r"
    and i: "i \<in> {1..<n}" and able: "able 10 (pr_guest m)"
  shows "\<exists>r' m'. goes_to L n i st V bs r m r' m'"
proof -
  let ?s = "pr_guest m"
  note D = machine_atD [OF m]
  have ctl: "pr_vars m = vars_at i Transfer_Pending" "pr_interrupts m = 1" "armed L (pr_processor m)" "pr_phase m = Waiting_Loop"
    using D(6) st by (simp_all add: control_at_def interrupts_at_def has_mode_def phase_at_def)
  obtain r' where r': "read_shared_buffer i r = Some (Some (take BUFFER_SIZE bs), r')" "\<forall>q. q \<noteq> i \<longrightarrow> part r' q = part r q"
      "rounds_at n bs (st(i := Transferred)) r'"
    using rounds_at_read [OF at i st] by blast
  from reader_view [OF D(4) _ D(1) r'(1), of 5] obtain s' where
    s': "guest_read_shared_buffer (pl_transfer L) ?s = Some (True, s')" "linked i r' s'"
      "guest_files s' = after_save (take BUFFER_SIZE bs) (guest_files ?s)" "able 5 s'" "undisturbed (w_console (g_world ?s)) ?s s'"
      "mem_elsewhere (xl_sp (pl_transfer L)) (xl_buffer (pl_transfer L)) (BUFFER_SIZE + 1) ?s s'"
    using able_less [OF able, of "5 + 4"] by auto
  define m' where "m' = m\<lparr>pr_interrupts := 0, pr_vars := (pr_vars m)\<lparr>transfer_succeeded := True, transfer_finished := True\<rparr>, pr_guest := s'\<rparr>"
  have "irq0_handler (pl_transfer L) (pr_vars m) ?s = Some ((pr_vars m)\<lparr>transfer_succeeded := True, transfer_finished := True\<rparr>, s')"
    using s'(1) i by (simp add: irq0_handler_def ctl vars_at_def has_mode_def mode_of_machine_def VM_MODE_WRITER_def VM_MODE_READER_def)
  then have step: "take_interrupt L m = Some m'"
    using ctl i by (simp add: take_interrupt_def armed_def vars_at_def has_mode_def mode_of_machine_def m'_def VM_MODE_WRITER_def VM_MODE_READER_def)
  have "control_at L i Transferred bs m'"
    by (simp add: control_at_def m'_def phase_at_def vars_at_def has_mode_def interrupts_at_def is_done_def ctl)
  then have "machine_at L i Transferred V bs r' m'"
    using machine_atI [OF s'(2,4,5) D(2) _ transfer_ready_undisturbed [OF D(4) s'(6,5)], of Transferred V bs m'] s'(3) D(3) st(1) i
    by (simp add: files_at_def m'_def)
  moreover have "con_in (w_console (g_world s')) = con_in (w_console (g_world ?s))" using s'(5) by (simp add: undisturbed_def)
  ultimately show ?thesis
    using step_at [OF D(6)] step st r'(2,3) i by (intro exI [of _ r'] exI [of _ m']) (auto simp: goes_to_def next_stage_def m'_def)
qed

lemma go_finish:
  assumes m: "machine_at L 0 (st 0) V bs r m" and st: "st 0 = Readers_Awaited" "\<forall>j\<in>{1..<n}. is_done (st j)" and at: "rounds_at n bs st r"
    and able: "able 10 (pr_guest m)" and len: "length bs < 2 ^ 31"
  shows "\<exists>r' m'. goes_to L n 0 st V bs r m r' m'"
proof -
  let ?s = "pr_guest m"
  note D = machine_atD [OF m]
  have ctl: "pr_vars m = vars_at 0 Readers_Awaited" "pr_interrupts m = 0" "armed L (pr_processor m)"
    using D(6) st by (simp_all add: control_at_def interrupts_at_def has_mode_def)
  obtain r' where r': "inl 0 SHARED_BUFFER_STATUS_PORT r = Some (of_nat (min (length bs) BUFFER_SIZE), r')"
      "\<forall>q. q \<noteq> 0 \<longrightarrow> part r' q = part r q" "rounds_at n bs (st(0 := Transferred)) r'"
    using rounds_at_finish [OF at st] by blast
  obtain s' where s': "await_readers (of_nat (length bs)) 0 ?s = Some (True, s')" "linked 0 r' s'" "buffer_only ?s s'"
    using await_view [OF D(1) r'(1) len] by blast
  note eff = buffer_only_effects [OF s'(3)]
  define m' where "m' = m\<lparr>pr_phase := Waiting_Loop, pr_vars := (pr_vars m)\<lparr>transfer_succeeded := True, transfer_finished := True\<rparr>, pr_guest := s'\<rparr>"
  have step: "end_handler (of_nat (length bs)) 0 m = Some m'" using s'(1) by (simp add: end_handler_def m'_def)
  have ab: "able 5 s'" using eff(2) [of 5] able_less [OF able, of 5] by simp
  have "control_at L 0 Transferred bs m'"
    by (simp add: control_at_def m'_def phase_at_def vars_at_def has_mode_def interrupts_at_def is_done_def ctl)
  then have "machine_at L 0 Transferred V bs r' m'"
    using machine_atI [OF s'(2) ab eff(3) D(2) _ transfer_ready_undisturbed [OF D(4) mem_same_elsewhere [OF eff(4)] eff(3)],
        of Transferred V bs m'] eff(1) D(3) st(1)
    by (simp add: files_at_def m'_def)
  moreover have "con_in (w_console (g_world s')) = con_in (w_console (g_world ?s))" using eff(3) by (simp add: undisturbed_def)
  ultimately show ?thesis
    using step_at [OF D(6)] step st(1) r'(2,3) by (intro exI [of _ r'] exI [of _ m']) (auto simp: goes_to_def next_stage_def m'_def)
qed

lemma go_leave:
  assumes m: "machine_at L i (st i) V bs r m" and st: "st i = Transferred" and at: "rounds_at n bs st r" and i: "i < n"
    and able: "able 10 (pr_guest m)" and input: "con_in (w_console (g_world (pr_guest m))) = x # rest" "of_char x \<noteq> (10 :: nat)"
  shows "\<exists>r' m'. goes_to L n i st V bs r m r' m'"
proof -
  let ?s = "pr_guest m"
  note D = machine_atD [OF m]
  have ctl: "pr_vars m = vars_at i Transferred" "pr_interrupts m = 0" "armed L (pr_processor m)"
    using D(6) st by (simp_all add: control_at_def interrupts_at_def has_mode_def)
  obtain s' con where s': "main_tail True ?s = Some (Halt_Loop, s')" "con_in con = rest" "printed (g_context ?s) con ?s s'"
    using tail_view [OF D(7,2) input] by blast
  note eff = printed_files [OF s'(3)]
  define m' where "m' = m\<lparr>pr_phase := Program_Ended Halt_Loop, pr_guest := s'\<rparr>"
  have step: "leave_loop m = Some m'" using s'(1) by (simp add: leave_loop_def m'_def ctl vars_at_def has_mode_def is_done_def)
  have link: "linked i r s'" using D(1) eff by (simp add: linked_def)
  have ab: "able 5 s'" using eff(2) [of 5] able_less [OF able, of 5] by simp
  note und = undisturbed_printed [OF s'(3)]
  have "control_at L i Left_Loop bs m'"
    by (simp add: control_at_def m'_def phase_at_def vars_at_def has_mode_def interrupts_at_def is_done_def ctl)
  then have "machine_at L i Left_Loop V bs r m'"
    using machine_atI [OF link ab und D(2) _ transfer_ready_undisturbed [OF D(4) mem_same_elsewhere [OF eff(4)] und],
        of Left_Loop V bs m'] eff(1) D(3) st
    by (simp add: files_at_def m'_def)
  moreover have "rounds_at n bs (st(i := Left_Loop)) r"
    by (rule rounds_at_same [OF at i]) (simp_all add: st has_mode_def has_sent_def is_done_def)
  ultimately show ?thesis
    using step_at [OF D(6)] step st s'(2) eff(8) input(1)
    by (intro exI [of _ r] exI [of _ m']) (auto simp: goes_to_def next_stage_def m'_def)
qed

text \<open>Together: a program that may go on has exactly one step, the others none.\<close>

lemma program_goes:
  assumes m: "machine_at L i (st i) V bs r m" and at: "rounds_at n bs st r" and i: "i < n" and able: "able 10 (pr_guest m)"
    and go: "may_go n st i" and bs: "i = 0 \<Longrightarrow> bs = broadcast_bytes V" and len: "length bs < 2 ^ 31"
    and input: "con_in (w_console (g_world (pr_guest m))) = x # rest" "of_char x \<noteq> (10 :: nat)"
  shows "\<exists>r' m'. goes_to L n i st V bs r m r' m'"
proof (cases "st i")
  case Not_Started
  then show ?thesis by (rule go_start [OF m _ at i able])
next
  case Mode_Pending
  then show ?thesis by (rule go_mode [OF m _ at i able])
next
  case Transfer_Pending
  show ?thesis
  proof (cases "i = 0")
    case True
    then show ?thesis using go_send [of L st V bs r m n] m Transfer_Pending at able bs by simp
  next
    case False
    then have "has_sent (st 0)" "i \<in> {1..<n}" using go i Transfer_Pending by (simp_all add: may_go_def)
    then show ?thesis using go_read [of L i st V bs r m n] m Transfer_Pending at able by simp
  qed
next
  case Readers_Awaited
  then have "i = 0" using rounds_atD(4) [OF at i] by (auto simp: part_at_def)
  then show ?thesis using go_finish [of L st V bs r m n] m Readers_Awaited at able go len by (simp add: may_go_def)
next
  case Transferred
  then show ?thesis by (rule go_leave [OF m _ at i able input])
next
  case Left_Loop
  then show ?thesis using go by (simp add: may_go_def)
qed

lemma program_waits:
  assumes m: "machine_at L i (st i) V bs r m" and at: "rounds_at n bs st r" and i: "i < n" and stuck: "\<not> may_go n st i"
  shows "\<not> program_step L m m'"
proof -
  note D = machine_atD [OF m]
  consider (ended) "st i = Left_Loop" | (reader) "st i = Transfer_Pending" "i \<in> {1..<n}" "\<not> has_sent (st 0)"
    | (writer) "st i = Readers_Awaited" "\<exists>j\<in>{1..<n}. \<not> is_done (st j)"
    using stuck i by (auto simp: may_go_def)
  then show ?thesis
  proof cases
    case ended
    then show ?thesis using step_at [OF D(6)] by simp
  next
    case reader
    have "cpu_inl SHARED_BUFFER_PORT (pr_guest m) = None"
      by (rule blocked_call [OF D(1)]) (use rounds_at_blocked(1) [OF at reader(2,1,3)] in simp_all)
    then have "guest_read_shared_buffer (pl_transfer L) (pr_guest m) = None" by (simp add: guest_read_shared_buffer_def)
    moreover have "pr_vars m = vars_at i Transfer_Pending" using D(6) reader(1) by (simp add: control_at_def)
    ultimately have "take_interrupt L m = None"
      using reader(2)
      by (simp add: take_interrupt_def irq0_handler_def vars_at_def has_mode_def mode_of_machine_def VM_MODE_WRITER_def VM_MODE_READER_def)
    then show ?thesis using step_at [OF D(6)] reader(1) by simp
  next
    case writer
    then have i0: "i = 0" using rounds_atD(4) [OF at i] by (auto simp: part_at_def)
    have "cpu_inl SHARED_BUFFER_STATUS_PORT (pr_guest m) = None"
      by (rule blocked_call [OF D(1)]) (use rounds_at_blocked(2) [OF at] writer i0 in simp_all)
    then have "end_handler (of_nat (length bs)) 0 m = None" by (simp add: end_handler_def await_readers_def)
    then show ?thesis using step_at [OF D(6)] writer(1) by simp
  qed
qed

subsection \<open>The whole fleet\<close>

text \<open>The steps a program still has before it.\<close>

definition steps_left :: "nat \<Rightarrow> stage \<Rightarrow> nat" where
  "steps_left i t = (case t of Not_Started \<Rightarrow> if i = 0 then 5 else 4 | Mode_Pending \<Rightarrow> if i = 0 then 4 else 3
     | Transfer_Pending \<Rightarrow> if i = 0 then 3 else 2 | Readers_Awaited \<Rightarrow> 2 | Transferred \<Rightarrow> 1 | Left_Loop \<Rightarrow> 0)"

definition work_left :: "nat \<Rightarrow> (nat \<Rightarrow> stage) \<Rightarrow> nat" where
  "work_left n st = (\<Sum>i<n. steps_left i (st i))"

lemma steps_left_next: "t \<noteq> Left_Loop \<Longrightarrow> i = 0 \<or> t \<noteq> Readers_Awaited \<Longrightarrow> steps_left i t = Suc (steps_left i (next_stage i t))"
  by (cases t) (simp_all add: steps_left_def next_stage_def)

lemma work_left_next:
  assumes "i < n" and "steps_left i (st i) = Suc (steps_left i t)"
  shows "work_left n st = Suc (work_left n (st(i := t)))"
proof -
  have "work_left n st = steps_left i (st i) + (\<Sum>j\<in>{..<n} - {i}. steps_left j (st j))"
    unfolding work_left_def using assms(1) by (intro sum.remove) auto
  moreover have "work_left n (st(i := t)) = steps_left i t + (\<Sum>j\<in>{..<n} - {i}. steps_left j (st j))"
    unfolding work_left_def using assms(1) by (subst sum.remove [of _ i]) auto
  ultimately show ?thesis using assms(2) by simp
qed

text \<open>Every program that has not ended finds a character to read.\<close>

definition waiting_for_input :: "nat \<Rightarrow> (nat \<Rightarrow> stage) \<Rightarrow> nat" where
  "waiting_for_input n st = card {i. i < n \<and> st i \<noteq> Left_Loop}"

definition input_left :: "nat \<Rightarrow> string \<Rightarrow> bool" where
  "input_left k xs \<longleftrightarrow> k \<le> length xs \<and> (\<forall>x\<in>set xs. of_char x \<noteq> (10 :: nat))"

lemma waiting_for_input_next:
  assumes "i < n" and "st i \<noteq> Left_Loop"
  shows "waiting_for_input n st = Suc (waiting_for_input n (st(i := Left_Loop)))"
    and "t \<noteq> Left_Loop \<Longrightarrow> waiting_for_input n (st(i := t)) = waiting_for_input n st"
proof -
  have "{j. j < n \<and> st j \<noteq> Left_Loop} = insert i {j. j < n \<and> (st(i := Left_Loop)) j \<noteq> Left_Loop}" using assms by auto
  then show "waiting_for_input n st = Suc (waiting_for_input n (st(i := Left_Loop)))" by (simp add: waiting_for_input_def)
  show "waiting_for_input n (st(i := t)) = waiting_for_input n st" if "t \<noteq> Left_Loop"
    using that assms unfolding waiting_for_input_def by (intro arg_cong [of _ _ card]) auto
qed

lemma input_left_next:
  assumes "input_left (waiting_for_input n st) xs" and "i < n" and "st i \<noteq> Left_Loop"
  shows "\<exists>x rest. xs = x # rest \<and> of_char x \<noteq> (10 :: nat)"
    and "input_left (waiting_for_input n (st(i := t))) (if t = Left_Loop then tl xs else xs)"
proof -
  note w = waiting_for_input_next [OF assms(2), of st, OF assms(3)]
  obtain x rest where xs: "xs = x # rest" using assms(1) w(1) by (cases xs) (simp_all add: input_left_def)
  then show "\<exists>x rest. xs = x # rest \<and> of_char x \<noteq> (10 :: nat)" using assms(1) by (simp add: input_left_def)
  show "input_left (waiting_for_input n (st(i := t))) (if t = Left_Loop then tl xs else xs)"
  proof (cases "t = Left_Loop")
    case True
    then show ?thesis using assms(1) w(1) by (simp add: input_left_def xs)
  next
    case False
    then show ?thesis using assms(1) w(2) [OF False] by simp
  qed
qed

definition fleet_at :: "program_layout list \<Rightarrow> nat set \<Rightarrow> (nat \<Rightarrow> file_system) \<Rightarrow> u8 list \<Rightarrow> (nat \<Rightarrow> stage) \<Rightarrow> rounds \<Rightarrow> fleet \<Rightarrow> bool" where
  "fleet_at Ls S Vs bs st r f \<longleftrightarrow> (let n = length (fl_programs f); w = fl_world f in
     rounds_at n bs st r \<and> views_inv (w_shared w) S (10 * work_left n st) (fleet_contexts f, w_host w) \<and>
     input_left (waiting_for_input n st) (con_in (w_console w)) \<and>
     (\<forall>i<n. machine_at (Ls ! i) i (st i) (Vs i) bs r (facing w (fl_programs f ! i))))"

lemma facing_fields [simp]:
  "g_world (pr_guest (facing w m)) = w" "g_context (pr_guest (facing w m)) = g_context (pr_guest m)"
  "g_vm (pr_guest (facing w m)) = g_vm (pr_guest m)" "pr_phase (facing w m) = pr_phase m" "pr_vars (facing w m) = pr_vars m"
  "pr_interrupts (facing w m) = pr_interrupts m" "pr_processor (facing w m) = pr_processor m"
  by (simp_all add: facing_def)

lemma ready_facing:
  assumes "g_vm s' = g_vm s"
  shows "transfer_ready L s' = transfer_ready L s" and "test_ready T s' = test_ready T s" and "image_ready P s' = image_ready P s"
proof -
  have nm: "names_file sp a n s' = names_file sp a n s" for sp a n
    by (simp add: names_file_def string_at_def apart_def assms)
  show tr: "transfer_ready L s' = transfer_ready L s" for L by (simp add: transfer_ready_def nm room_def apart_def assms)
  show ts: "test_ready T s' = test_ready T s" for T by (simp add: test_ready_def nm room_def apart_def assms)
  show "image_ready P s' = image_ready P s" by (simp add: image_ready_def tr ts)
qed

lemma machine_at_facing:
  assumes m: "machine_at L i t V bs r (facing w m)" and "part r' i = part r i" and "length (machines r') = length (machines r)"
    and "shbuf r' = buffer_state (w_shared w')"
    and same: "file_view (g_context (pr_guest m)) (w_shared w') (w_host w') = file_view (g_context (pr_guest m)) (w_shared w) (w_host w)"
  shows "machine_at L i t V bs r' (facing w' m)"
proof -
  let ?s = "pr_guest (facing w m)" and ?s' = "pr_guest (facing w' m)"
  note D = machine_atD [OF m]
  have vm: "g_vm ?s' = g_vm ?s" and c: "g_context ?s' = g_context ?s" by simp_all
  have "linked i r' ?s'" using D(1) assms(2-4) by (simp add: linked_def)
  moreover have "guest_files ?s' = guest_files ?s" using same by (simp add: guest_files_def)
  moreover have "control_at L i t bs (facing w' m)" using D(6) by (simp add: control_at_def)
  ultimately show ?thesis using m unfolding machine_at_def Let_def ready_facing [OF vm] c by (simp del: facing_fields)
qed

lemma fleet_atD:
  assumes "fleet_at Ls S Vs bs st r f"
  shows "rounds_at (length (fl_programs f)) bs st r" "input_left (waiting_for_input (length (fl_programs f)) st) (con_in (w_console (fl_world f)))"
    "views_inv (w_shared (fl_world f)) S (10 * work_left (length (fl_programs f)) st) (fleet_contexts f, w_host (fl_world f))"
    "i < length (fl_programs f) \<Longrightarrow> machine_at (Ls ! i) i (st i) (Vs i) bs r (facing (fl_world f) (fl_programs f ! i))"
  using assms by (simp_all add: fleet_at_def Let_def)

lemma fleet_contexts_nth: "i < length (fl_programs f) \<Longrightarrow> fleet_contexts f ! i = g_context (pr_guest (fl_programs f ! i))"
  by (simp add: fleet_contexts_def)

text \<open>A machine that may go on has one step, and the fleet is again at a stage.\<close>

lemma fleet_goes:
  assumes f: "fleet_at Ls S Vs bs st r f" and i: "i < length (fl_programs f)" and go: "may_go (length (fl_programs f)) st i"
    and bs: "bs = broadcast_bytes (Vs 0)"
  shows "\<exists>m r'. (\<forall>m'. program_step (Ls ! i) (facing (fl_world f) (fl_programs f ! i)) m' \<longleftrightarrow> m' = m) \<and>
    fleet_at Ls S Vs bs (st(i := next_stage i (st i))) r' \<lparr>fl_programs = (fl_programs f)[i := m], fl_world = g_world (pr_guest m)\<rparr> \<and>
    work_left (length (fl_programs f)) st = Suc (work_left (length (fl_programs f)) (st(i := next_stage i (st i))))"
proof -
  let ?n = "length (fl_programs f)" and ?w = "fl_world f" and ?cs = "fleet_contexts f" and ?t = "next_stage i (st i)"
  let ?m = "facing ?w (fl_programs f ! i)"
  note D = fleet_atD [OF f]
  have m: "machine_at (Ls ! i) i (st i) (Vs i) bs r ?m" by (rule D(4) [OF i])
  have live: "st i \<noteq> Left_Loop" using go by (simp add: may_go_def)
  have "i = 0 \<or> st i \<noteq> Readers_Awaited" using rounds_atD(4) [OF D(1) i] by (auto simp: part_at_def)
  then have work: "work_left ?n st = Suc (work_left ?n (st(i := ?t)))" by (intro work_left_next [OF i] steps_left_next [OF live])
  have views: "views_inv (w_shared (g_world (pr_guest ?m))) S (10 + 10 * work_left ?n (st(i := ?t))) (?cs, guest_host (pr_guest ?m))"
    using D(3) unfolding work by simp
  have ctx: "i < length ?cs" "?cs ! i = g_context (pr_guest ?m)" using i by (simp_all add: fleet_contexts_def)
  then have "g_context (pr_guest ?m) \<in> set ?cs" using nth_mem by metis
  then have able: "able 10 (pr_guest ?m)" using views m by (auto simp: views_inv_def able_def machine_at_def Let_def)
  obtain x rest where inp: "con_in (w_console (g_world (pr_guest ?m))) = x # rest" "of_char x \<noteq> (10 :: nat)"
    using input_left_next(1) [OF D(2) i live] by auto
  have "length bs < 2 ^ 31" by (simp add: bs broadcast_bytes_def BUFFER_SIZE_def)
  then obtain r' m' where g: "goes_to (Ls ! i) ?n i st (Vs i) bs r ?m r' m'"
    using program_goes [OF m D(1) i able go _ _ inp] bs by blast
  then have step: "\<forall>m''. program_step (Ls ! i) ?m m'' \<longleftrightarrow> m'' = m'" and at: "rounds_at ?n bs (st(i := ?t)) r'"
    and parts: "\<And>q. q \<noteq> i \<Longrightarrow> part r' q = part r q" and own: "machine_at (Ls ! i) i ?t (Vs i) bs r' m'"
    and inp': "con_in (w_console (g_world (pr_guest m'))) = (if ?t = Left_Loop then tl (con_in (w_console ?w)) else con_in (w_console ?w))"
    by (simp_all add: goes_to_def Let_def)
  let ?f = "\<lparr>fl_programs = (fl_programs f)[i := m'], fl_world = g_world (pr_guest m')\<rparr>"
  have sp: "spares S (10 * work_left ?n (st(i := ?t))) ?cs i (pr_guest ?m) (pr_guest m')"
    by (rule moves_spare [OF moves_step views ctx]) (use step in blast)
  have cs': "fleet_contexts ?f = ?cs[i := g_context (pr_guest m')]" by (simp add: fleet_contexts_def map_update)
  have link: "shbuf r' = buffer_state (w_shared (g_world (pr_guest m')))" using machine_atD(1) [OF own] by (simp add: linked_def)
  have len: "length (machines r') = length (machines r)" using rounds_atD(2) [OF at] rounds_atD(2) [OF D(1)] by simp
  have "machine_at (Ls ! j) j ((st(i := ?t)) j) (Vs j) bs r' (facing (g_world (pr_guest m')) (fl_programs ?f ! j))" if "j < ?n" for j
  proof (cases "j = i")
    case True
    then show ?thesis using own i by (simp add: facing_def)
  next
    case False
    have "file_view (?cs ! j) (w_shared (g_world (pr_guest m'))) (guest_host (pr_guest m')) = file_view (?cs ! j) (w_shared ?w) (w_host ?w)"
      using sp False that by (simp add: spares_def fleet_contexts_def)
    then show ?thesis
      using machine_at_facing [OF D(4) [OF that] parts [OF False] len link] False that by (simp add: fleet_contexts_nth)
  qed
  then have "fleet_at Ls S Vs bs (st(i := ?t)) r' ?f"
    using at sp cs' inp' input_left_next(2) [OF D(2) i live] by (simp add: fleet_at_def spares_def)
  then show ?thesis using step work by blast
qed

lemma fleet_at_step:
  assumes f: "fleet_at Ls S Vs bs st r f" and bs: "bs = broadcast_bytes (Vs 0)" and step: "fleet_step Ls f f'"
  shows "\<exists>st' r'. fleet_at Ls S Vs bs st' r' f' \<and> length (fl_programs f') = length (fl_programs f) \<and>
    work_left (length (fl_programs f)) st = Suc (work_left (length (fl_programs f)) st')"
  using step
proof (cases rule: fleet_step.cases)
  case (1 i m)
  have "may_go (length (fl_programs f)) st i"
    using program_waits [OF fleet_atD(4) [OF f 1(2)] fleet_atD(1) [OF f] 1(2)] 1(3) by blast
  from fleet_goes [OF f 1(2) this bs] show ?thesis using 1(1,3) by (metis fleet.select_convs(1) length_list_update)
qed

text \<open>As long as a program has not ended, some program may go on.\<close>

lemma some_may_go:
  assumes at: "rounds_at n bs st r" and k: "k < n" "st k \<noteq> Left_Loop"
  shows "\<exists>i<n. may_go n st i"
proof -
  have n: "0 < n" by (rule rounds_at_modes(1) [OF at])
  have reader: "st j \<noteq> Readers_Awaited" "is_done (st 0) \<Longrightarrow> is_done (st j)" if "j \<in> {1..<n}" for j
    using rounds_atD(4) [OF at, of j] that by (auto simp: part_at_def)
  consider (early) "st 0 \<in> {Not_Started, Mode_Pending, Transfer_Pending, Transferred}" | (sent) "st 0 = Readers_Awaited" | (over) "st 0 = Left_Loop"
    by (cases "st 0") auto
  then show ?thesis
  proof cases
    case early
    then show ?thesis using n by (auto simp: may_go_def)
  next
    case sent
    show ?thesis
    proof (cases "\<forall>j\<in>{1..<n}. is_done (st j)")
      case True
      then show ?thesis using n sent by (auto simp: may_go_def)
    next
      case False
      then obtain j where j: "j \<in> {1..<n}" "\<not> is_done (st j)" by blast
      then have "may_go n st j" using reader(1) [OF j(1)] sent by (auto simp: may_go_def is_done_def has_sent_def)
      then show ?thesis using j(1) by auto
    qed
  next
    case over
    then have kr: "k \<in> {1..<n}" using k by (cases "k = 0") auto
    then have "st k = Transferred" using reader(2) [OF kr] over k(2) by (simp add: is_done_def)
    then show ?thesis using k(1) by (auto simp: may_go_def)
  qed
qed

end
