(* ===== verification/Fleet_Run.thy ===== *)
theory Fleet_Run
  imports Fleet
begin

text \<open>
  Whole runs of the guests over one hypervisor, from their start to their end: no schedule gets
  stuck, every program says that its transfer is complete, and the writer's file has arrived at
  every reader.
\<close>

subsection \<open>The start\<close>

definition fleet_ready :: "program_layout list \<Rightarrow> fleet \<Rightarrow> bool" where
  "fleet_ready Ls f \<longleftrightarrow> (let ms = fl_programs f; cs = fleet_contexts f; w = fl_world f in
     configured cs (buffer_state (w_shared w)) \<and> ready (w_shared w) (cs, w_host w) \<and>
     input_left (length ms) (con_in (w_console w)) \<and> 50 * length ms \<le> 2 ^ 31 - 4 \<and>
     (\<forall>i<length ms. let m = ms ! i; s = pr_guest m in
        m = program_begin (pr_processor m) s \<and> image_ready (Ls ! i) s \<and> 1028 \<le> mapping_size (g_vm s) \<and>
        serialOutputBuffer (g_context s) = []))"

text \<open>What a file holds after the test, and what a run leaves of each machine's files.\<close>

definition tested :: "file_system \<Rightarrow> u8 list" where
  "tested V = patch (held V ''guest.txt'') 0 (bytes_of test_message)"

definition final_files :: "(nat \<Rightarrow> file_system) \<Rightarrow> nat \<Rightarrow> string \<rightharpoonup> u8 list" where
  "final_files Vs i = (let fs = (fs_files (Vs i))(''guest.txt'' \<mapsto> tested (Vs i)) in
     if i = 0 then fs
     else fs(''reader.txt'' \<mapsto> patch (held (Vs i) ''reader.txt'') 0 (take BUFFER_SIZE (tested (Vs 0)))))"

lemma work_left_bound: "work_left n (\<lambda>_. Not_Started) \<le> 4 * n + 1"
proof -
  have "work_left n (\<lambda>_. Not_Started) = (\<Sum>i<n. 4 + (if i = 0 then 1 else 0))"
    unfolding work_left_def by (rule sum.cong) (simp_all add: steps_left_def)
  also have "\<dots> \<le> 4 * n + 1" by (simp add: sum.distrib sum.delta)
  finally show ?thesis .
qed

lemma fleet_at_start:
  assumes "fleet_ready Ls f"
  defines "S \<equiv> shared_inodes (w_shared (fl_world f)) (w_host (fl_world f))"
  shows "\<exists>r. fleet_at Ls S (fleet_files f) (broadcast_bytes (fleet_files f 0)) (\<lambda>_. Not_Started) r f"
proof -
  let ?n = "length (fl_programs f)" and ?w = "fl_world f" and ?cs = "fleet_contexts f"
  let ?r = "start_rounds ?cs (buffer_state (w_shared ?w))" and ?bs = "broadcast_bytes (fleet_files f 0)"
  have R: "configured ?cs (buffer_state (w_shared ?w))" "ready (w_shared ?w) (?cs, w_host ?w)" "input_left ?n (con_in (w_console ?w))"
    "50 * ?n \<le> 2 ^ 31 - 4" and each: "\<And>i. i < ?n \<Longrightarrow> fl_programs f ! i = program_begin (pr_processor (fl_programs f ! i)) (pr_guest (fl_programs f ! i)) \<and>
      image_ready (Ls ! i) (pr_guest (fl_programs f ! i)) \<and> 1028 \<le> mapping_size (g_vm (pr_guest (fl_programs f ! i))) \<and>
      serialOutputBuffer (g_context (pr_guest (fl_programs f ! i))) = []"
    using assms(1) by (simp_all add: fleet_ready_def Let_def)
  have len: "length ?cs = ?n" by (simp add: fleet_contexts_def)
  have "0 < ?n" using R(1) len by (auto simp: configured_def)
  then have "10 * work_left ?n (\<lambda>_. Not_Started) \<le> 2 ^ 31 - 4" using R(4) work_left_bound [of ?n] by simp
  then have "views_inv (w_shared ?w) S (10 * work_left ?n (\<lambda>_. Not_Started)) (?cs, w_host ?w)"
    using views_inv_ready [OF R(2), of "replicate (10 * work_left ?n (\<lambda>_. Not_Started)) ()"] by (simp add: S_def)
  moreover have "rounds_at ?n ?bs (\<lambda>_. Not_Started) ?r" using rounds_at_start [OF R(1)] len by simp
  moreover have "waiting_for_input ?n (\<lambda>_. Not_Started) = ?n" by (simp add: waiting_for_input_def)
  moreover have "machine_at (Ls ! i) i Not_Started (fleet_files f i) ?bs ?r (facing ?w (fl_programs f ! i))" if i: "i < ?n" for i
  proof -
    let ?m = "fl_programs f ! i" and ?s = "pr_guest (facing ?w (fl_programs f ! i))"
    have E: "?m = program_begin (pr_processor ?m) (pr_guest ?m)" "image_ready (Ls ! i) ?s" "1028 \<le> mapping_size (g_vm ?s)"
      "serialOutputBuffer (g_context ?s) = []" using each [OF i] ready_facing(3) [of ?s "pr_guest ?m"] by simp_all
    have "g_context ?s \<in> set ?cs" using i by (simp add: fleet_contexts_def)
    then have "fileState (g_context ?s) = initial_FileState" using R(2) unfolding ready_def booted_def by blast
    then have "0 \<le> sint (nextDescriptor (fileState (g_context ?s)))" by (simp add: initial_FileState_def)
    moreover have "linked i ?r ?s"
      using i len E(3) by (simp add: linked_def start_rounds_def part_def fleet_contexts_nth)
    moreover have "control_at (Ls ! i) i Not_Started ?bs (facing ?w ?m)"
      by (subst E(1)) (simp add: control_at_def facing_def program_begin_def phase_at_def vars_at_def interrupts_at_def has_mode_def IRQ_COUNT_def)
    moreover have "transfer_ready (pl_transfer (Ls ! i)) ?s" using E(2) by (simp add: image_ready_def)
    ultimately show ?thesis using E(2,4) by (simp add: machine_at_def Let_def files_at_def fleet_files_def)
  qed
  ultimately have "fleet_at Ls S (fleet_files f) ?bs (\<lambda>_. Not_Started) ?r f" using R(3) by (simp add: fleet_at_def Let_def)
  then show ?thesis by blast
qed

text \<open>After \<open>k\<close> steps.\<close>

lemma fleet_at_run:
  assumes ready: "fleet_ready Ls f0" and "(fleet_step Ls ^^ k) f0 f"
  shows "\<exists>S st r. fleet_at Ls S (fleet_files f0) (broadcast_bytes (fleet_files f0 0)) st r f \<and>
    length (fl_programs f) = length (fl_programs f0) \<and>
    work_left (length (fl_programs f0)) (\<lambda>_. Not_Started) = work_left (length (fl_programs f0)) st + k"
  using assms(2)
proof (induction k arbitrary: f)
  case 0
  then show ?case using fleet_at_start [OF ready] by auto
next
  case (Suc k)
  then obtain f1 where f1: "(fleet_step Ls ^^ k) f0 f1" "fleet_step Ls f1 f" by auto
  obtain S st r where at: "fleet_at Ls S (fleet_files f0) (broadcast_bytes (fleet_files f0 0)) st r f1"
      "length (fl_programs f1) = length (fl_programs f0)"
      "work_left (length (fl_programs f0)) (\<lambda>_. Not_Started) = work_left (length (fl_programs f0)) st + k"
    using Suc.IH [OF f1(1)] by blast
  from fleet_at_step [OF at(1) refl f1(2)] show ?case using at(2,3) by fastforce
qed

lemma ended_stage:
  assumes "fleet_at Ls S Vs bs st r f" and "i < length (fl_programs f)"
  shows "pr_phase (fl_programs f ! i) = Program_Ended e \<longleftrightarrow> e = Halt_Loop \<and> st i = Left_Loop"
proof -
  have "control_at (Ls ! i) i (st i) bs (facing (fl_world f) (fl_programs f ! i))" using machine_atD(6) [OF fleet_atD(4) [OF assms]] .
  then show ?thesis by (cases "st i") (auto simp: control_at_def phase_at_def)
qed

lemma fleet_at_alive:
  assumes at: "fleet_at Ls S Vs bs st r f" and bs: "bs = broadcast_bytes (Vs 0)"
  shows "(\<forall>i<length (fl_programs f). st i = Left_Loop) \<or> (\<exists>f'. fleet_step Ls f f')"
proof (rule disjCI)
  let ?n = "length (fl_programs f)"
  assume none: "\<nexists>f'. fleet_step Ls f f'"
  show "\<forall>i<?n. st i = Left_Loop"
  proof (rule ccontr)
    assume "\<not> (\<forall>i<?n. st i = Left_Loop)"
    then obtain k where "k < ?n" "st k \<noteq> Left_Loop" by blast
    then obtain i where i: "i < ?n" "may_go ?n st i" using some_may_go [OF fleet_atD(1) [OF at]] by blast
    from fleet_goes [OF at i bs] obtain m where "program_step (Ls ! i) (facing (fl_world f) (fl_programs f ! i)) m" by blast
    then show False using fleet_step.intros [OF i(1)] none by blast
  qed
qed

text \<open>Some run reaches the end.\<close>

lemma fleet_completes:
  assumes "fleet_ready Ls f0"
  shows "\<exists>k f. (fleet_step Ls ^^ k) f0 f \<and> (\<forall>i<length (fl_programs f0). pr_phase (fl_programs f ! i) = Program_Ended Halt_Loop)"
proof -
  let ?n = "length (fl_programs f0)" and ?bs = "broadcast_bytes (fleet_files f0 0)"
  have "\<exists>k g. (fleet_step Ls ^^ k) f g \<and> (\<forall>i<?n. pr_phase (fl_programs g ! i) = Program_Ended Halt_Loop)"
    if "fleet_at Ls S (fleet_files f0) ?bs st r f" and "length (fl_programs f) = ?n" for S st r f
    using that
  proof (induction "work_left ?n st" arbitrary: st r f rule: less_induct)
    case less
    show ?case
    proof (cases "\<forall>i<?n. st i = Left_Loop")
      case True
      then have "\<forall>i<?n. pr_phase (fl_programs f ! i) = Program_Ended Halt_Loop" using ended_stage [OF less.prems(1)] less.prems(2) by simp
      then show ?thesis by (intro exI [of _ 0] exI [of _ f]) simp
    next
      case False
      then obtain f' where f': "fleet_step Ls f f'" using fleet_at_alive [OF less.prems(1) refl] less.prems(2) by auto
      from fleet_at_step [OF less.prems(1) refl f'] obtain st' r' where s: "fleet_at Ls S (fleet_files f0) ?bs st' r' f'"
          "length (fl_programs f') = ?n" "work_left ?n st' < work_left ?n st" using less.prems(2) by auto
      from less.hyps [OF s(3,1,2)] obtain k g where "(fleet_step Ls ^^ k) f' g" "\<forall>i<?n. pr_phase (fl_programs g ! i) = Program_Ended Halt_Loop"
        by blast
      then show ?thesis using relpowp_Suc_I2 [of "fleet_step Ls", OF f'] by blast
    qed
  qed
  then show ?thesis using fleet_at_start [OF assms] by blast
qed

text \<open>In a run of the fleet each program makes a run of its own, among changes by the others.\<close>

lemma facing_run: "program_run L m0 m \<Longrightarrow> program_run L m0 (facing w m)"
  unfolding facing_def by (rule program_run.others)

lemma fleet_program_run:
  assumes "(fleet_step Ls ^^ k) f0 f" and "i < length (fl_programs f0)"
  shows "length (fl_programs f) = length (fl_programs f0) \<and> program_run (Ls ! i) (fl_programs f0 ! i) (fl_programs f ! i)"
  using assms(1)
proof (induction k arbitrary: f)
  case 0
  then show ?case by (simp add: program_run.none)
next
  case (Suc k)
  then obtain f1 where f1: "(fleet_step Ls ^^ k) f0 f1" "fleet_step Ls f1 f" by auto
  note IH = Suc.IH [OF f1(1)]
  from f1(2) obtain j m where j: "program_step (Ls ! j) (facing (fl_world f1) (fl_programs f1 ! j)) m"
      "f = \<lparr>fl_programs = (fl_programs f1)[j := m], fl_world = g_world (pr_guest m)\<rparr>" by (rule fleet_stepE)
  show ?case
  proof (cases "j = i")
    case True
    then have "program_run (Ls ! i) (fl_programs f0 ! i) m" using program_run_step [OF facing_run [OF conjunct2 [OF IH]]] j(1) by simp
    then show ?thesis using IH j(2) True assms(2) by simp
  next
    case False
    then show ?thesis using IH j(2) by simp
  qed
qed

subsection \<open>Two machines that share \<^verbatim>\<open>guest.txt\<close>\<close>

definition demo_image :: vm where
  "demo_image = (blank_vm 1024)\<lparr>mem := store_bytes (store_bytes (store_bytes (\<lambda>_. 0) 64 (bytes_of ''guest.txt'')) 96
     (bytes_of test_message)) 160 (bytes_of ''reader.txt'')\<rparr>"

definition demo_program_layout :: program_layout where
  "demo_program_layout = \<lparr>pl_gdt = 0x8000, pl_idt = 0x8100, pl_handler = 0x400, pl_test = \<lparr>tl_sp = 16, tl_path = 64, tl_message = 96, tl_buffer = 128\<rparr>,
     pl_transfer = \<lparr>xl_sp = 16, xl_guest = 64, xl_reader = 160, xl_buffer = 256\<rparr>\<rparr>"

definition fleet_disk :: host where
  "fleet_disk = \<lparr>h_names = [''/srv/g'' \<mapsto> 0], h_dirs = (\<lambda>p. p = ''vm_files''), h_data = (\<lambda>_. replicate 20 42),
     h_owner_write = (\<lambda>_. True), h_next = 1, h_fds = [], h_faults = []\<rparr>"

definition demo_processor :: processor where
  "demo_processor = \<lparr>gdtr = ([], \<lparr>dt_limit = 0, dt_base = 0\<rparr>), idtr = ([], \<lparr>dt_limit = 0, dt_base = 0\<rparr>),
     reg_cs = 0x08, reg_ds = 0x10, reg_es = 0x10, reg_ss = 0x10, interrupts_on = False\<rparr>"

definition fleet_world :: world where
  "fleet_world = quiet_world\<lparr>w_shared := initial_SharedState\<lparr>sharedFiles := [''guest.txt'' \<mapsto> ''/srv/g''],
     buffer_state := initial_SharedBufferState\<lparr>readerCount := 1\<rparr>\<rparr>, w_host := fleet_disk,
     w_console := (w_console quiet_world)\<lparr>con_in := ''xy''\<rparr>\<rparr>"

definition fleet_context :: "nat \<Rightarrow> GuestContext" where
  "fleet_context i = initial_GuestContext\<lparr>gid := i, sharedBuffer := initial_SharedBufferVmState
     \<lparr>sb_mode := if i = 0 then VM_MODE_WRITER else VM_MODE_READER\<rparr>\<rparr>"

definition demo_fleet :: fleet where
  "demo_fleet = \<lparr>fl_programs = map (\<lambda>i. program_begin demo_processor
       \<lparr>g_context = fleet_context i, g_vm = demo_image, g_world = fleet_world\<rparr>) [0, 1], fl_world = fleet_world\<rparr>"

lemma demo_image_ready:
  assumes "g_vm s = demo_image"
  shows "image_ready demo_program_layout s" and "1028 \<le> mapping_size (g_vm s)"
proof -
  have valid: "isValidGuestFileName ''guest.txt''" "isValidGuestFileName ''reader.txt''" by code_simp+
  have sz: "mem_size (g_vm s) = 1024" "1028 \<le> mapping_size (g_vm s)" by (simp_all add: assms demo_image_def blank_vm_def mapping_size_def)
  have "map (\<lambda>b. char_of (unat b)) (bytes_of n) = n" for n using text_of_bytes [of n] unfolding text_of_def .
  moreover have m: "guest_bytes s 64 (length ''guest.txt'') = bytes_of ''guest.txt''" "guest_bytes s 73 1 = [0]"
    "guest_bytes s 160 (length ''reader.txt'') = bytes_of ''reader.txt''" "guest_bytes s 170 1 = [0]"
    "guest_bytes s 96 (length test_message) = bytes_of test_message"
    by (simp_all add: assms demo_image_def load_store_disjoint length_test_message) (simp_all add: load_bytes_def store_bytes_def length_test_message)
  ultimately have "string_at s 64 ''guest.txt''" "string_at s 160 ''reader.txt''" by (simp_all add: string_at_def)
  then show "image_ready demo_program_layout s"
    using valid sz m(5)
    by (simp add: image_ready_def test_ready_def transfer_ready_def demo_program_layout_def Let_def names_file_def apart_def clear_of_def
        disjoint_areas_def room_def FILE_NAME_MAX_def file_request_size_def BUFFER_SIZE_def length_test_message)
  show "1028 \<le> mapping_size (g_vm s)" by (rule sz(2))
qed

lemma fleet_disk_ready:
  assumes "sharedFiles ss = [''guest.txt'' \<mapsto> ''/srv/g'']"
  shows "ready ss (map fleet_context [0, 1], fleet_disk)"
proof -
  have "inode_of fleet_disk d = None" for d by (simp add: inode_of_def fd_lookup_def fleet_disk_def)
  moreover have names: "h_names fleet_disk = [''/srv/g'' \<mapsto> 0]" by (simp add: fleet_disk_def)
  moreover have srv: "''/srv/g'' \<noteq> local_path k n" "local_path k n \<noteq> ''/srv/g''" "vm_directory k \<noteq> ''/srv/g''" "''/srv/g'' \<notin> own_names k" for k n
    by (auto simp: local_path_def vm_directory_def own_names_def)
  moreover have dir: "vm_directory k \<noteq> local_path j n" "''vm_files'' \<noteq> local_path j n" for j k n
    using local_path_not_directory by metis+
  moreover have "shared_inodes ss fleet_disk = {0}" using srv by (auto simp: shared_inodes_def assms names)
  moreover have "host_view k ss fleet_disk" for k
    using srv dir local_path_not_directory by (auto simp: host_view_def names assms fleet_disk_def split: if_splits)
  ultimately show ?thesis
    by (auto simp: ready_def booted_def fleet_context_def host_ok_def initial_GuestContext_def fleet_disk_def split: if_splits)
qed

lemma demo_fleet_ready: "fleet_ready [demo_program_layout, demo_program_layout] demo_fleet"
proof -
  have c: "fleet_contexts demo_fleet = map fleet_context [0, 1]" "fl_world demo_fleet = fleet_world" "length (fl_programs demo_fleet) = 2"
    by (simp_all add: fleet_contexts_def demo_fleet_def program_begin_def)
  have "configured (map fleet_context [0, 1]) (buffer_state (w_shared fleet_world))"
    by (simp add: configured_def fleet_context_def fleet_world_def less_Suc_eq)
  moreover have "ready (w_shared fleet_world) (map fleet_context [0, 1], w_host fleet_world)"
    using fleet_disk_ready [of "w_shared fleet_world"] by (simp add: fleet_world_def)
  moreover have "input_left 2 (con_in (w_console fleet_world))" by (simp add: fleet_world_def input_left_def)
  moreover have "let m = fl_programs demo_fleet ! i; s = pr_guest m in m = program_begin (pr_processor m) s \<and>
      image_ready ([demo_program_layout, demo_program_layout] ! i) s \<and> 1028 \<le> mapping_size (g_vm s) \<and> serialOutputBuffer (g_context s) = []"
    if "i < 2" for i
  proof -
    have m: "fl_programs demo_fleet ! i = program_begin demo_processor \<lparr>g_context = fleet_context i, g_vm = demo_image, g_world = fleet_world\<rparr>"
      "[demo_program_layout, demo_program_layout] ! i = demo_program_layout" using that by (auto simp: demo_fleet_def less_2_cases_iff)
    show ?thesis unfolding m Let_def
      using demo_image_ready [of "\<lparr>g_context = fleet_context i, g_vm = demo_image, g_world = fleet_world\<rparr>"]
      by (simp add: program_begin_def demo_processor_def fleet_context_def initial_GuestContext_def)
  qed
  ultimately show ?thesis unfolding fleet_ready_def c Let_def by simp
qed

lemma demo_reader_file:
  "final_files (fleet_files demo_fleet) 1 ''reader.txt'' = Some (bytes_of test_message @ replicate 5 42)"
proof -
  have "fs_files (fleet_files demo_fleet 0) ''guest.txt'' = Some (replicate 20 42)"
    "fs_files (fleet_files demo_fleet 1) ''reader.txt'' = None"
    by (simp_all add: fleet_files_def guest_files_def facing_def demo_fleet_def program_begin_def fleet_world_def fleet_disk_def
        fleet_context_def initial_GuestContext_def file_view_def seen_file_def local_path_def)
  then show ?thesis
    by (simp add: final_files_def tested_def held_def Let_def patch_def length_test_message BUFFER_SIZE_def)
qed

subsection \<open>Properties\<close>

text \<open>
  C2. No schedule of the guests gets stuck: machines that boot the guest program over a host
  whose calls do not fail, with a character each to read, take at most four steps per machine
  and one more, in whatever order; until all of them have ended some machine has a next step;
  and a program that has ended is in its halt loop, with interrupts armed, its two interrupts
  taken and its transfer finished and successful.
\<close>

theorem guests_run_to_their_end:
  assumes "fleet_ready Ls f0" and "(fleet_step Ls ^^ k) f0 f"
  shows "k \<le> 4 * length (fl_programs f0) + 1 \<and>
    ((\<forall>i<length (fl_programs f0). pr_phase (fl_programs f ! i) = Program_Ended Halt_Loop) \<or> (\<exists>f'. fleet_step Ls f f')) \<and>
    (\<forall>i<length (fl_programs f0). let m = fl_programs f ! i in
       (case pr_phase m of Program_Ended e \<Rightarrow> e = Halt_Loop \<and> armed (Ls ! i) (pr_processor m) \<and> pr_interrupts m = 0 \<and>
          transfer_finished (pr_vars m) \<and> transfer_succeeded (pr_vars m) | _ \<Rightarrow> True))"
proof -
  obtain S st r where at: "fleet_at Ls S (fleet_files f0) (broadcast_bytes (fleet_files f0 0)) st r f"
      "length (fl_programs f) = length (fl_programs f0)"
      "work_left (length (fl_programs f0)) (\<lambda>_. Not_Started) = work_left (length (fl_programs f0)) st + k"
    using fleet_at_run [OF assms] by blast
  have "k \<le> 4 * length (fl_programs f0) + 1" using at(3) work_left_bound [of "length (fl_programs f0)"] by simp
  moreover have "(\<forall>i<length (fl_programs f0). pr_phase (fl_programs f ! i) = Program_Ended Halt_Loop) \<or> (\<exists>f'. fleet_step Ls f f')"
    using fleet_at_alive [OF at(1) refl] ended_stage [OF at(1)] at(2) by auto
  moreover have "case pr_phase (fl_programs f ! i) of Program_Ended e \<Rightarrow> e = Halt_Loop \<and> armed (Ls ! i) (pr_processor (fl_programs f ! i)) \<and>
      pr_interrupts (fl_programs f ! i) = 0 \<and> transfer_finished (pr_vars (fl_programs f ! i)) \<and> transfer_succeeded (pr_vars (fl_programs f ! i))
      | _ \<Rightarrow> True" if "i < length (fl_programs f0)" for i
  proof (cases "st i = Left_Loop")
    case True
    have "control_at (Ls ! i) i (st i) (broadcast_bytes (fleet_files f0 0)) (facing (fl_world f) (fl_programs f ! i))"
      using machine_atD(6) [OF fleet_atD(4) [OF at(1)]] that at(2) by simp
    then show ?thesis by (simp add: control_at_def True phase_at_def vars_at_def interrupts_at_def has_mode_def is_done_def)
  next
    case False
    then show ?thesis using ended_stage [OF at(1), of i] that at(2) by (auto split: program_phase.split)
  qed
  ultimately show ?thesis by (simp add: Let_def)
qed

theorem guests_run_to_their_end_witness:
  "\<exists>k f. (fleet_step [demo_program_layout, demo_program_layout] ^^ k) demo_fleet f \<and> k \<le> 9 \<and>
     (\<forall>i\<in>{0, 1}. pr_phase (fl_programs f ! i) = Program_Ended Halt_Loop \<and> transfer_succeeded (pr_vars (fl_programs f ! i)))"
proof -
  have two: "length (fl_programs demo_fleet) = 2" by (simp add: demo_fleet_def)
  obtain k f where run: "(fleet_step [demo_program_layout, demo_program_layout] ^^ k) demo_fleet f"
      "\<forall>i<2. pr_phase (fl_programs f ! i) = Program_Ended Halt_Loop"
    using fleet_completes [OF demo_fleet_ready] two by auto
  have all: "k \<le> 9" "\<And>i. i < 2 \<Longrightarrow> case pr_phase (fl_programs f ! i) of Program_Ended e \<Rightarrow> transfer_succeeded (pr_vars (fl_programs f ! i)) | _ \<Rightarrow> True"
    using guests_run_to_their_end [OF demo_fleet_ready run(1)] two by (auto simp: Let_def split: program_phase.splits)
  have "\<forall>i\<in>{0, 1}. pr_phase (fl_programs f ! i) = Program_Ended Halt_Loop \<and> transfer_succeeded (pr_vars (fl_programs f ! i))"
    using all(2) [of 0] all(2) [of 1] run(2) by simp
  then show ?thesis using run(1) all(1) by blast
qed

text \<open>
  C1. The broadcast file arrives: in every run of the guests, whatever the order of their steps,
  a reader whose program has ended sees in \<^verbatim>\<open>reader.txt\<close> the first 256 bytes of the
  \<^verbatim>\<open>guest.txt\<close> that the writer's file test left, over what an older file held behind them;
  every machine that has ended sees its own \<^verbatim>\<open>guest.txt\<close> with the test's message, be it
  its own file, a private copy of a shared one or a new one; and no other file of any machine
  has changed.
\<close>

theorem broadcast_file_arrives:
  assumes "fleet_ready Ls f0" and "(fleet_step Ls ^^ k) f0 f" and "i < length (fl_programs f0)"
    and "pr_phase (fl_programs f ! i) = Program_Ended e"
  shows "fs_files (fleet_files f i) = final_files (fleet_files f0) i"
proof -
  obtain S st r where at: "fleet_at Ls S (fleet_files f0) (broadcast_bytes (fleet_files f0 0)) st r f"
      "length (fl_programs f) = length (fl_programs f0)"
    using fleet_at_run [OF assms(1,2)] by blast
  have "st i = Left_Loop" using ended_stage [OF at(1)] assms(3,4) at(2) by simp
  then have "fleet_files f i = files_at i Left_Loop (fleet_files f0 i) (broadcast_bytes (fleet_files f0 0))"
    using machine_atD(3) [OF fleet_atD(4) [OF at(1)], of i] assms(3) at(2) by (simp add: fleet_files_def)
  moreover have "take BUFFER_SIZE (broadcast_bytes V) = take BUFFER_SIZE (tested V)" for V
    by (simp add: broadcast_bytes_def held_def after_test_def tested_def)
  ultimately show ?thesis
    by (simp add: files_at_def final_files_def numbered_next_def after_save_def after_test_def tested_def held_def Let_def)
qed

theorem broadcast_file_arrives_witness:
  "\<exists>k f. (fleet_step [demo_program_layout, demo_program_layout] ^^ k) demo_fleet f \<and>
     fs_files (fleet_files f 1) ''reader.txt'' = Some (bytes_of test_message @ replicate 5 42)"
proof -
  let ?Ls = "[demo_program_layout, demo_program_layout]"
  have two: "length (fl_programs demo_fleet) = 2" by (simp add: demo_fleet_def)
  obtain k f where run: "(fleet_step ?Ls ^^ k) demo_fleet f" "\<forall>i<2. pr_phase (fl_programs f ! i) = Program_Ended Halt_Loop"
    using fleet_completes [OF demo_fleet_ready] two by auto
  have "fs_files (fleet_files f 1) = final_files (fleet_files demo_fleet) 1"
    using broadcast_file_arrives [OF demo_fleet_ready run(1), of 1 Halt_Loop] two run(2) by simp
  then have "fs_files (fleet_files f 1) ''reader.txt'' = Some (bytes_of test_message @ replicate 5 42)"
    using demo_reader_file by simp
  with run(1) show ?thesis by blast
qed

text \<open>
  C28. Whatever the host answers, whatever calls fail and whatever the other machines do in
  between, the guest program runs its course, instruction by instruction of its start-up:
  interrupts are off as long as anything of the start-up is still to come, and whenever they
  are on the tables and the segment registers are loaded and the host's vector reaches the
  handler; of the two interrupts the first sets the mode and the second, and only it,
  finishes the transfer; the handler waits for readers in the writer only; and the program
  ends only with the transfer finished, in the halt loop if it succeeded and in the trap
  otherwise.
\<close>

theorem program_runs_its_course:
  assumes "program_run L (program_begin p s) m"
  shows "(interrupts_on (pr_processor m) \<longrightarrow> armed L (pr_processor m)) \<and>
    pr_interrupts m = interrupts_left (pr_phase m) (pr_vars m) \<and>
    (transfer_finished (pr_vars m) \<longrightarrow> mode_initialized (pr_vars m) \<and> pr_interrupts m = 0) \<and>
    (case pr_phase m of
       Starting rest \<Rightarrow> (rest \<noteq> [] \<longrightarrow> \<not> interrupts_on (pr_processor m)) \<and> \<not> mode_initialized (pr_vars m)
     | Waiting_Loop \<Rightarrow> interrupts_on (pr_processor m)
     | Awaiting bytes_read close_result \<Rightarrow> mode_initialized (pr_vars m) \<and> vm_mode (pr_vars m) = VM_MODE_WRITER \<and> \<not> transfer_finished (pr_vars m)
     | Program_Ended e \<Rightarrow> transfer_finished (pr_vars m) \<and> e = (if transfer_succeeded (pr_vars m) then Halt_Loop else Invalid_Opcode))"
proof -
  have ends: "e \<noteq> Halt_Loop \<longleftrightarrow> e = Invalid_Opcode" for e by (cases e) simp_all
  have start: "interrupts_on q \<longrightarrow> armed L q \<and> rest = []" if "started_up L rest q" for rest q
    using started_up_off [OF that] started_up_armed that by blast
  have on: "armed L q \<Longrightarrow> interrupts_on q" for q by (simp add: armed_def interrupt_reaches_def)
  show ?thesis using program_inv_run [OF assms] start on ends
    by (cases "pr_phase m") (auto simp: program_inv_def Let_def interrupts_left_def)
qed

theorem program_runs_its_course_witness:
  "\<exists>m. program_run demo_program_layout (program_begin demo_processor \<lparr>g_context = fleet_context 0, g_vm = demo_image, g_world = fleet_world\<rparr>) m \<and>
     pr_phase m = Program_Ended Halt_Loop \<and> transfer_succeeded (pr_vars m) \<and> pr_interrupts m = 0"
proof -
  let ?m0 = "program_begin demo_processor \<lparr>g_context = fleet_context 0, g_vm = demo_image, g_world = fleet_world\<rparr>"
  have demo: "length (fl_programs demo_fleet) = 2" "fl_programs demo_fleet ! 0 = ?m0" by (simp_all add: demo_fleet_def)
  obtain k f where run: "(fleet_step [demo_program_layout, demo_program_layout] ^^ k) demo_fleet f"
      "pr_phase (fl_programs f ! 0) = Program_Ended Halt_Loop"
    using fleet_completes [OF demo_fleet_ready] demo(1) by auto
  have "program_run demo_program_layout ?m0 (fl_programs f ! 0)" using fleet_program_run [OF run(1), of 0] demo by simp
  moreover from program_runs_its_course [OF this]
  have "transfer_succeeded (pr_vars (fl_programs f ! 0)) \<and> pr_interrupts (fl_programs f ! 0) = 0"
    using run(2) by (auto split: if_splits)
  ultimately show ?thesis using run(2) by blast
qed

end
