(* ===== verification/File_Types.thy ===== *)
theory File_Types
  imports File_Service File_Content
begin

text \<open>
  The type of a machine's table of open files: every entry has valid flags and a valid name,
  its path is the one its name stands for, and the host opened its descriptor in the mode the
  flags ask for, a shared file for reading only. Every operation keeps it, whatever calls fail.
\<close>

subsection \<open>The mode a descriptor was opened in\<close>

definition fd_access :: "host \<Rightarrow> int \<Rightarrow> access option" where
  "fd_access h d = map_option oh_access (fd_lookup h d)"

definition entry_typed :: "nat \<Rightarrow> (string \<rightharpoonup> path) \<Rightarrow> host \<Rightarrow> OpenFile \<Rightarrow> bool" where
  "entry_typed k tab h f \<longleftrightarrow> areValidOpenFlags (flags f) \<and> isValidGuestFileName (name f) \<and>
     (if shared f then tab (name f) = Some (hostPath f) else hostPath f = local_path k (name f)) \<and>
     fd_access h (hostDescriptor f) = Some (if shared f then O_RDONLY else hf_access (toHostOpenFlags (flags f)))"

definition typed :: "(string \<rightharpoonup> path) \<Rightarrow> GuestContext \<Rightarrow> host \<Rightarrow> bool" where
  "typed tab c h \<longleftrightarrow> (\<forall>(k, f)\<in>set (table c). entry_typed (gid c) tab h f)"

lemma typedD: "typed tab c h \<Longrightarrow> (k, f) \<in> set (table c) \<Longrightarrow> entry_typed (gid c) tab h f"
  by (auto simp: typed_def)

lemma entry_typed_cong:
  "fd_access h' (hostDescriptor f) = fd_access h (hostDescriptor f) \<Longrightarrow> entry_typed k tab h' f = entry_typed k tab h f"
  by (simp add: entry_typed_def)

lemma typed_same: "table c' = table c \<Longrightarrow> gid c' = gid c \<Longrightarrow> fd_access h' = fd_access h \<Longrightarrow> typed tab c' h' = typed tab c h"
  by (simp add: typed_def entry_typed_def)

lemma fd_access_fault [simp]: "fd_access (snd (take_fault h)) = fd_access h"
  by (rule ext) (simp add: fd_access_def)

lemma fd_access_fields [simp]:
  "fd_access (h\<lparr>h_names := a\<rparr>) = fd_access h" "fd_access (h\<lparr>h_data := b\<rparr>) = fd_access h"
  "fd_access (h\<lparr>h_owner_write := c\<rparr>) = fd_access h" "fd_access (h\<lparr>h_next := n\<rparr>) = fd_access h"
  "fd_access (h\<lparr>h_dirs := e\<rparr>) = fd_access h"
  by (simp_all add: fd_access_def fun_eq_iff)

lemma fd_access_offset [simp]: "fd_lookup h d = Some g \<Longrightarrow> fd_access (fd_update h d (g\<lparr>oh_offset := n\<rparr>)) = fd_access h"
  by (rule ext) (simp add: fd_access_def)

lemma fd_access_calls [simp]:
  "fd_access (snd (os_lseek h d off w)) = fd_access h" "fd_access (snd (os_read h d n)) = fd_access h"
  "fd_access (snd (os_write h d bs)) = fd_access h" "fd_access (snd (fs_exists h p)) = fd_access h"
  "fd_access (snd (fs_create_directories h p)) = fd_access h" "fd_access (snd (fs_copy_file h p q)) = fd_access h"
  "fd_access (snd (fs_add_owner_write h p)) = fd_access h" "fd_access (fs_remove h p) = fd_access h"
  by (auto simp: os_lseek_def os_read_def os_write_def fs_exists_def fs_create_directories_def fs_copy_file_def
      fs_add_owner_write_def fs_remove_def Let_def case_prod_beta split: option.split)

lemma fd_access_close [simp]: "fd_access (snd (os_close h d)) = (fd_access h)(d := None)"
  by (rule ext) (simp add: fd_access_def fd_lookup_close)

lemma fd_access_open:
  assumes "os_open h p fl = (d, h')"
  shows "if d < 0 then fd_access h' = fd_access h else fd_access h d = None \<and> fd_access h' = (fd_access h)(d \<mapsto> hf_access fl)"
proof -
  have ins: "0 \<le> d \<and> fd_access h1 d = None \<and> fd_access h' = (fd_access h1)(d \<mapsto> hf_access fl)"
    if "fd_install h1 \<lparr>oh_inode = i, oh_access = hf_access fl, oh_offset = 0\<rparr> = (d, h')" for h1 i
  proof -
    let ?f = "\<lparr>oh_inode = i, oh_access = hf_access fl, oh_offset = 0\<rparr>"
    have "d = fst (fd_install h1 ?f)" "h' = snd (fd_install h1 ?f)" using that by simp_all
    then show ?thesis
      using fd_install_nonneg [of h1 ?f] fd_install_fresh [of h1 ?f] fd_lookup_install [of h1 ?f]
      by (auto simp: fd_access_def fun_eq_iff)
  qed
  show ?thesis
    using assms
  proof (cases rule: os_open_cases)
    case 1
    then show ?thesis by simp
  next
    case (2 i)
    then show ?thesis using ins by fastforce
  next
    case 3
    then show ?thesis using ins [OF 3(3)] by (simp add: created_def)
  qed
qed

subsection \<open>Reopening\<close>

lemma fd_access_closeReopened:
  "fd_access (closeReopenedFiles rs h) d = (if d \<in> snd ` set rs then None else fd_access h d)"
proof (induction rs arbitrary: h)
  case (Cons r rs)
  obtain k e where "r = (k, e)" by (cases r)
  then show ?case using Cons.IH [of "snd (os_close h e)"] by simp
qed simp

text \<open>What the scan leaves open stays; the new descriptors have the modes the flags ask for.\<close>

lemma reopen_scan_types:
  assumes "reopen_scan n p t rs h = (res, h')"
  shows "case res of
      None \<Rightarrow> \<forall>d. fd_access h d \<noteq> None \<longrightarrow> d \<notin> snd ` set rs \<longrightarrow> fd_access h' d = fd_access h d
    | Some rs' \<Rightarrow> (\<forall>d. fd_access h d \<noteq> None \<longrightarrow> fd_access h' d = fd_access h d) \<and>
        (\<exists>new. rs' = rs @ new \<and> (\<forall>(k, d)\<in>set new. fd_access h d = None \<and>
           (\<exists>f. (k, f) \<in> set t \<and> matches n f \<and> fd_access h' d = Some (hf_access (toHostOpenFlags (flags f))))))"
  using assms
proof (induction t arbitrary: rs h)
  case Nil
  then show ?case by auto
next
  case (Cons e t)
  obtain k f where e: "e = (k, f)" by (cases e)
  have seek: "fd_access h1 = fd_access h" if "os_lseek h d off w = (x, h1)" for h d off w x h1
    using arg_cong [OF that, of "fd_access \<circ> snd"] by simp
  show ?case
    using Cons.prems [unfolded e]
  proof (cases rule: reopen_scan_Cons)
    case skip
    then show ?thesis using Cons.IH [OF skip(2)] by (fastforce simp: e split: option.splits)
  next
    case (seek_fails off h1)
    then show ?thesis using seek [OF seek_fails(1)] by (simp add: fd_access_closeReopened)
  next
    case (open_fails off h1 d h2)
    then show ?thesis using seek [OF open_fails(1)] fd_access_open [OF open_fails(2)] by (simp add: fd_access_closeReopened)
  next
    case (position_fails off h1 d h2 q h3)
    then show ?thesis
      using seek [OF position_fails(1)] fd_access_open [OF position_fails(2)] seek [OF position_fails(4)]
      by (auto simp: fd_access_closeReopened)
  next
    case (reopened off h1 d h2 q h3)
    have d: "fd_access h d = None" "fd_access h3 = (fd_access h)(d \<mapsto> hf_access (toHostOpenFlags (flags f)))"
      using seek [OF reopened(3)] fd_access_open [OF reopened(5)] seek [OF reopened(7)] reopened(6) by simp_all
    note ih = Cons.IH [OF reopened(9)]
    show ?thesis
    proof (cases res)
      case None
      have "fd_access h' x = fd_access h x" if a: "fd_access h x \<noteq> None" "x \<notin> snd ` set rs" for x
      proof -
        have "x \<noteq> d" using a(1) d(1) by metis
        then show ?thesis using ih None a by (simp add: d(2))
      qed
      then show ?thesis using None by simp
    next
      case (Some rs')
      then obtain new where new: "rs' = (rs @ [(k, d)]) @ new" "\<forall>x. fd_access h3 x \<noteq> None \<longrightarrow> fd_access h' x = fd_access h3 x"
          "\<forall>(k, d)\<in>set new. fd_access h3 d = None \<and>
             (\<exists>f. (k, f) \<in> set t \<and> matches n f \<and> fd_access h' d = Some (hf_access (toHostOpenFlags (flags f))))"
        using ih by auto
      have "\<forall>x. fd_access h x \<noteq> None \<longrightarrow> fd_access h' x = fd_access h x" using new(2) d by auto
      moreover have "fd_access h' d = Some (hf_access (toHostOpenFlags (flags f)))" using new(2) d(2) by auto
      then have "\<forall>(k', d')\<in>set ((k, d) # new). fd_access h d' = None \<and>
          (\<exists>f. (k', f) \<in> set (e # t) \<and> matches n f \<and> fd_access h' d' = Some (hf_access (toHostOpenFlags (flags f))))"
        using new(3) d reopened(1,2) by (fastforce simp: e split: if_splits)
      ultimately show ?thesis using Some new(1) by auto
    qed
  qed
qed

lemma reopen_commit_moves:
  assumes "reopen_commit p rs t h = (t', h')" and "distinct (map fst rs)"
  shows "t' = map (moved p rs) t \<and> (\<forall>d. fd_access h' d =
    (if \<exists>k\<in>fst ` set rs. \<exists>f. map_of t k = Some f \<and> hostDescriptor f = d then None else fd_access h d))"
  using assms
proof (induction rs arbitrary: t h)
  case Nil
  have "moved p [] = id" by (auto simp: moved_def)
  then show ?case using Nil by simp
next
  case (Cons r rs)
  obtain k d where r: "r = (k, d)" by (cases r)
  have k: "k \<notin> fst ` set rs" "distinct (map fst rs)" using Cons.prems(2) by (auto simp: r)
  let ?t = "update_entry k (\<lambda>f. f\<lparr>hostDescriptor := d, hostPath := p, shared := False\<rparr>) t"
  let ?h = "case map_of t k of None \<Rightarrow> h | Some f \<Rightarrow> snd (os_close h (hostDescriptor f))"
  have "reopen_commit p rs ?t ?h = (t', h')" using Cons.prems(1) by (simp add: r Let_def)
  note ih = Cons.IH [OF this k(2)]
  have same: "map_of ?t k' = map_of t k'" if "k' \<in> fst ` set rs" for k' using that k(1) by auto
  have acc: "fd_access ?h x = (if \<exists>f. map_of t k = Some f \<and> hostDescriptor f = x then None else fd_access h x)" for x
    by (cases "map_of t k") auto
  have "t' = map (moved p (r # rs)) t" using ih map_moved_update [OF k(1)] unfolding r by metis
  moreover have "(\<exists>k\<in>fst ` set rs. \<exists>f. map_of ?t k = Some f \<and> hostDescriptor f = x) \<longleftrightarrow>
      (\<exists>k\<in>fst ` set rs. \<exists>f. map_of t k = Some f \<and> hostDescriptor f = x)" for x
    using same by (intro bex_cong) auto
  ultimately show ?case using ih acc by (auto simp: r)
qed

lemma typed_reopen:
  assumes dist: "distinct (map fst (table c))" and own: "distinct (map fst (owners (table c)))" and ty: "typed tab c h" and re: "reopenSharedFiles c h n (local_path (gid c) n) = (ok, c', h')"
  shows "typed tab c' h'"
proof -
  let ?p = "local_path (gid c) n"
  obtain res h1 where scan: "reopen_scan n ?p (table c) [] h = (res, h1)" by fastforce
  note sc = reopen_scan_types [OF scan]
  have fd: "fd_access h (hostDescriptor f) \<noteq> None" if "(k, f) \<in> set (table c)" for k f
    using typedD [OF ty that] by (simp add: entry_typed_def)
  show ?thesis
  proof (cases res)
    case None
    then have "c' = c" "h' = h1" using re scan by (auto simp: reopenSharedFiles_def table_def)
    moreover have "entry_typed (gid c) tab h1 f" if "(k, f) \<in> set (table c)" for k f
      using typedD [OF ty that] entry_typed_cong [of h1 f h] sc None fd [OF that] by simp
    ultimately show ?thesis by (auto simp: typed_def)
  next
    case (Some rs)
    obtain t h2 where commit: "reopen_commit ?p rs (table c) h1 = (t, h2)" by fastforce
    have c': "c' = set_openFiles c t" "h' = h2" using re scan Some commit by (auto simp: reopenSharedFiles_def table_def Let_def)
    have kept: "fd_access h1 d = fd_access h d" if "fd_access h d \<noteq> None" for d using sc Some that by simp
    have new: "fd_access h d = None \<and> (\<exists>f. (k, f) \<in> set (table c) \<and> matches n f \<and> fd_access h1 d = Some (hf_access (toHostOpenFlags (flags f))))"
      if "(k, d) \<in> set rs" for k d using sc Some that by auto
    have "distinct (map fst rs)"
      using reopen_scan_keys [OF scan [unfolded Some]] dist by (simp add: matching_def distinct_map_filter)
    note cm = reopen_commit_moves [OF commit this]
    have "entry_typed (gid c) tab h2 f'" if "(k, f') \<in> set t" for k f'
    proof -
      obtain f where f: "(k, f) \<in> set (table c)" "(k, f') = moved ?p rs (k, f)" using cm \<open>(k, f') \<in> set t\<close> by (auto simp: moved_def)
      note tf = typedD [OF ty f(1)]
      show ?thesis
      proof (cases "map_of rs k")
        case None
        then have ff: "f' = f" using f(2) by (simp add: moved_def)
        have "\<not> (\<exists>k\<in>fst ` set rs. \<exists>g. map_of (table c) k = Some g \<and> hostDescriptor g = hostDescriptor f)"
        proof clarify
          fix k1 d1 g assume "(k1, d1) \<in> set rs" "map_of (table c) (fst (k1, d1)) = Some g" "hostDescriptor g = hostDescriptor f"
          then have "k1 = k" using owners_differ [OF own, of k1 g k f] f(1) dist by auto
          then show False using None \<open>(k1, d1) \<in> set rs\<close> by (simp add: map_of_eq_None_iff rev_image_eqI)
        qed
        then have "fd_access h2 (hostDescriptor f) = fd_access h (hostDescriptor f)"
          using conjunct2 [OF cm] kept [OF fd [OF f(1)]] by presburger
        then show ?thesis using tf ff entry_typed_cong [of h2 f h] by simp
      next
        case d: (Some d)
        then have rs: "(k, d) \<in> set rs" by (rule map_of_SomeD)
        obtain f1 where "(k, f1) \<in> set (table c)" "matches n f1" "fd_access h1 d = Some (hf_access (toHostOpenFlags (flags f1)))"
          using new [OF rs] by blast
        moreover from this have "f1 = f" using f(1) dist by (metis eq_key_imp_eq_value)
        moreover have "\<not> (\<exists>k\<in>fst ` set rs. \<exists>g. map_of (table c) k = Some g \<and> hostDescriptor g = d)"
          using new [OF rs] fd by (metis map_of_SomeD)
        ultimately show ?thesis using f(2) d tf cm by (simp add: moved_def entry_typed_def)
      qed
    qed
    then show ?thesis by (auto simp: typed_def c')
  qed
qed

subsection \<open>The operations\<close>

definition sound_table :: "GuestContext \<Rightarrow> bool" where
  "sound_table c \<longleftrightarrow> distinct (map fst (table c)) \<and> distinct (map fst (owners (table c))) \<and> numbered c"

lemma typed_prepare:
  assumes tb: "sound_table c" and ty: "typed tab c h" and f: "(k, f) \<in> set (table c)"
    and pr: "prepareFileForWrite c h f = (ok, c', h')"
  shows "typed tab c' h'"
proof (cases "shared f")
  case False
  then show ?thesis using ty pr by (simp add: prepareFileForWrite_def)
next
  case True
  let ?p = "local_path (gid c) (name f)"
  obtain e1 h1 where h1: "fs_create_directories h (parent_path ?p) = (e1, h1)" by fastforce
  obtain e2 h2 where h2: "fs_copy_file h1 (hostPath f) ?p = (e2, h2)" by fastforce
  obtain e3 h3 where h3: "fs_add_owner_write h2 ?p = (e3, h3)" by fastforce
  obtain ok4 c4 h4 where re: "reopenSharedFiles c h3 (name f) ?p = (ok4, c4, h4)" by (cases "reopenSharedFiles c h3 (name f) ?p") auto
  have acc: "fd_access h1 = fd_access h" "fd_access h2 = fd_access h" "fd_access h3 = fd_access h"
    using arg_cong [OF h1, of "fd_access \<circ> snd"] arg_cong [OF h2, of "fd_access \<circ> snd"] arg_cong [OF h3, of "fd_access \<circ> snd"]
    by simp_all
  have same: "typed tab c g" if "fd_access g = fd_access h" for g using typed_same [OF refl refl that] ty by simp
  have "typed tab c4 h4" using typed_reopen [OF _ _ same re] tb acc by (simp add: sound_table_def)
  moreover from this have "typed tab c4 (fs_remove h4 ?p)" using typed_same [of c4 c4 "fs_remove h4 ?p" h4 tab] by simp
  ultimately show ?thesis
    using pr True same acc by (auto simp: prepareFileForWrite_def h1 h2 h3 re Let_def split: if_splits)
qed

lemma typed_write:
  assumes tb: "sound_table c" and ty: "typed tab c h" and w: "writeFile c v h r = (x, c', h')"
  shows "typed tab c' h'"
proof (cases "map_of (table c) (req_descriptor r)")
  case None
  then show ?thesis using w ty by (simp add: writeFile_def table_def)
next
  case (Some f)
  obtain ok c1 h1 where p: "prepareFileForWrite c h f = (ok, c1, h1)" by (cases "prepareFileForWrite c h f") auto
  have t1: "typed tab c1 h1" by (rule typed_prepare [OF tb ty map_of_SomeD [OF Some] p])
  have "typed tab c1 (snd (os_write h1 d bs))" for d bs using typed_same [of c1 c1 "snd (os_write h1 d bs)" h1 tab] t1 by simp
  then have "typed tab c1 g" if "os_write h1 d bs = (y, g)" for d bs y g using that by (metis snd_conv)
  then show ?thesis
    using w Some p t1 ty by (auto simp: writeFile_def table_def Let_def split: if_splits option.splits prod.splits)
qed

lemma typed_read:
  assumes "typed tab c h" and "readFile c v h r = (x, v', h')"
  shows "typed tab c h'"
proof -
  have "fd_access g = fd_access h" if "os_read h d n = (y, g)" for d n y g
    using arg_cong [OF that, of "fd_access \<circ> snd"] by simp
  then have "fd_access h' = fd_access h"
    using assms(2) by (auto simp: readFile_def split: if_splits option.splits prod.splits)
  then show ?thesis using typed_same [of c c h' h tab] assms(1) by simp
qed

lemma typed_seek:
  assumes "typed tab c h" and "seekFile c h r = (x, h')"
  shows "typed tab c h'"
proof -
  have "fd_access g = fd_access h" if "os_lseek h d off w = (y, g)" for d off w y g
    using arg_cong [OF that, of "fd_access \<circ> snd"] by simp
  then have "fd_access h' = fd_access h"
    using assms(2) by (auto simp: seekFile_def Let_def split: if_splits option.splits prod.splits)
  then show ?thesis using typed_same [of c c h' h tab] assms(1) by simp
qed

lemma typed_close:
  assumes tb: "sound_table c" and ty: "typed tab c h" and cl: "closeFile c h k = (x, c', h')"
  shows "typed tab c' h'"
proof (cases "map_of (table c) k")
  case None
  then show ?thesis using cl ty by (simp add: closeFile_def table_def)
next
  case (Some f)
  have c': "c' = set_openFiles c (erase k (table c))" "h' = snd (os_close h (hostDescriptor f))"
    using cl Some by (auto simp: closeFile_def table_def Let_def case_prod_beta)
  have "entry_typed (gid c) tab h' g" if "(j, g) \<in> set (erase k (table c))" for j g
  proof -
    have j: "(j, g) \<in> set (table c)" "j \<noteq> k" using that by (auto simp: erase_def)
    then have "map_of (table c) j = Some g" using tb by (simp add: sound_table_def)
    then have "hostDescriptor g \<noteq> hostDescriptor f" using owners_differ [OF _ _ Some j(2)] tb by (simp add: sound_table_def)
    then have "fd_access h' (hostDescriptor g) = fd_access h (hostDescriptor g)" by (simp add: c'(2))
    then show ?thesis using entry_typed_cong [of h' g h] typedD [OF ty j(1)] by simp
  qed
  then show ?thesis by (auto simp: typed_def c'(1))
qed

lemma typed_open:
  assumes tb: "sound_table c" and ty: "typed (sharedFiles ss) c h" and op: "openFile c ss v h r = (x, c', h')"
  shows "typed (sharedFiles ss) c' h'"
proof (cases "areValidOpenFlags (req_flags r) \<and> readGuestFileName v (req_buffer r) \<noteq> None")
  case False
  then show ?thesis using op ty by (auto simp: openFile_def split: if_splits option.splits)
next
  case True
  then obtain n where n: "areValidOpenFlags (req_flags r)" "readGuestFileName v (req_buffer r) = Some n" by blast
  obtain rf h1 where rs: "resolveFile c ss h n = (rf, h1)" by fastforce
  have rf: "if rf_shared rf then sharedFiles ss n = Some (rf_path rf) else rf_path rf = local_path (gid c) n"
    and a1: "fd_access h1 = fd_access h"
    using rs fd_access_calls(4) [of h "local_path (gid c) n"]
    by (auto simp: resolveFile_def Let_def case_prod_beta split: if_splits option.splits)
  obtain err h2 where dirs: "(if \<not> rf_shared rf \<and> req_flags r AND FILE_OPEN_CREATE \<noteq> 0
      then fs_create_directories h1 (parent_path (rf_path rf)) else (False, h1)) = (err, h2)" by fastforce
  have a2: "fd_access h2 = fd_access h" using dirs a1 fd_access_calls(5) [of h1 "parent_path (rf_path rf)"]
    by (auto simp del: fd_access_calls split: if_splits)
  let ?fl = "if rf_shared rf then \<lparr>hf_access = O_RDONLY, hf_creat = False\<rparr> else toHostOpenFlags (req_flags r)"
  obtain d h3 where opn: "os_open h2 (rf_path rf) ?fl = (d, h3)" by fastforce
  note a3 = fd_access_open [OF opn]
  let ?k = "nextDescriptor (fileState c)"
  let ?f = "\<lparr>hostDescriptor = d, flags = req_flags r, name = n, hostPath = rf_path rf, shared = rf_shared rf\<rparr>"
  have fresh: "map_of (table c) ?k = None" using tb by (simp add: sound_table_def numbered_fresh)
  consider (fails) "c' = c" "fd_access h' = fd_access h"
    | (opened) "0 \<le> d" "h' = h3" "table c' = (?k, ?f) # table c" "gid c' = gid c"
    using op n rs dirs opn a2 a3 fresh
    by (auto simp: openFile_def Let_def table_def set_openFiles_def split: if_splits)
  then show ?thesis
  proof cases
    case fails
    then show ?thesis using typed_same [of c c h' h] ty by simp
  next
    case opened
    then have d: "fd_access h d = None" "fd_access h' = (fd_access h)(d \<mapsto> hf_access ?fl)" using a2 a3 by simp_all
    have "entry_typed (gid c) (sharedFiles ss) h' g" if "(j, g) \<in> set (table c)" for j g
    proof -
      note tg = typedD [OF ty that]
      then have "hostDescriptor g \<noteq> d" using d(1) by (auto simp: entry_typed_def)
      then show ?thesis using entry_typed_cong [of h' g h] tg d(2) by simp
    qed
    moreover have "entry_typed (gid c) (sharedFiles ss) h' ?f"
      using n(1) readGuestFileName_valid [OF n(2)] rf d(2) by (simp add: entry_typed_def)
    ultimately show ?thesis using opened by (auto simp: typed_def)
  qed
qed

lemma typed_process:
  assumes "sound_table c" and "typed (sharedFiles ss) c h" and "processFileRequest c ss v h r = (x, c', v', h')"
  shows "typed (sharedFiles ss) c' h'"
  using assms
  by (auto simp: processFileRequest_def dest: typed_open typed_close typed_read typed_write typed_seek split: if_splits prod.splits)

lemma typed_handle:
  assumes "sound_table c" and "typed (sharedFiles ss) c h" and "handleFileIo c ss v h = (ok, c', v', h')"
  shows "typed (sharedFiles ss) c' h'"
  using assms(3)
proof (cases rule: handleFileIo_cases)
  case unchanged
  then show ?thesis using assms(2) by (simp add: typed_def table_def)
next
  case (request r x c1)
  then show ?thesis using typed_process [OF assms(1,2) request(1)] by (simp add: typed_def)
qed

end
