(* ===== verification/Hypervisor_Types.thy ===== *)
theory Hypervisor_Types
  imports Hypervisor_Views File_Types
begin

text \<open>
  The type of the open files in the whole process: in every state of every run each machine's
  table is well typed, whatever the guests do and whatever calls of the host fail.
\<close>

lemma file_change_typed:
  assumes tb: "sound_table c" and ty: "typed (sharedFiles ss) c h" and ch: "file_change es c ss h c' h'"
  shows "typed (sharedFiles ss) c' h'"
proof -
  obtain c1 where eq: "gid c' = gid c1" "fileState c' = fileState c1" and
    "(\<exists>x ok x'. handleFileIo c ss x h = (ok, c1, x', h')) \<or> c1 = c \<and> h' = h \<or>
      c1 = c\<lparr>fileState := (fileState c)\<lparr>openFiles := []\<rparr>\<rparr> \<and> h' = close_all (table c) h"
    using ch unfolding file_change_def by blast
  then have "typed (sharedFiles ss) c1 h'"
    using ty typed_handle [OF tb ty] by (elim disjE exE conjE) (blast, simp, simp add: typed_def table_def)
  then show ?thesis using eq by (simp add: typed_def table_def)
qed

lemma guest_inv_sound: "guest_inv P c h \<Longrightarrow> numbered c \<Longrightarrow> sound_table c"
  by (simp add: guest_inv_def own_inv_def sound_table_def)

definition types_inv :: "system \<Rightarrow> bool" where
  "types_inv s \<longleftrightarrow> (\<forall>c\<in>set (sy_contexts s). typed (sharedFiles (w_shared (sy_world s))) c (w_host (sy_world s)))"

lemma types_inv_main: "main_step strerror x s = Some s' \<Longrightarrow> types_inv s' = types_inv s"
  by (simp add: types_inv_def main_step_files)

lemma typed_same_view:
  assumes "typed tab c h" and "same_view c h h'"
  shows "typed tab c h'"
proof -
  have "entry_typed (gid c) tab h' f" if "(k, f) \<in> set (table c)" for k f
  proof -
    have "fd_lookup h' (hostDescriptor f) = fd_lookup h (hostDescriptor f)"
      using assms(2) in_owners [OF that] unfolding same_view_def fds_def by blast
    then show ?thesis using typedD [OF assms(1) that] entry_typed_cong [of h' f h] by (simp add: fd_access_def)
  qed
  then show ?thesis by (auto simp: typed_def)
qed

lemma types_inv_machine:
  assumes move: "machine_move strerror i mv s = Some s'" and i: "i < length (sy_contexts s)"
    and files: "files_inv S tab cs0 h0 n s" and bound: "n + file_accesses mv \<le> 2 ^ 31 - 4" and inv: "types_inv s"
  shows "types_inv s'"
proof -
  let ?cs = "sy_contexts s" and ?h = "w_host (sy_world s)" and ?ss = "w_shared (sy_world s)" and ?k = "file_accesses mv"
  obtain c p w where r: "runGuest_step strerror mv (?cs ! i) (sy_world s) (sy_phases s ! i) = Some (c, p, w)"
    and s': "s' = put i c p w s" using move by (rule machine_moveD)
  have sv: "service_inv S (?cs, ?h)" and left: "2 ^ 31 - 4 - int n \<le> opens_left (?cs ! i)"
    using files i by (simp_all add: files_inv_def Let_def)
  have num: "numbered (?cs ! i)" and gi: "guest_inv (protected S ?cs ?h i) (?cs ! i) ?h"
    using sv i by (simp_all add: service_inv_def)
  note f = runGuest_step_files [OF r num]
  have "?k = 0 \<or> 0 < opens_left (?cs ! i)" using left bound by (cases "?k = 0") auto
  then have num': "numbered c" by (rule file_effect_numbered(1) [OF f(1) num])
  have gs: "guest_step (protected S ?cs ?h i) (?cs ! i) ?h c (w_host w)" using f(1) by (simp add: file_effect_def)
  have ty: "typed (sharedFiles ?ss) d ?h" if "d \<in> set ?cs" for d using inv that by (simp add: types_inv_def)
  have own: "typed (sharedFiles ?ss) c (w_host w)"
    by (rule file_change_typed [OF guest_inv_sound [OF gi num] ty runGuest_step_change [OF r]]) (use i in simp)
  have "typed (sharedFiles ?ss) d (w_host w)" if "d \<in> set (?cs[i := c])" for d
  proof -
    obtain j where j: "j < length ?cs" "d = ?cs[i := c] ! j" using \<open>d \<in> set (?cs[i := c])\<close> by (auto simp: in_set_conv_nth)
    show ?thesis
    proof (cases "j = i")
      case False
      have "typed (sharedFiles ?ss) (?cs ! j) (w_host w)"
        by (rule typed_same_view [OF ty service_step(2) [OF sv i gs num' j(1) False]]) (use j in simp)
      then show ?thesis using j False by simp
    qed (use own j in simp)
  qed
  then show ?thesis using f(3) by (simp add: types_inv_def s')
qed

lemma types_inv_run:
  assumes "system_run strerror G n s s'" and "n \<le> 2 ^ 31 - 4" and "main_inv s" and "files_inv S tab cs0 h0 0 s" and "types_inv s"
  shows "types_inv s'"
proof -
  have "types_inv s' \<and> files_inv S tab cs0 h0 n s' \<and> main_inv s'"
    by (rule system_run_inv [OF assms(1)])
      (use assms(2-5) in \<open>auto elim!: system_stepE
        simp: types_inv_main intro: types_inv_machine files_inv_main files_inv_machine main_inv_main main_inv_machine\<close>)
  then show ?thesis by simp
qed

text \<open>
  C10. Open files are well typed: in every state of every run of the process, with any guests and
  any failing host calls, each entry of a machine's table has valid flags and a valid name, its
  path is the shared file's or the machine's own of that name, its host descriptor is open in
  exactly the mode the flags ask for, and an entry of a shared file is open for reading only.
  No two entries share a descriptor number, on either side.
\<close>

theorem open_files_well_typed:
  assumes "system_run strerror any_guest n (main_begin fs program args h input) s" and "n \<le> 2 ^ 31 - 4"
    and "host_prepared fs (config (co_result (parseArguments program args))) h"
  shows "\<forall>c\<in>set (sy_contexts s). sound_table c \<and> typed (sharedFiles (w_shared (sy_world s))) c (w_host (sy_world s))"
proof (cases "sy_main (main_begin fs program args h input) = Creating 0")
  case True
  let ?s0 = "main_begin fs program args h input"
  have "fileState c = initial_FileState" if "c \<in> set (sy_contexts ?s0)" for c
    using that main_begin_created(1) [OF True] by (auto simp: guest_contexts_def guest_context_def initial_GuestContext_def)
  then have "types_inv ?s0" by (simp add: types_inv_def typed_def table_def initial_FileState_def)
  from types_inv_run [OF assms(1,2) main_inv_begin files_inv_begin(1) [OF True assms(3)] this] have "types_inv s" .
  moreover have "service_inv (original_inodes (sharedFiles (w_shared (sy_world ?s0))) h) (sy_contexts s, w_host (sy_world s))"
    using files_inv_run [OF assms(1,2) main_inv_begin files_inv_begin(1) [OF True assms(3)]] by (simp add: files_inv_def Let_def)
  then have "sound_table c" if "c \<in> set (sy_contexts s)" for c
    using that guest_inv_sound by (fastforce simp: service_inv_def in_set_conv_nth)
  ultimately show ?thesis by (simp add: types_inv_def)
next
  case False
  then obtain x where x: "sy_main (main_begin fs program args h input) = Left x" using main_begin_cases by metis
  then have "s = main_begin fs program args h input" using left_stays [OF assms(1)] by simp
  then show ?thesis using False by (auto simp: main_begin_def begun_def Let_def split: CliStatus.splits prod.splits if_splits)
qed

theorem open_files_well_typed_witness:
  "\<exists>s. system_run no_messages any_guest 1 (main_begin demo_paths ''vm'' demo_arguments shared_disk []) s \<and>
     (\<forall>c\<in>set (sy_contexts s). typed (sharedFiles (w_shared (sy_world s))) c (w_host (sy_world s)))"
proof -
  obtain s where s: "system_run no_messages any_guest 1 (main_begin demo_paths ''vm'' demo_arguments shared_disk []) s"
    using demo_access by (auto simp: demo_begin_def)
  then show ?thesis using open_files_well_typed [OF s _ demo_prepared] by auto
qed

end
