(* ===== verification/Solo_Run.thy ===== *)
theory Solo_Run
  imports Hypervisor
begin

text \<open>
  One complete run of the process, for the theorems about whole runs: a single writer without
  readers is set up, learns its mode, sends an empty round, sees it acknowledged and halts;
  \<^verbatim>\<open>main\<close> joins its thread and leaves with \<open>EXIT_SUCCESS\<close>.
\<close>

definition solo_config :: Config where
  "solo_config = \<lparr>cfg_memorySize = 2 * MiB, cfg_pageSize = 4 * KiB, guestImages = [''w.img''], cfg_sharedFiles = []\<rparr>"

definition solo_arguments :: "string list" where
  "solo_arguments = command_line solo_config [(Page, True), (Guest, False), (Memory, False)]"

definition solo_begin :: system where
  "solo_begin = main_begin demo_paths ''vm'' solo_arguments shared_disk []"

lemma solo_parsed:
  "parseArguments ''vm'' solo_arguments = \<lparr>co_result = \<lparr>status = Cli_Ok, config = solo_config\<rparr>, co_out = [], co_err = []\<rparr>"
  unfolding solo_arguments_def
  by (rule parse_documented) (simp add: documented_def solo_config_def valid_values_def is_value_def)

lemma solo_begin_main: "sy_main solo_begin = Creating 0"
proof -
  have "configureSharedFiles demo_paths solo_config (initial_shared solo_config) =
      (True, (initial_shared solo_config)\<lparr>sharedFiles := shared_table demo_paths []\<rparr>, [])"
    unfolding configureSharedFiles_def configure_loop_ok
    by (simp add: solo_config_def initial_shared_def initial_SharedState_def)
  then show ?thesis by (simp add: solo_begin_def main_begin_def solo_parsed begun_def)
qed

lemma solo_begin_created:
  "sy_contexts solo_begin = [guest_context solo_config 0]" "sy_phases solo_begin = [Absent]"
  "sy_started solo_begin = 0" "sy_good solo_begin"
  "buffer_of (sy_world solo_begin) = initial_SharedBufferState"
proof -
  have "buffer_state (initial_shared solo_config) = initial_SharedBufferState"
    by (simp add: initial_shared_def solo_config_def initial_SharedBufferState_def)
  then show "sy_contexts solo_begin = [guest_context solo_config 0]" "sy_phases solo_begin = [Absent]"
    "buffer_of (sy_world solo_begin) = initial_SharedBufferState"
    using main_begin_created [OF solo_begin_main [unfolded solo_begin_def]]
    unfolding solo_begin_def solo_parsed by (simp_all add: guest_contexts_def solo_config_def)
  show "sy_started solo_begin = 0" "sy_good solo_begin"
    by (auto simp: solo_begin_def main_begin_def begun_def Let_def split: CliStatus.splits prod.splits)
qed

subsection \<open>The machine's thread\<close>

lemma good_boot_mapping:
  assumes "memorySize c = 2097152"
  shows "\<exists>v. br_thread (boot_machine strerror c good_boot w) = Running v 2 \<and> run_mmap_size v = 4096"
proof -
  have keep: "run_mmap_size (fst (setup_long_mode v s p)) = run_mmap_size v" for v s p
    by (subst setup_long_mode_only_mem) simp
  have image: "load_guest_image v (ba_image good_boot) GUEST_START_ADDR = (0, v\<lparr>mem := store_bytes (mem v) GUEST_START_ADDR [0xF4]\<rparr>, [Stream], [Stream])"
    if "mem_size v = 2097152" for v
    using that by (simp add: load_guest_image_def good_boot_def GUEST_START_ADDR_def)
  have "\<exists>v acq. vm_init (ba_kernel good_boot) (memorySize c) = (0, v, acq) \<and> mem_size v = 2097152 \<and> run_mmap_size v = 4096"
    using assms by (simp add: vm_init_def good_boot_def)
  moreover have "ba_get_sregs good_boot = (0, blank_sregs, 0)" "ba_set_sregs good_boot = (0, 0)" "ba_set_regs good_boot = (0, 0)"
    by (simp_all add: good_boot_def)
  ultimately show ?thesis
    using image keep by (auto simp: boot_machine_def Let_def case_prod_beta IRQ_COUNT_def set_window_def)
qed

definition buffer_io :: "io_direction \<Rightarrow> u16 \<Rightarrow> u8 \<Rightarrow> kvm_io" where
  "buffer_io dir port sz = \<lparr>io_direction = dir, io_size = sz, io_port = port, io_count = 1, io_data_offset = 1024\<rparr>"

definition buffer_exit :: "io_direction \<Rightarrow> u16 \<Rightarrow> u8 \<Rightarrow> kvm_event" where
  "buffer_exit dir port sz = Exited KVM_EXIT_IO (buffer_io dir port sz) (\<lambda>_. 0) (\<lambda>_. 0) 0"

lemma run_event_buffer_exit:
  assumes "sharedBufferIo (sharedBuffer c) (buffer_of w) (buffer_io dir port sz) (\<lambda>_. 0) 1024 = Done (True, g, b, m)"
    and "buffer_port (buffer_io dir port sz)" and "run_mmap_size v = 4096" and "sz = 1 \<or> sz = 4"
  shows "\<exists>v'. run_event strerror c v n w (buffer_exit dir port sz) = Looping (c\<lparr>sharedBuffer := g\<rparr>) v' n (set_buffer w b) \<and>
    run_mmap_size v' = 4096"
proof -
  let ?v = "exited v KVM_EXIT_IO (buffer_io dir port sz) (\<lambda>_. 0) (\<lambda>_. 0)"
  have "getIoData ?v = Some 1024"
    using assms(3,4) by (auto simp: getIoData_def exited_def buffer_io_def data_in_mapping_iff mapping_size_def)
  moreover have "io (run ?v) = buffer_io dir port sz" "run_data (run ?v) = (\<lambda>_. 0)" by (simp_all add: exited_def)
  ultimately have "handleSharedBufferIo c (buffer_of w) ?v = Done (True, c\<lparr>sharedBuffer := g\<rparr>, b, set_run_data ?v m)"
    using assms(1,2) by (auto simp: handleSharedBufferIo_def buffer_port_def Let_def)
  then show ?thesis
    using assms(2,3)
    by (auto simp: buffer_exit_def run_event_def port_device_def exited_def buffer_port_def buffer_io_def
        shared_buffer_device_def FILE_IO_PORT_def shared_buffer_consts)
qed

subsection \<open>The run\<close>

lemma finish_guest_buffer:
  "finish_guest ok c w = (c', w') \<Longrightarrow> sharedBuffer c' = sharedBuffer c \<and> completedSuccessfully c' = ok \<and>
     buffer_of w' = (if ok then buffer_of w else abortSharedBuffer (buffer_of w))"
  by (auto simp: finish_guest_def Let_def closeGuestFiles_def set_openFiles_def set_buffer_def split: if_splits)

definition solo_at :: "main_pc \<Rightarrow> GuestContext \<Rightarrow> phase \<Rightarrow> world \<Rightarrow> system \<Rightarrow> bool" where
  "solo_at pc c p w s \<longleftrightarrow> system_run no_messages well_behaved 0 solo_begin s \<and> sy_main s = pc \<and> sy_started s = 1 \<and>
     sy_good s \<and> sy_contexts s = [c] \<and> sy_phases s = [p] \<and> sy_world s = w"

lemma solo_moves:
  assumes "solo_at pc c p w s" and "\<nexists>x. pc = Left x" and "well_behaved s 0 mv" and "file_accesses mv = 0"
    and "runGuest_step no_messages mv c w p = Some (c', p', w')"
  shows "\<exists>s'. solo_at pc c' p' w' s'"
proof -
  have "machine_move no_messages 0 mv s = Some (put 0 c' p' w' s)"
    using assms(1,5) by (simp add: machine_move_def solo_at_def)
  then have "system_step no_messages well_behaved (file_accesses mv) s (put 0 c' p' w' s)"
    using assms(1-3) by (intro system_step.machine [where i = 0]) (simp_all add: solo_at_def)
  then have "system_run no_messages well_behaved 0 solo_begin (put 0 c' p' w' s)"
    using assms(1,4) system_run.more by (fastforce simp: solo_at_def)
  then show ?thesis using assms(1) by (auto simp: solo_at_def)
qed

lemma solo_main:
  assumes "solo_at pc c p w s" and "main_step no_messages 0 s = Some s'" and "sy_started s' = 1" and "sy_good s'"
    and "sy_contexts s' = [c]" and "sy_phases s' = [p]" and "sy_world s' = w"
  shows "solo_at (sy_main s') c p w s'"
  using assms system_run.more [OF _ system_step.main]
  by (auto simp: solo_at_def)

text \<open>A port access of the writer.\<close>

lemma solo_access:
  assumes "solo_at pc c (Active (Running v n)) w s" and "\<nexists>x. pc = Left x"
    and "sharedBufferIo (sharedBuffer c) (buffer_of w) (buffer_io dir port sz) (\<lambda>_. 0) 1024 = Done (True, g, b, m)"
    and "port = SHARED_BUFFER_PORT \<or> port = SHARED_BUFFER_STATUS_PORT" and "run_mmap_size v = 4096" and "sz = 1 \<or> sz = 4"
    and "generation (buffer_of w) \<noteq> - 1" and "sb_mode (sharedBuffer c) = VM_MODE_WRITER"
  shows "\<exists>s' v'. solo_at pc (c\<lparr>sharedBuffer := g\<rparr>) (Active (Running v' n)) (set_buffer w b) s' \<and> run_mmap_size v' = 4096"
proof -
  have port: "buffer_port (buffer_io dir port sz)" using assms(4) by (auto simp: buffer_port_def buffer_io_def)
  obtain v' where r: "run_event no_messages c v n w (buffer_exit dir port sz) = Looping (c\<lparr>sharedBuffer := g\<rparr>) v' n (set_buffer w b)"
    and v': "run_mmap_size v' = 4096" using run_event_buffer_exit [OF assms(3) port assms(5,6)] by blast
  have "well_behaved s 0 (Event (buffer_exit dir port sz))"
    using assms(1,7,8) by (simp add: buffer_exit_def solo_at_def VM_MODE_WRITER_def VM_MODE_READER_def)
  moreover have "file_accesses (Event (buffer_exit dir port sz)) = 0"
    using assms(4) by (auto simp: buffer_exit_def buffer_io_def FILE_IO_PORT_def shared_buffer_consts)
  ultimately show ?thesis using solo_moves [OF assms(1,2), of "Event (buffer_exit dir port sz)"] r v' by fastforce
qed

lemma solo_success:
  obtains s where "system_run no_messages well_behaved 0 solo_begin s" "sy_main s = Left EXIT_SUCCESS"
    "length (sy_contexts s) = 1"
proof -
  let ?c = "guest_context solo_config 0" and ?w = "sy_world solo_begin"
  let ?b = "initial_SharedBufferState"
  let ?g = "\<lambda>wg done. initial_SharedBufferVmState\<lparr>sb_mode := VM_MODE_WRITER, writeGeneration := wg, modeDelivered := True, transferCompleted := done\<rparr>"
  have g0: "sharedBuffer ?c = initial_SharedBufferVmState\<lparr>sb_mode := VM_MODE_WRITER\<rparr>" by (simp add: guest_context_def)
  obtain s1 where s1: "solo_at (Creating 1) ?c Created ?w s1"
  proof -
    let ?s = "solo_begin\<lparr>sy_phases := [Created], sy_started := 1, sy_main := Creating 1\<rparr>"
    have "main_step no_messages 0 solo_begin = Some ?s"
      by (simp add: main_step_def solo_begin_main solo_begin_created)
    then have "solo_at (Creating 1) ?c Created ?w ?s"
      using system_run.more [OF system_run.start system_step.main]
      by (fastforce simp: solo_at_def solo_begin_created)
    then show thesis by (rule that)
  qed
  let ?r = "boot_machine no_messages ?c good_boot ?w"
  have "memorySize ?c = 2097152" by (simp add: guest_context_def solo_config_def MiB_def KiB_def)
  then obtain v2 where v2: "br_thread ?r = Running v2 2" "run_mmap_size v2 = 4096" using good_boot_mapping by blast
  have b2: "buffer_of (br_world ?r) = ?b" by (simp add: boot_machine_shared solo_begin_created)
  obtain s2 where s2: "solo_at (Creating 1) ?c (Active (Running v2 2)) (br_world ?r) s2"
    using solo_moves [OF s1, of "Boot good_boot"] v2(1) by (auto simp: Let_def)
  have "sharedBufferIo (sharedBuffer ?c) (buffer_of (br_world ?r)) (buffer_io KVM_EXIT_IO_IN SHARED_BUFFER_PORT 1) (\<lambda>_. 0) 1024 =
      Done (True, ?g 0 False, ?b, (\<lambda>_. 0)(1024 := VM_MODE_WRITER))"
    by (simp add: sharedBufferIo_def g0 b2 deliverMode_def buffer_io_def initial_SharedBufferVmState_def)
  from solo_access [OF s2 _ this] obtain s3 v3 where s3: "run_mmap_size v3 = 4096"
    "solo_at (Creating 1) (?c\<lparr>sharedBuffer := ?g 0 False\<rparr>) (Active (Running v3 2)) (set_buffer (br_world ?r) ?b) s3"
    using v2(2) by (auto simp: b2 g0 initial_SharedBufferState_def)
  let ?b4 = "?b\<lparr>dataReady := True, generation := 1, roundInProgress := True\<rparr>"
  have io4: "sharedBufferIo (?g 0 False) ?b (buffer_io KVM_EXIT_IO_OUT SHARED_BUFFER_PORT 4) (\<lambda>_. 0) 1024 =
      Done (True, ?g 1 False, ?b4, \<lambda>_. 0)"
    by (simp add: sharedBufferIo_def buffer_io_def beginWriterRound_def readUint32_def load32_def load_bytes_def
        notify_all_def initial_SharedBufferState_def initial_SharedBufferVmState_def numeral_eq_Suc)
  obtain s4 v4 where s4: "run_mmap_size v4 = 4096"
    "solo_at (Creating 1) (?c\<lparr>sharedBuffer := ?g 1 False\<rparr>) (Active (Running v4 2)) (set_buffer (br_world ?r) ?b4) s4"
    using solo_access [OF s3(2) _ _ _ s3(1), of KVM_EXIT_IO_OUT SHARED_BUFFER_PORT 4 "?g 1 False" ?b4] io4
    by (auto simp: initial_SharedBufferState_def set_buffer_def)
  let ?b5 = "?b4\<lparr>roundInProgress := False\<rparr>"
  have io5: "sharedBufferIo (?g 1 False) ?b4 (buffer_io KVM_EXIT_IO_IN SHARED_BUFFER_STATUS_PORT 4) (\<lambda>_. 0) 1024 =
      Done (True, ?g 0 True, ?b5, store32 (\<lambda>_. 0) 1024 0)"
    by (simp add: sharedBufferIo_def buffer_io_def finishWriterRound_def writeUint32_def shared_buffer_consts
        notify_all_def initial_SharedBufferState_def initial_SharedBufferVmState_def)
  let ?d = "?c\<lparr>sharedBuffer := ?g 0 True\<rparr>"
  obtain s5 v5 w5 where s5: "solo_at (Creating 1) ?d (Active (Running v5 2)) w5 s5"
    using solo_access [OF s4(2) _ _ _ s4(1), of KVM_EXIT_IO_IN SHARED_BUFFER_STATUS_PORT 4 "?g 0 True" ?b5] io5
    by (auto simp: initial_SharedBufferState_def set_buffer_def)
  have "serialOutputBuffer ?d = []" by (simp add: guest_context_def initial_GuestContext_def)
  then obtain w6 rel where h: "run_event no_messages ?d v5 2 w5 early_halt = Finished True ?d w6 rel"
    by (auto simp: run_event_def early_halt_def flush_def flushSerialOutput_def)
  obtain s6 where s6: "solo_at (Creating 1) ?d (Active (Returned True rel)) w6 s6"
    using solo_moves [OF s5, of "Event early_halt"] h by (auto simp: early_halt_def)
  obtain e w7 where f: "finish_guest True ?d w6 = (e, w7)" by fastforce
  then have e: "completedSuccessfully e" using finish_guest_buffer by blast
  obtain s7 where s7: "solo_at (Creating 1) e Ended w7 s7"
    using solo_moves [OF s6, of Finish] f by auto
  have s8: "\<exists>s. solo_at (Joining 0) e Ended w7 s"
    using solo_main [OF s7, of "s7\<lparr>sy_main := Joining 0\<rparr>"] s7
    by (intro exI [of _ "s7\<lparr>sy_main := Joining 0\<rparr>"]) (simp add: solo_at_def main_step_def)
  then obtain s8 where s8: "solo_at (Joining 0) e Ended w7 s8" by blast
  have "\<exists>s. solo_at (Joining 1) e Ended w7 s"
    using solo_main [OF s8, of "s8\<lparr>sy_good := True, sy_main := Joining 1\<rparr>"] s8 e
    by (intro exI [of _ "s8\<lparr>sy_good := True, sy_main := Joining 1\<rparr>"]) (simp add: solo_at_def main_step_def)
  then obtain s9 where s9: "solo_at (Joining 1) e Ended w7 s9" by blast
  have "\<exists>s. solo_at (Left EXIT_SUCCESS) e Ended w7 s"
    using solo_main [OF s9, of "s9\<lparr>sy_main := Left EXIT_SUCCESS\<rparr>"] s9
    by (intro exI [of _ "s9\<lparr>sy_main := Left EXIT_SUCCESS\<rparr>"]) (simp add: solo_at_def main_step_def)
  then show thesis using that by (auto simp: solo_at_def)
qed

end
