(* ===== verification/Hypervisor_Outcome.thy ===== *)
theory Hypervisor_Outcome
  imports Solo_Run
begin

text \<open>
  What the exit code of the process says, and that \<^verbatim>\<open>main\<close> comes to its end. The first
  section, on what one action does to the shared buffer, also serves \<open>Hypervisor_Rounds\<close>.
\<close>

subsection \<open>What one action does to the shared buffer\<close>

lemma sharedBufferIo_stopped_same:
  "sharedBufferIo g b i m data = Done (ok, g', b', m') \<Longrightarrow> stopped b' = stopped b"
proof (cases ok)
  case False
  then show "sharedBufferIo g b i m data = Done (ok, g', b', m') \<Longrightarrow> stopped b' = stopped b"
    using sharedBufferIo_rejected by fastforce
next
  case True
  assume "sharedBufferIo g b i m data = Done (ok, g', b', m')"
  with True have "sharedBufferIo g b i m data = Done (True, g', b', m')" by simp
  then show "stopped b' = stopped b"
    by (cases rule: sharedBufferIo_cases) (simp_all add: beginWriter_state_def)
qed

text \<open>The buffer and the machine's part in it, before and after an action of its thread.\<close>

definition buffer_access :: "GuestContext \<Rightarrow> SharedBufferState \<Rightarrow> vm \<Rightarrow> GuestContext \<Rightarrow> SharedBufferState \<Rightarrow> bool" where
  "buffer_access c b v c' b' \<longleftrightarrow> (\<exists>d v'. handleSharedBufferIo c b v = Done (True, d, b', v') \<and> sharedBuffer c' = sharedBuffer d)"

definition buffer_same :: "GuestContext \<Rightarrow> SharedBufferState \<Rightarrow> GuestContext \<Rightarrow> SharedBufferState \<Rightarrow> bool" where
  "buffer_same c b c' b' \<longleftrightarrow> sharedBuffer c' = sharedBuffer c \<and> b' = b"

lemma flushSerialOutput_buffer:
  "flushSerialOutput c fin con = (c', con') \<Longrightarrow> sharedBuffer c' = sharedBuffer c \<and> completedSuccessfully c' = completedSuccessfully c"
  by (auto simp: flushSerialOutput_def Let_def split: if_splits)

lemma handleSerialIo_buffer:
  "handleSerialIo c v con = (ok, c', v', con') \<Longrightarrow> sharedBuffer c' = sharedBuffer c"
  by (auto simp: handleSerialIo_def Let_def split: if_splits io_direction.splits list.splits prod.splits
      dest: flushSerialOutput_buffer)

lemma set_openFiles_buffer [simp]: "sharedBuffer (set_openFiles c t) = sharedBuffer c"
  by (simp add: set_openFiles_def)

lemma reopenSharedFiles_buffer: "reopenSharedFiles c h n p = (ok, c', h') \<Longrightarrow> sharedBuffer c' = sharedBuffer c"
  by (auto simp: reopenSharedFiles_def Let_def split: option.splits prod.splits)

lemma prepareFileForWrite_buffer: "prepareFileForWrite c h f = (ok, c', h') \<Longrightarrow> sharedBuffer c' = sharedBuffer c"
  by (auto simp: prepareFileForWrite_def Let_def split: if_splits prod.splits dest: reopenSharedFiles_buffer)

lemma processFileRequest_buffer: "processFileRequest c ss v h r = (x, c', v', h') \<Longrightarrow> sharedBuffer c' = sharedBuffer c"
  by (auto simp: processFileRequest_def openFile_def closeFile_def writeFile_def Let_def
      split: if_splits prod.splits option.splits dest: prepareFileForWrite_buffer)

lemma handleFileIo_buffer: "handleFileIo c ss v h = (ok, c', v', h') \<Longrightarrow> sharedBuffer c' = sharedBuffer c"
  by (auto simp: handleFileIo_def push_result_def Let_def
      split: if_splits prod.splits option.splits io_direction.splits dest: processFileRequest_buffer)

lemma port_device_buffer:
  assumes "port_device (c, w) v = Done (ok, (c', w'), v')"
  shows "buffer_same c (buffer_of w) c' (buffer_of w') \<or>
    (io_port (io (run v)) = SHARED_BUFFER_PORT \<or> io_port (io (run v)) = SHARED_BUFFER_STATUS_PORT) \<and>
      buffer_access c (buffer_of w) v c' (buffer_of w')"
proof -
  have "c' = c \<and> b' = b" if "handleSharedBufferIo c b v = Done (False, c', b', v')" for b'  b
    using that sharedBufferIo_rejected
    by (force simp: handleSharedBufferIo_def Let_def split: if_splits option.splits outcome.splits prod.splits)
  then show ?thesis
    using assms unfolding port_device_def
    by (cases ok) (auto simp: Let_def file_device_def shared_buffer_device_def serial_device_def set_buffer_def
        buffer_same_def buffer_access_def split: if_splits prod.splits outcome.splits
        dest: handleFileIo_buffer handleSerialIo_buffer)
qed

lemma flush_buffer: "flush (c, w) = (c', w') \<Longrightarrow> sharedBuffer c' = sharedBuffer c \<and> w_shared w' = w_shared w"
  by (auto simp: flush_def split: prod.splits dest: flushSerialOutput_buffer)

text \<open>An action leaves the buffer alone, or is one successful access to it by the given exit.\<close>

definition buffer_effect :: "move \<Rightarrow> GuestContext \<Rightarrow> SharedBufferState \<Rightarrow> GuestContext \<Rightarrow> SharedBufferState \<Rightarrow> bool" where
  "buffer_effect mv c b c' b' \<longleftrightarrow> buffer_same c b c' b' \<or>
     (\<exists>i d m x v. mv = Event (Exited KVM_EXIT_IO i d m x) \<and> buffer_port i \<and> io (run v) = i \<and> buffer_access c b v c' b')"

lemma run_event_buffer:
  assumes "result_of (run_event strerror c v n w e) = Some (c', w')"
  shows "buffer_effect (Event e) c (buffer_of w) c' (buffer_of w')"
proof (cases e)
  case (Run_Failed eintr err)
  then show ?thesis
    using assms by (auto simp: run_event_def buffer_effect_def buffer_same_def split: if_splits)
next
  case (Exited reason i d m answer)
  show ?thesis
  proof (cases "reason = KVM_EXIT_IO")
    case True
    let ?v = "exited v reason i d m"
    have p: "io (run ?v) = i" by (simp add: exited_def)
    obtain ok c1 w1 v1 where dev: "port_device (c, w) ?v = Done (ok, (c1, w1), v1)"
      and "c' = c1 \<and> w' = w1 \<or>
        (\<exists>c2 w2. flush (c1, w1) = (c2, w2) \<and> c' = c2 \<and> w' = on_console (printError c2 ''Failed to handle an I/O exit'') w2)"
      using assms True Exited
      by (auto simp: run_event_def split: outcome.splits prod.splits if_splits)
    then have "sharedBuffer c' = sharedBuffer c1 \<and> buffer_of w' = buffer_of w1" using flush_buffer by auto
    then show ?thesis
      using port_device_buffer [OF dev] Exited True p
      unfolding buffer_effect_def buffer_same_def buffer_access_def buffer_port_def by metis
  next
    case False
    then show ?thesis
      using assms Exited
      by (auto simp: run_event_def Let_def buffer_effect_def buffer_same_def
          split: exit_reason.splits prod.splits if_splits dest: flush_buffer)
  qed
qed

lemma run_event_returns:
  "run_event strerror c v n w e = Finished True c' w' rel \<Longrightarrow> transferCompleted (sharedBuffer c')"
  by (auto simp: run_event_def Let_def split: kvm_event.splits exit_reason.splits outcome.splits prod.splits if_splits)

lemma runGuest_step_buffer:
  assumes "runGuest_step strerror mv c w p = Some (c', p', w')"
  shows "buffer_effect mv c (buffer_of w) c' (buffer_of w') \<or>
    mv = Finish \<and> sharedBuffer c' = sharedBuffer c \<and> \<not> completedSuccessfully c' \<and> p' = Ended \<and>
    buffer_of w' = abortSharedBuffer (buffer_of w)"
  using assms
proof (cases rule: runGuest_step_cases)
  case (boot a)
  then show ?thesis by (simp add: buffer_effect_def buffer_same_def boot_machine_shared)
next
  case (loop e v n v' n')
  then show ?thesis using run_event_buffer [of strerror c v n w e c' w'] by simp
next
  case (return e v n ok released)
  then show ?thesis using run_event_buffer [of strerror c v n w e c' w'] by simp
next
  case (finish ok released)
  then show ?thesis using finish_guest_buffer [OF finish(4)]
    by (cases ok) (auto simp: buffer_effect_def buffer_same_def)
qed

subsection \<open>The exit code\<close>

text \<open>A thread that reports success has completed its transfer.\<close>

fun vouched :: "phase \<Rightarrow> GuestContext \<Rightarrow> bool" where
  "vouched (Active (Returned ok released)) c \<longleftrightarrow> (ok \<longrightarrow> transferCompleted (sharedBuffer c))"
| "vouched Ended c \<longleftrightarrow> (completedSuccessfully c \<longrightarrow> transferCompleted (sharedBuffer c))"
| "vouched p c \<longleftrightarrow> True"

definition failed_at :: "system \<Rightarrow> nat \<Rightarrow> bool" where
  "failed_at s j \<longleftrightarrow> j < length (sy_contexts s) \<and> sy_phases s ! j = Ended \<and> \<not> completedSuccessfully (sy_contexts s ! j)"

definition outcome_inv :: "system \<Rightarrow> bool" where
  "outcome_inv s \<longleftrightarrow> (\<forall>i<length (sy_contexts s). vouched (sy_phases s ! i) (sy_contexts s ! i)) \<and>
     (stopped (buffer_of (sy_world s)) \<longrightarrow> \<not> sy_good s \<or> (\<exists>j. failed_at s j))"

lemma runGuest_step_vouched:
  assumes "runGuest_step strerror mv c w p = Some (c', p', w')" and "vouched p c"
  shows "vouched p' c'"
  using assms
proof (cases rule: runGuest_step_cases)
  case (boot a)
  then show ?thesis
    using boot_machine_not_good by (cases "br_thread (boot_machine strerror c a w)") auto
next
  case (return e v n ok released)
  then show ?thesis using run_event_returns by (cases ok) auto
next
  case (finish ok released)
  then show ?thesis using finish_guest_buffer [OF finish(4)] assms(2) by simp
qed simp

lemma outcome_inv_main:
  assumes "main_step strerror x s = Some s'" and "main_inv s" and inv: "outcome_inv s"
  shows "outcome_inv s'"
  using assms(1)
proof (cases rule: main_step_cases)
  case (create i)
  have absent: "sy_phases s ! i = Absent" "length (sy_phases s) = length (sy_contexts s)"
    using assms(2) create by (simp_all add: main_inv_def)
  have "vouched ((sy_phases s)[i := Created] ! j) (sy_contexts s ! j)" if "j < length (sy_contexts s)" for j
    using inv that absent by (cases "j = i") (simp_all add: outcome_inv_def)
  moreover have "failed_at s j \<Longrightarrow> failed_at s' j" for j
    using absent create by (cases "j = i") (simp_all add: failed_at_def)
  ultimately show ?thesis using inv create by (auto simp: outcome_inv_def)
qed (use inv in \<open>auto simp: outcome_inv_def failed_at_def\<close>)

lemma buffer_effect_stopped: "buffer_effect mv c b c' b' \<Longrightarrow> stopped b' = stopped b"
  by (auto simp: buffer_effect_def buffer_same_def buffer_access_def handleSharedBufferIo_def Let_def
      split: if_splits option.splits outcome.splits prod.splits dest: sharedBufferIo_stopped_same)

lemma outcome_inv_machine:
  assumes "machine_move strerror i mv s = Some s'" and i: "i < length (sy_contexts s)" and main: "main_inv s"
    and inv: "outcome_inv s"
  shows "outcome_inv s'"
proof -
  obtain c p w where r: "runGuest_step strerror mv (sy_contexts s ! i) (sy_world s) (sy_phases s ! i) = Some (c, p, w)"
    and s': "s' = put i c p w s" using assms(1) by (rule machine_moveD)
  have len: "length (sy_phases s) = length (sy_contexts s)" using main by (simp add: main_inv_def)
  have "vouched p c" using runGuest_step_vouched [OF r] inv i by (simp add: outcome_inv_def)
  then have "vouched ((sy_phases s)[i := p] ! j) ((sy_contexts s)[i := c] ! j)" if "j < length (sy_contexts s)" for j
    using inv that len by (cases "j = i") (simp_all add: outcome_inv_def)
  moreover have "failed_at s' j" if "failed_at s j" for j
  proof -
    have "sy_phases s ! i \<noteq> Ended" using r by (auto elim: runGuest_step_cases)
    then show ?thesis using that by (cases "j = i") (simp_all add: failed_at_def s')
  qed
  moreover have "stopped (buffer_of w) = stopped (buffer_of (sy_world s)) \<or> failed_at s' i"
    using runGuest_step_buffer [OF r] buffer_effect_stopped i len by (auto simp: failed_at_def s')
  ultimately show ?thesis using inv by (auto simp: outcome_inv_def s')
qed

lemma outcome_inv_begin: "outcome_inv (main_begin fs program args h input)"
proof -
  have "\<not> stopped (buffer_state ss)" if "configure_loop fs ps (initial_shared cfg) = (ok, ss, err)" for ps ok ss err cfg
    using configure_loop_buffer [OF that] by (simp add: initial_shared_def initial_SharedState_def initial_SharedBufferState_def)
  then show ?thesis
    by (auto simp: outcome_inv_def main_begin_def begun_def configureSharedFiles_def Let_def
        initial_SharedState_def initial_SharedBufferState_def split: CliStatus.splits prod.splits)
qed

lemma outcome_inv_run:
  assumes "system_run strerror G n (main_begin fs program args h input) s"
  shows "outcome_inv s" and "main_inv s"
proof -
  have "outcome_inv s \<and> main_inv s"
    by (rule system_run_inv [OF assms])
      (auto elim!: system_stepE intro: outcome_inv_main outcome_inv_machine main_inv_main main_inv_machine
        outcome_inv_begin main_inv_begin)
  then show "outcome_inv s" "main_inv s" by auto
qed

text \<open>
  C9. The exit code tells the truth: when the process leaves with \<open>EXIT_SUCCESS\<close>, every machine
  of the configuration was created and has ended, reported success, had completed its shared
  buffer transfer, and the transfer was never aborted.
\<close>

theorem exit_success_means_done:
  assumes "system_run strerror any_guest n (main_begin fs program args h input) s" and "sy_main s = Left EXIT_SUCCESS"
  shows "(\<forall>j<length (sy_contexts s). sy_phases s ! j = Ended \<and> completedSuccessfully (sy_contexts s ! j) \<and>
    transferCompleted (sharedBuffer (sy_contexts s ! j))) \<and> \<not> stopped (buffer_of (sy_world s))"
proof -
  note inv = outcome_inv_run [OF assms(1)]
  have ok: "sy_good s" "\<forall>j<length (sy_contexts s). success_at s j"
    using inv(2) assms(2) by (simp_all add: main_inv_def)
  have "transferCompleted (sharedBuffer (sy_contexts s ! j))" if "j < length (sy_contexts s)" for j
    using inv(1) ok(2) that by (fastforce simp: outcome_inv_def success_at_def)
  moreover have "\<not> stopped (buffer_of (sy_world s))"
    using inv(1) ok by (auto simp: outcome_inv_def success_at_def failed_at_def)
  ultimately show ?thesis using ok(2) by (simp add: success_at_def)
qed

theorem exit_success_means_done_witness:
  "\<exists>s. system_run no_messages any_guest 0 (main_begin demo_paths ''vm'' solo_arguments shared_disk []) s \<and>
     sy_main s = Left EXIT_SUCCESS \<and> sy_phases s ! 0 = Ended \<and> transferCompleted (sharedBuffer (sy_contexts s ! 0))"
proof -
  obtain s where s: "system_run no_messages well_behaved 0 solo_begin s" "sy_main s = Left EXIT_SUCCESS" "length (sy_contexts s) = 1"
    by (rule solo_success)
  have r: "system_run no_messages any_guest 0 (main_begin demo_paths ''vm'' solo_arguments shared_disk []) s"
    using system_run_any [OF s(1)] by (simp add: solo_begin_def)
  show ?thesis using exit_success_means_done [OF r s(2)] r s(2,3) by auto
qed

subsection \<open>The main thread ends\<close>

text \<open>A bound on the steps \<^verbatim>\<open>main\<close> still has to make.\<close>

definition main_work :: "system \<Rightarrow> nat" where
  "main_work s = (case sy_main s of
     Creating i \<Rightarrow> 2 * length (sy_contexts s) + 2 - i
   | Joining i \<Rightarrow> Suc (sy_started s) - i
   | Left x \<Rightarrow> 0)"

text \<open>
  C21. \<^verbatim>\<open>main\<close> comes to its end: each of its steps decreases a bound that starts at twice the
  number of guests plus two and that no machine's step changes; and it waits only for a
  machine that has been created and has not ended, or has left.
\<close>

theorem main_terminates:
  assumes "system_run strerror any_guest n (main_begin fs program args h input) s"
  shows "(main_step strerror x s = Some s' \<longrightarrow> main_work s' < main_work s) \<and>
    (machine_move strerror i mv s = Some s' \<longrightarrow> main_work s' = main_work s) \<and>
    (main_step strerror x s = None \<longrightarrow> (\<exists>e. sy_main s = Left e) \<or>
      (\<exists>j < sy_started s. sy_main s = Joining j \<and> sy_phases s ! j \<notin> {Absent, Ended}))"
proof (intro conjI impI)
  have inv: "main_inv s" by (rule outcome_inv_run [OF assms])
  show "main_work s' < main_work s" if "main_step strerror x s = Some s'"
    using that inv by (cases rule: main_step_cases) (auto simp: main_work_def main_inv_def)
  show "main_work s' = main_work s" if "machine_move strerror i mv s = Some s'"
    using that by (elim machine_moveD) (simp add: main_work_def split: main_pc.split)
  show "(\<exists>e. sy_main s = Left e) \<or> (\<exists>j < sy_started s. sy_main s = Joining j \<and> sy_phases s ! j \<notin> {Absent, Ended})"
    if "main_step strerror x s = None"
    using that inv by (auto simp: main_step_def main_inv_def split: main_pc.splits if_splits)
qed

theorem main_terminates_witness:
  "main_work (main_begin demo_paths ''vm'' solo_arguments shared_disk []) = 4 \<and>
     main_step no_messages 0 (main_begin demo_paths ''vm'' solo_arguments shared_disk []) \<noteq> None"
proof -
  let ?s = "main_begin demo_paths ''vm'' solo_arguments shared_disk []"
  have m: "sy_main ?s = Creating 0" "sy_contexts ?s = [guest_context solo_config 0]"
    using solo_begin_main solo_begin_created(1) by (simp_all add: solo_begin_def)
  moreover have "main_step no_messages 0 ?s \<noteq> None"
    using main_terminates [OF system_run.start, of no_messages 0 demo_paths "''vm''" solo_arguments shared_disk "[]"] m(1)
    by auto
  ultimately show ?thesis by (simp add: main_work_def)
qed

end
