(* ===== verification/Hypervisor_Rounds.thy ===== *)
theory Hypervisor_Rounds
  imports Hypervisor_Outcome
begin

text \<open>
  The round protocol of \<open>Shared_Rounds\<close> is an abstraction of the whole process: its machines
  are the machines of the process, its buffer is the shared one, and whatever the threads do
  to consoles, files, interrupts and each other is a silent step of the protocol.
\<close>

definition abstracts :: "system \<Rightarrow> rounds \<Rightarrow> bool" where
  "abstracts s r \<longleftrightarrow> shbuf r = buffer_of (sy_world s) \<and> map sharedBuffer (machines r) = map sharedBuffer (sy_contexts s)"

lemma abstracts_at:
  assumes "abstracts s r"
  shows "length (machines r) = length (sy_contexts s)"
    and "i < length (sy_contexts s) \<Longrightarrow> sharedBuffer (machines r ! i) = sharedBuffer (sy_contexts s ! i)"
proof -
  have m: "map sharedBuffer (machines r) = map sharedBuffer (sy_contexts s)" using assms by (simp add: abstracts_def)
  show l: "length (machines r) = length (sy_contexts s)" using m by (rule map_eq_imp_length_eq)
  show "i < length (sy_contexts s) \<Longrightarrow> sharedBuffer (machines r ! i) = sharedBuffer (sy_contexts s ! i)"
    using m l by (metis nth_map)
qed

lemma handleSharedBufferIo_cong:
  assumes "handleSharedBufferIo c b v = Done (True, d, b', v')" and "sharedBuffer e = sharedBuffer c"
  shows "handleSharedBufferIo e b v = Done (True, e\<lparr>sharedBuffer := sharedBuffer d\<rparr>, b', v')"
  using assms
  by (auto simp: handleSharedBufferIo_def Let_def split: if_splits option.splits outcome.splits prod.splits)

lemma map_update_same: "f x = f (xs ! i) \<Longrightarrow> map f (xs[i := x]) = map f xs"
  by (simp add: map_update list_update_same_conv) (metis list_update_beyond list_update_id map_update not_le)

lemma abstracts_machine:
  assumes move: "machine_move strerror i mv s = Some s'" and i: "i < length (sy_contexts s)"
    and good: "well_behaved s i mv" and abs: "abstracts s r"
  shows "\<exists>r'. disciplined_step\<^sup>*\<^sup>* r r' \<and> abstracts s' r'"
proof -
  obtain c p w where st: "runGuest_step strerror mv (sy_contexts s ! i) (sy_world s) (sy_phases s ! i) = Some (c, p, w)"
    and s': "s' = put i c p w s" using move by (rule machine_moveD)
  let ?c = "sy_contexts s ! i" and ?b = "buffer_of (sy_world s)"
  have b: "shbuf r = ?b" using abs by (simp add: abstracts_def)
  note at = abstracts_at [OF abs]
  consider (same) "buffer_same ?c ?b c (buffer_of w)"
    | (access) e d m x v where "mv = Event (Exited KVM_EXIT_IO e d m x)" "buffer_port e" "io (run v) = e"
        "buffer_access ?c ?b v c (buffer_of w)"
    | (abort) "sharedBuffer c = sharedBuffer ?c" "buffer_of w = abortSharedBuffer ?b"
    using runGuest_step_buffer [OF st] by (auto simp: buffer_effect_def)
  then show ?thesis
  proof cases
    case same
    then have "abstracts s' r"
      using abs by (simp add: abstracts_def buffer_same_def s' map_update_same)
    then show ?thesis by blast
  next
    case access
    then obtain d v' where h: "handleSharedBufferIo ?c ?b v = Done (True, d, buffer_of w, v')"
      and d: "sharedBuffer c = sharedBuffer d" by (auto simp: buffer_access_def)
    let ?m = "(machines r ! i)\<lparr>sharedBuffer := sharedBuffer d\<rparr>"
    have "disciplined_step r (accessed r i v ?m (buffer_of w) v')"
    proof (rule disciplined_step.access)
      show "i < length (machines r)" using i at(1) by simp
      show "disciplined (machines r ! i) v" "generation (shbuf r) \<noteq> - 1"
        using good access(1-3) at(2) [OF i] b by (auto simp: disciplined_def)
      show "handleSharedBufferIo (machines r ! i) (shbuf r) v = Done (True, ?m, buffer_of w, v')"
        unfolding b by (rule handleSharedBufferIo_cong [OF h at(2) [OF i]])
    qed
    moreover have "abstracts s' (accessed r i v ?m (buffer_of w) v')"
      using abs d by (simp add: abstracts_def accessed_def s' map_update)
    ultimately show ?thesis by blast
  next
    case abort
    have "disciplined_step r (r\<lparr>shbuf := abortSharedBuffer (shbuf r)\<rparr>)" by (rule disciplined_step.abort)
    moreover have "abstracts s' (r\<lparr>shbuf := abortSharedBuffer (shbuf r)\<rparr>)"
      using abs abort b by (simp add: abstracts_def s' map_update_same)
    ultimately show ?thesis by blast
  qed
qed

lemma abstracts_main:
  assumes "main_step strerror x s = Some s'" and abs: "abstracts s r"
  shows "\<exists>r'. disciplined_step\<^sup>*\<^sup>* r r' \<and> abstracts s' r'"
proof -
  have "sy_contexts s' = sy_contexts s \<and> (buffer_of (sy_world s') = buffer_of (sy_world s) \<or>
      buffer_of (sy_world s') = abortSharedBuffer (buffer_of (sy_world s)))"
    using assms(1) by (cases rule: main_step_cases) (simp_all add: thread_error_def set_buffer_def Let_def)
  then consider "abstracts s' r" | "abstracts s' (r\<lparr>shbuf := abortSharedBuffer (shbuf r)\<rparr>)"
    using abs by (auto simp: abstracts_def)
  then show ?thesis using disciplined_step.abort [of r] by cases blast+
qed

lemma parsed_guests: "status (co_result (parseArguments program args)) = Cli_Ok \<Longrightarrow>
    guestImages (config (co_result (parseArguments program args))) \<noteq> []"
  by (elim parse_accepted) (auto simp: documented_def valid_values_def)

lemma abstracts_run:
  assumes "system_run strerror well_behaved n s s'" and "abstracts s r"
  shows "\<exists>r'. disciplined_step\<^sup>*\<^sup>* r r' \<and> abstracts s' r'"
proof (rule system_run_inv [OF assms(1), where I = "\<lambda>_ s'. \<exists>r'. disciplined_step\<^sup>*\<^sup>* r r' \<and> abstracts s' r'"])
  fix m k s1 s2
  assume "\<exists>r'. disciplined_step\<^sup>*\<^sup>* r r' \<and> abstracts s1 r'" and step: "system_step strerror well_behaved k s1 s2"
  then obtain r1 where r1: "disciplined_step\<^sup>*\<^sup>* r r1" "abstracts s1 r1" by blast
  obtain r2 where "disciplined_step\<^sup>*\<^sup>* r1 r2" "abstracts s2 r2"
    using step abstracts_main [OF _ r1(2)] abstracts_machine [OF _ _ _ r1(2)] by (elim system_stepE) metis+
  then show "\<exists>r'. disciplined_step\<^sup>*\<^sup>* r r' \<and> abstracts s2 r'" using r1(1) by (meson rtranclp_trans)
qed (use assms(2) in blast)

lemma abstracts_begin:
  assumes "sy_main (main_begin fs program args h input) = Creating 0"
    and "length (guestImages (config (co_result (parseArguments program args)))) < 2 ^ 64"
  defines "cfg \<equiv> config (co_result (parseArguments program args))"
  shows "abstracts (main_begin fs program args h input) (start_rounds (guest_contexts cfg) (buffer_state (initial_shared cfg)))"
    and "configured (guest_contexts cfg) (buffer_state (initial_shared cfg))"
proof -
  note b = main_begin_created [OF assms(1), folded cfg_def]
  show "abstracts (main_begin fs program args h input) (start_rounds (guest_contexts cfg) (buffer_state (initial_shared cfg)))"
    by (simp add: abstracts_def start_rounds_def b)
  show "configured (guest_contexts cfg) (buffer_state (initial_shared cfg))"
    using parsed_guests [OF b(6)] assms(2) unfolding cfg_def by (intro configured_initial)
qed

text \<open>
  C8. The process refines the round protocol: in every run with well-behaved guests, the shared
  buffer and each machine's part in it are those of a reachable state of the protocol with one
  writer and the other machines as readers.
\<close>

theorem process_refines_rounds:
  assumes "system_run strerror well_behaved n (main_begin fs program args h input) s"
    and "sy_main (main_begin fs program args h input) = Creating 0"
    and "length (guestImages (config (co_result (parseArguments program args)))) < 2 ^ 64"
  shows "\<exists>r. reachable_disciplined (guest_contexts (config (co_result (parseArguments program args))))
      (buffer_state (initial_shared (config (co_result (parseArguments program args))))) r \<and> abstracts s r"
  using abstracts_run [OF assms(1) abstracts_begin(1) [OF assms(2,3)]] abstracts_begin(2) [OF assms(2,3)]
  by (auto simp: reachable_disciplined_def)

lemma solo_setting:
  obtains s where "system_run no_messages well_behaved 0 (main_begin demo_paths ''vm'' solo_arguments shared_disk []) s"
    "sy_main s = Left EXIT_SUCCESS" "length (sy_contexts s) = 1"
    "sy_main (main_begin demo_paths ''vm'' solo_arguments shared_disk []) = Creating 0"
    "length (guestImages (config (co_result (parseArguments ''vm'' solo_arguments)))) < 2 ^ 64"
  using solo_success solo_begin_main by (auto simp: solo_begin_def solo_parsed solo_config_def)

theorem process_refines_rounds_witness:
  "\<exists>s r. sy_main s = Left EXIT_SUCCESS \<and> reachable_disciplined (guest_contexts solo_config) (buffer_state (initial_shared solo_config)) r \<and>
     abstracts s r"
proof -
  obtain s where s: "system_run no_messages well_behaved 0 (main_begin demo_paths ''vm'' solo_arguments shared_disk []) s"
      "sy_main s = Left EXIT_SUCCESS" "sy_main (main_begin demo_paths ''vm'' solo_arguments shared_disk []) = Creating 0"
      "length (guestImages (config (co_result (parseArguments ''vm'' solo_arguments)))) < 2 ^ 64"
    by (rule solo_setting)
  show ?thesis using process_refines_rounds [OF s(1,3,4)] s(2) by (auto simp: solo_parsed)
qed

subsection \<open>The buffer under any guests\<close>

text \<open>What holds of the buffer and a machine's part in it without any discipline of the guests.\<close>

definition buffer_bounds :: "nat \<Rightarrow> SharedBufferState \<Rightarrow> bool" where
  "buffer_bounds n b \<longleftrightarrow> length (sb_data b) = BUFFER_SIZE \<and> sb_size b = min (expectedBytes b) BUFFER_SIZE \<and>
     receivedBytes b \<le> expectedBytes b \<and> (dataReady b \<longrightarrow> receivedBytes b = expectedBytes b) \<and>
     readerCount b = n \<and> completedReaders b \<le> n"

lemma buffer_bounds_access:
  assumes "sharedBufferIo g b i m data = Done (True, g', b', m')" and "buffer_bounds n b" and "readOffset g \<le> BUFFER_SIZE"
  shows "buffer_bounds n b' \<and> readOffset g' \<le> BUFFER_SIZE"
  using assms(1) by (cases rule: sharedBufferIo_cases) (use assms(2,3) in \<open>auto simp: buffer_bounds_def beginWriter_state_def\<close>)

lemma buffer_bounds_abort: "buffer_bounds n (abortSharedBuffer b) = buffer_bounds n b"
  by (simp add: buffer_bounds_def abortSharedBuffer_def)

definition system_bounds :: "nat \<Rightarrow> system \<Rightarrow> bool" where
  "system_bounds n s \<longleftrightarrow> length (sy_contexts s) = Suc n \<and> buffer_bounds n (buffer_of (sy_world s)) \<and>
     (\<forall>c\<in>set (sy_contexts s). readOffset (sharedBuffer c) \<le> BUFFER_SIZE)"

lemma system_bounds_main:
  assumes "main_step strerror x s = Some s'" and inv: "system_bounds n s"
  shows "system_bounds n s'"
proof -
  have "sy_contexts s' = sy_contexts s \<and> (buffer_of (sy_world s') = buffer_of (sy_world s) \<or>
      buffer_of (sy_world s') = abortSharedBuffer (buffer_of (sy_world s)))"
    using assms(1) by (cases rule: main_step_cases) (simp_all add: thread_error_def set_buffer_def Let_def)
  then show ?thesis using inv by (auto simp: system_bounds_def buffer_bounds_abort)
qed

lemma system_bounds_machine:
  assumes move: "machine_move strerror i mv s = Some s'" and i: "i < length (sy_contexts s)" and inv: "system_bounds n s"
  shows "system_bounds n s'"
proof -
  obtain c p w where st: "runGuest_step strerror mv (sy_contexts s ! i) (sy_world s) (sy_phases s ! i) = Some (c, p, w)"
    and s': "s' = put i c p w s" using move by (rule machine_moveD)
  let ?c = "sy_contexts s ! i" and ?b = "buffer_of (sy_world s)"
  have b: "buffer_bounds n ?b" and off: "readOffset (sharedBuffer ?c) \<le> BUFFER_SIZE" using inv i by (simp_all add: system_bounds_def)
  have "buffer_bounds n (buffer_of w) \<and> readOffset (sharedBuffer c) \<le> BUFFER_SIZE"
    using runGuest_step_buffer [OF st]
  proof (elim disjE conjE)
    assume "buffer_effect mv ?c ?b c (buffer_of w)"
    then consider (same) "buffer_same ?c ?b c (buffer_of w)" | (access) v where "buffer_access ?c ?b v c (buffer_of w)"
      by (auto simp: buffer_effect_def)
    then show ?thesis
    proof cases
      case same
      then show ?thesis using b off by (simp add: buffer_same_def)
    next
      case access
      then obtain d v' where h: "handleSharedBufferIo ?c ?b v = Done (True, d, buffer_of w, v')" "sharedBuffer c = sharedBuffer d"
        by (auto simp: buffer_access_def)
      from handle_success [OF h(1)] obtain g' m' where
        "sharedBufferIo (sharedBuffer ?c) ?b (io (run v)) (run_data (run v)) (data_offset v) = Done (True, g', buffer_of w, m')"
        "d = ?c\<lparr>sharedBuffer := g'\<rparr>" by metis
      then show ?thesis using buffer_bounds_access [OF _ b off] h(2) by simp
    qed
  qed (use b off in \<open>simp_all add: buffer_bounds_abort\<close>)
  moreover have "set ((sy_contexts s)[i := c]) \<subseteq> insert c (set (sy_contexts s))" by (rule set_update_subset_insert)
  ultimately show ?thesis using inv by (auto simp: system_bounds_def s')
qed

lemma system_bounds_run: "system_run strerror G n s s' \<Longrightarrow> system_bounds k s \<Longrightarrow> system_bounds k s'"
  by (rule system_run_inv [where I = "\<lambda>_. system_bounds k"])
    (auto elim!: system_stepE intro: system_bounds_main system_bounds_machine)

text \<open>
  C20. The buffer is well formed in every state of the process, whatever the guests do: it has
  256 bytes, its size is what was announced or 256, it never receives more than was announced
  and has received all of it when the data is ready, it counts as many readers as there are
  machines beside the writer and never more acknowledgements than readers, and no machine's
  position is behind the end of the buffer.
\<close>

theorem process_buffer_well_formed:
  assumes "system_run strerror any_guest n (main_begin fs program args h input) s"
    and "sy_main (main_begin fs program args h input) = Creating 0"
    and "length (guestImages (config (co_result (parseArguments program args)))) < 2 ^ 64"
  defines "b \<equiv> buffer_of (sy_world s)"
  shows "length (sb_data b) = BUFFER_SIZE \<and> sb_size b = min (expectedBytes b) BUFFER_SIZE \<and> receivedBytes b \<le> expectedBytes b \<and>
    (dataReady b \<longrightarrow> receivedBytes b = expectedBytes b) \<and> readerCount b + 1 = length (sy_contexts s) \<and>
    completedReaders b \<le> readerCount b \<and> (\<forall>c\<in>set (sy_contexts s). readOffset (sharedBuffer c) \<le> BUFFER_SIZE)"
proof -
  define cfg where "cfg = config (co_result (parseArguments program args))"
  let ?s0 = "main_begin fs program args h input"
  note begun = main_begin_created [OF assms(2), folded cfg_def]
  have conf: "configured (guest_contexts cfg) (buffer_state (initial_shared cfg))"
    unfolding cfg_def by (rule abstracts_begin(2) [OF assms(2,3)])
  then have start: "guest_contexts cfg \<noteq> []"
    "buffer_state (initial_shared cfg) = initial_SharedBufferState\<lparr>readerCount := length (guest_contexts cfg) - 1\<rparr>"
    "\<forall>c\<in>set (guest_contexts cfg). readOffset (sharedBuffer c) = 0"
    by (auto simp: configured_def in_set_conv_nth initial_SharedBufferVmState_def)
  have "system_bounds (length (guest_contexts cfg) - 1) ?s0"
    using start by (simp add: system_bounds_def begun buffer_bounds_def initial_SharedBufferState_def BUFFER_SIZE_def)
  from system_bounds_run [OF assms(1) this] show ?thesis by (simp add: system_bounds_def buffer_bounds_def b_def)
qed

theorem process_buffer_well_formed_witness:
  "\<exists>s :: system. sy_main s = Left EXIT_SUCCESS \<and> length (sb_data (buffer_of (sy_world s))) = 256 \<and> readerCount (buffer_of (sy_world s)) = 0"
proof -
  obtain s where s: "system_run no_messages well_behaved 0 (main_begin demo_paths ''vm'' solo_arguments shared_disk []) s"
      "sy_main s = Left EXIT_SUCCESS" "length (sy_contexts s) = 1"
      "sy_main (main_begin demo_paths ''vm'' solo_arguments shared_disk []) = Creating 0"
      "length (guestImages (config (co_result (parseArguments ''vm'' solo_arguments)))) < 2 ^ 64"
    by (rule solo_setting)
  show ?thesis using process_buffer_well_formed [OF system_run_any [OF s(1)] s(4,5)] s(2,3)
    by (intro exI [of _ s]) (simp add: BUFFER_SIZE_def)
qed

end
