(* ===== verification/Shared_Waiting.thy ===== *)
theory Shared_Waiting
  imports Vm_Runner
begin

text \<open>
  Sleeping and waking: what the outcome \<open>Blocked\<close> stands for. A thread whose access must wait
  sleeps on the buffer's condition variable until some \<^verbatim>\<open>notify_all\<close> (or a spurious wake-up)
  and then looks at its predicate again. The theorems say that every operation that can make
  a predicate true wakes the sleepers, so that nobody sleeps who could go on. The other
  theories therefore let a blocked access be tried again at any time: while its thread sleeps,
  trying does nothing.
\<close>

subsection \<open>When an access must wait\<close>

definition must_wait :: "SharedBufferVmState \<Rightarrow> SharedBufferState \<Rightarrow> kvm_io \<Rightarrow> bool" where
  "must_wait g b i \<longleftrightarrow> modeDelivered g \<and> \<not> stopped b \<and> io_size i = 4 \<and>
     (if sb_mode g = VM_MODE_WRITER then
        io_port i = SHARED_BUFFER_PORT \<and> io_direction i = KVM_EXIT_IO_OUT \<and> roundInProgress b \<or>
        io_port i = SHARED_BUFFER_STATUS_PORT \<and> io_direction i = KVM_EXIT_IO_IN \<and> writeGeneration g \<noteq> 0 \<and>
          \<not> (dataReady b \<and> generation b = writeGeneration g \<and> completedReaders b = readerCount b)
      else
        sb_mode g = VM_MODE_READER \<and> io_port i = SHARED_BUFFER_PORT \<and> io_direction i = KVM_EXIT_IO_IN \<and>
          \<not> (activeReadGeneration g > lastReadGeneration g \<and> \<not> readCompleted g) \<and>
          \<not> (dataReady b \<and> generation b > lastReadGeneration g))"

lemma sharedBufferIo_blocked: "sharedBufferIo g b i m data = Blocked \<longleftrightarrow> must_wait g b i"
  by (cases "modeDelivered g"; cases "stopped b"; cases "io_port i = SHARED_BUFFER_PORT"; cases "io_direction i")
    (auto simp: sharedBufferIo_def must_wait_def beginWriterRound_def writeSharedByte_def finishWriterRound_def
      beginReaderRound_def readSharedByte_def finishReaderRound_def Let_def shared_buffer_consts split: prod.split)

lemma handle_blocked:
  "handleSharedBufferIo c b v = Blocked \<longleftrightarrow>
     (io_port (io (run v)) = SHARED_BUFFER_PORT \<or> io_port (io (run v)) = SHARED_BUFFER_STATUS_PORT) \<and> getIoData v \<noteq> None \<and>
     must_wait (sharedBuffer c) b (io (run v))"
proof (cases "getIoData v")
  case (Some a)
  then show ?thesis
    using sharedBufferIo_blocked [of "sharedBuffer c" b "io (run v)" "run_data (run v)" a]
    by (auto simp: handleSharedBufferIo_def Let_def split: outcome.split)
qed (simp add: handleSharedBufferIo_def Let_def)

lemma must_wait_condition [simp]: "must_wait g (b\<lparr>condition := C\<rparr>) i = must_wait g b i"
  by (simp add: must_wait_def)

lemma handle_blocked_condition [simp]: "handleSharedBufferIo c (b\<lparr>condition := C\<rparr>) v = Blocked \<longleftrightarrow> handleSharedBufferIo c b v = Blocked"
  by (simp add: handle_blocked)

text \<open>An operation that wakes nobody leaves everybody waiting who waits.\<close>

lemma operation_wakes:
  assumes "sharedBufferIo g b i m data = Done (ok, g', b', m')"
  shows "condition b' = {} \<or> condition b' = condition b \<and> (\<forall>d j. must_wait d b j \<longrightarrow> must_wait d b' j)"
proof (cases ok)
  case False
  then have "b' = b" using assms sharedBufferIo_rejected [of g b i m data g' b' m'] by simp
  then show ?thesis by simp
next
  case True
  then have "sharedBufferIo g b i m data = Done (True, g', b', m')" using assms by simp
  then show ?thesis
    by (cases rule: sharedBufferIo_cases) (auto simp: must_wait_def beginWriter_state_def)
qed

lemma access_wakes:
  assumes "handleSharedBufferIo c b v = Done (ok, c', b', v')"
  shows "condition b' = {} \<or>
    condition b' = condition b \<and> (\<forall>d u. handleSharedBufferIo d b u = Blocked \<longrightarrow> handleSharedBufferIo d b' u = Blocked)"
proof -
  have "b' = b \<or> (\<exists>g m data g' m'. sharedBufferIo g b (io (run v)) m data = Done (ok, g', b', m'))"
    using assms by (auto simp: handleSharedBufferIo_def Let_def split: if_splits option.splits outcome.splits prod.splits)
  then show ?thesis using operation_wakes by (fastforce simp: handle_blocked)
qed

subsection \<open>Threads that sleep\<close>

text \<open>
  The machines, the buffer, and the exit whose access a machine's thread is inside of. A thread
  that is not asleep begins an access or goes on with the one it is inside of: it completes
  it, or falls asleep (again).
\<close>

record sleepers =
  sl_machines :: "GuestContext list"
  sl_buffer :: SharedBufferState
  sl_inside :: "nat \<Rightarrow> vm option"

definition awake :: "sleepers \<Rightarrow> nat \<Rightarrow> vm \<Rightarrow> bool" where
  "awake s i v \<longleftrightarrow> i < length (sl_machines s) \<and> i \<notin> condition (sl_buffer s) \<and> (sl_inside s i = None \<or> sl_inside s i = Some v)"

inductive wait_step :: "sleepers \<Rightarrow> sleepers \<Rightarrow> bool" where
  completes: "awake s i v \<Longrightarrow> handleSharedBufferIo (sl_machines s ! i) (sl_buffer s) v = Done (ok, c', b', v') \<Longrightarrow>
     wait_step s \<lparr>sl_machines = (sl_machines s)[i := c'], sl_buffer = b', sl_inside = (sl_inside s)(i := None)\<rparr>"
| sleeps: "awake s i v \<Longrightarrow> handleSharedBufferIo (sl_machines s ! i) (sl_buffer s) v = Blocked \<Longrightarrow>
     wait_step s (s\<lparr>sl_buffer := (sl_buffer s)\<lparr>condition := insert i (condition (sl_buffer s))\<rparr>, sl_inside := (sl_inside s)(i \<mapsto> v)\<rparr>)"
| spurious: "wait_step s (s\<lparr>sl_buffer := (sl_buffer s)\<lparr>condition := condition (sl_buffer s) - {i}\<rparr>\<rparr>)"
| aborts: "wait_step s (s\<lparr>sl_buffer := abortSharedBuffer (sl_buffer s)\<rparr>)"

inductive_cases wait_stepE: "wait_step s s'"

text \<open>Whoever sleeps is inside an access that must wait.\<close>

definition sleepers_wait :: "sleepers \<Rightarrow> bool" where
  "sleepers_wait s \<longleftrightarrow> (\<forall>i\<in>condition (sl_buffer s). i < length (sl_machines s) \<and>
     (\<exists>v. sl_inside s i = Some v \<and> handleSharedBufferIo (sl_machines s ! i) (sl_buffer s) v = Blocked))"

lemma sleepers_wait_step:
  assumes "wait_step s s'" and inv: "sleepers_wait s"
  shows "sleepers_wait s'"
  using assms(1)
proof cases
  case (completes i v ok c' b' v')
  have i: "i \<notin> condition (sl_buffer s)" using completes(2) by (simp add: awake_def)
  from access_wakes [OF completes(3)] show ?thesis
  proof (elim disjE conjE)
    assume "condition b' = condition (sl_buffer s)"
      and stay: "\<forall>d u. handleSharedBufferIo d (sl_buffer s) u = Blocked \<longrightarrow> handleSharedBufferIo d b' u = Blocked"
    then show ?thesis using inv i by (fastforce simp: sleepers_wait_def completes(1))
  qed (simp add: sleepers_wait_def completes(1))
next
  case (sleeps i v)
  then show ?thesis using inv by (auto simp: sleepers_wait_def awake_def)
next
  case (spurious i)
  then show ?thesis using inv by (auto simp: sleepers_wait_def)
next
  case aborts
  then show ?thesis by (simp add: sleepers_wait_def abortSharedBuffer_def)
qed

lemma sleepers_wait_run: "wait_step\<^sup>*\<^sup>* s s' \<Longrightarrow> sleepers_wait s \<Longrightarrow> sleepers_wait s'"
  by (induction rule: rtranclp_induct) (auto intro: sleepers_wait_step)

text \<open>A stopped transfer stays stopped, and nothing waits for it.\<close>

lemma stopped_never_blocks: "stopped b \<Longrightarrow> handleSharedBufferIo c b v \<noteq> Blocked"
  by (simp add: handle_blocked must_wait_def)

lemma stopped_access:
  assumes "handleSharedBufferIo c b v = Done (ok, c', b', v')" and "stopped b"
  shows "stopped b'"
proof -
  have "sharedBufferIo g b i m data = Done (ok, g', b', m') \<Longrightarrow> stopped b'" for g i m data g' m'
    using assms(2) sharedBufferIo_stopped [of b g i m data]
    by (cases "modeDelivered g") (auto simp: sharedBufferIo_def deliverMode_def Let_def split: if_splits)
  then show ?thesis
    using assms by (auto simp: handleSharedBufferIo_def Let_def split: if_splits option.splits outcome.splits prod.splits)
qed

lemma stopped_run: "wait_step\<^sup>*\<^sup>* s s' \<Longrightarrow> stopped (sl_buffer s) \<Longrightarrow> stopped (sl_buffer s')"
  by (induction rule: rtranclp_induct)
    (auto elim!: wait_stepE dest: stopped_access simp: abortSharedBuffer_def)

subsection \<open>Properties\<close>

text \<open>
  C25. No wake-up is lost: from a start at which nobody sleeps, whatever accesses the machines
  make (disciplined or not), in whatever order their threads fall asleep, wake up and go on,
  and whether or not the transfer is aborted, a thread that sleeps on the condition variable
  is inside an access whose predicate is still false. So a thread whose access could go on is
  awake.
\<close>

theorem no_wakeup_lost:
  assumes "wait_step\<^sup>*\<^sup>* s0 s" and "condition (sl_buffer s0) = {}" and "i \<in> condition (sl_buffer s)"
  shows "i < length (sl_machines s) \<and>
    (\<exists>v. sl_inside s i = Some v \<and> handleSharedBufferIo (sl_machines s ! i) (sl_buffer s) v = Blocked)"
proof -
  have "sleepers_wait s0" using assms(2) by (simp add: sleepers_wait_def)
  from sleepers_wait_run [OF assms(1) this] show ?thesis using assms(3) by (simp add: sleepers_wait_def)
qed

definition begin_read_exit :: vm where
  "begin_read_exit = (blank_vm 64)\<lparr>run := zero_run\<lparr>exit_reason := KVM_EXIT_IO,
     io := \<lparr>io_direction = KVM_EXIT_IO_IN, io_size = 4, io_port = SHARED_BUFFER_PORT, io_count = 1, io_data_offset = 1024\<rparr>\<rparr>\<rparr>"

definition one_reader :: sleepers where
  "one_reader = \<lparr>sl_machines = [served_reader], sl_buffer = initial_SharedBufferState, sl_inside = (\<lambda>_. None)\<rparr>"

lemma one_reader_sleeps:
  obtains s where "wait_step one_reader s" "condition (sl_buffer s) = {0}" "sl_machines s = [served_reader]"
    "sl_inside s 0 = Some begin_read_exit" "\<not> stopped (sl_buffer s)"
proof -
  have "getIoData begin_read_exit = Some 1024"
    by (simp add: getIoData_def begin_read_exit_def blank_vm_def data_in_mapping_iff mapping_size_def)
  then have "handleSharedBufferIo served_reader initial_SharedBufferState begin_read_exit = Blocked"
    by (simp add: handle_blocked) (simp add: begin_read_exit_def must_wait_def served_reader_def initial_GuestContext_def
        initial_SharedBufferVmState_def initial_SharedBufferState_def shared_buffer_consts)
  then have "wait_step one_reader (one_reader\<lparr>sl_buffer := (sl_buffer one_reader)\<lparr>condition := insert 0 (condition (sl_buffer one_reader))\<rparr>,
      sl_inside := (sl_inside one_reader)(0 \<mapsto> begin_read_exit)\<rparr>)"
    by (intro wait_step.sleeps) (simp_all add: awake_def one_reader_def initial_SharedBufferState_def)
  then show thesis by (rule that) (simp_all add: one_reader_def initial_SharedBufferState_def)
qed

theorem no_wakeup_lost_witness:
  "\<exists>s. wait_step one_reader s \<and> condition (sl_buffer s) = {0} \<and>
     handleSharedBufferIo served_reader (sl_buffer s) begin_read_exit = Blocked"
proof -
  obtain s where s: "wait_step one_reader s" "condition (sl_buffer s) = {0}" "sl_machines s = [served_reader]"
      "sl_inside s 0 = Some begin_read_exit" "\<not> stopped (sl_buffer s)" by (rule one_reader_sleeps)
  have "condition (sl_buffer one_reader) = {}" by (simp add: one_reader_def initial_SharedBufferState_def)
  from no_wakeup_lost [OF r_into_rtranclp [of wait_step, OF s(1)] this, of 0] show ?thesis using s by auto
qed

text \<open>
  C26. A guest that fails releases the others: whoever sleeps on the buffer when \<open>runGuest\<close> ends
  without success is awake after it and its access completes at once, and from then on, whatever
  the machines do, no thread sleeps on the buffer and no access to it blocks.
\<close>

theorem failed_guest_releases_others:
  assumes "wait_step\<^sup>*\<^sup>* s0 s" and "condition (sl_buffer s0) = {}" and "buffer_state (w_shared w) = sl_buffer s"
    and "wait_step\<^sup>*\<^sup>* (s\<lparr>sl_buffer := buffer_state (w_shared (snd (finish_guest False c w)))\<rparr>) s'"
  shows "condition (buffer_state (w_shared (snd (finish_guest False c w)))) = {} \<and>
    condition (sl_buffer s') = {} \<and> (\<forall>d v. handleSharedBufferIo d (sl_buffer s') v \<noteq> Blocked)"
proof -
  let ?b = "buffer_state (w_shared (snd (finish_guest False c w)))"
  have b: "?b = abortSharedBuffer (sl_buffer s)"
    by (simp add: finish_guest_def Let_def set_buffer_def assms(3) case_prod_beta)
  have stop: "stopped (sl_buffer s')" by (rule stopped_run [OF assms(4)]) (simp add: b abortSharedBuffer_def)
  have "wait_step\<^sup>*\<^sup>* s (s\<lparr>sl_buffer := ?b\<rparr>)" unfolding b by (intro r_into_rtranclp wait_step.aborts)
  then have "wait_step\<^sup>*\<^sup>* s0 s'" using assms(1,4) by (meson rtranclp_trans)
  moreover have "sleepers_wait s0" using assms(2) by (simp add: sleepers_wait_def)
  ultimately have "sleepers_wait s'" using sleepers_wait_run by blast
  then have "condition (sl_buffer s') = {}" using stopped_never_blocks [OF stop] by (auto simp: sleepers_wait_def)
  then show ?thesis using stopped_never_blocks [OF stop] by (simp add: b abortSharedBuffer_def)
qed

theorem failed_guest_releases_others_witness:
  "\<exists>s b'. wait_step one_reader s \<and> condition (sl_buffer s) = {0} \<and>
     b' = buffer_state (w_shared (snd (finish_guest False initial_GuestContext (set_buffer quiet_world (sl_buffer s))))) \<and>
     condition b' = {} \<and> handleSharedBufferIo served_reader b' begin_read_exit \<noteq> Blocked"
proof -
  obtain s where s: "wait_step one_reader s" "condition (sl_buffer s) = {0}" by (rule one_reader_sleeps)
  have none: "condition (sl_buffer one_reader) = {}" by (simp add: one_reader_def initial_SharedBufferState_def)
  have w: "buffer_state (w_shared (set_buffer quiet_world (sl_buffer s))) = sl_buffer s" by (simp add: set_buffer_def)
  from failed_guest_releases_others [OF r_into_rtranclp [of wait_step, OF s(1)] none w rtranclp.rtrancl_refl, of initial_GuestContext]
  show ?thesis using s by auto
qed

end
