(* ===== verification/File_Names.thy ===== *)
theory File_Names
  imports File_Io
begin

text \<open>
  The names a guest may use (\<^verbatim>\<open>isValidGuestFileName\<close> in \<^verbatim>\<open>host/src/file_io.cpp\<close>), against the
  letters and digits written out, and where the paths built from them lead.
\<close>










end
