(* ===== verification/Spec2Isabelle.thy ===== *)
theory Spec2Isabelle
  imports Long_Mode Fleet_Run Hypervisor_Types Hypervisor_Rounds Shared_Waiting File_Names
begin

text \<open>
  A small hypervisor on Linux's KVM: one process runs several virtual machines, each in a thread
  of its own, and serves their port accesses. A machine has a serial port (0xE9), a file port
  (0x0278) and two ports of a buffer shared by all machines (0x0510, 0x0520), over which the
  first machine, the writer, broadcasts up to 256 bytes to all others, the readers. Files
  are private to a machine, except those named on the command line, which all machines may read
  and which become private to a machine that writes to them. This library models the host
  program and the guest program in \<^verbatim>\<open>src/guest\<close>, and proves what they promise.

  \<^bold>\<open>The parts and where they are modelled.\<close> Definitions have the names of the functions and types
  they translate; a name that would clash has a prefix (\<open>guest_open\<close>, \<open>cpu_outb\<close>).

  \<^item> \<open>Hv_Prelude\<close>, \<open>Guest_Memory\<close>: machine integers, little-endian bytes, memory regions. A region
    is a function from offset to byte. The locale \<open>word_memory\<close> states what a word access does
    to the others and is interpreted for 32 and 64 bits.
  \<^item> \<open>Kvm_Vm\<close>, \<open>Long_Mode\<close>: \<^verbatim>\<open>host/src/vm.c\<close>. The answers of the kernel are parameters; acquired and
    released descriptors, mappings and streams are values, and a machine records the interrupt
    vectors injected into it. \<open>walk\<close> is the processor's address translation
    (AMD64 manual), against which the page tables are proved to be the identity.
  \<^item> \<open>Hv_State\<close>: the structures of the host's headers. \<open>File_Protocol\<close>: \<^verbatim>\<open>common/file_protocol.h\<close>
    and the layout of a request in memory.
  \<^item> \<open>Host_Files\<close>: POSIX file calls and \<^verbatim>\<open>std::filesystem\<close> as functions on a host state with a
    fault script; every call may fail or move fewer bytes. Theorems quantify over the script.
  \<^item> \<open>File_Io\<close>: \<^verbatim>\<open>host/src/file_io.cpp\<close>, operation by operation, error branches and clean-up
    included. \<open>Host_Frame\<close>, \<open>File_Isolation\<close>, \<open>File_Service\<close>: an ownership invariant for descriptors
    and inodes which every call keeps; isolation of the machines, safety of the shared
    originals and the descriptor account follow for any sequence of accesses. \<open>File_Types\<close>: the
    type of a machine's table of open files, kept by every operation. \<open>File_Content\<close>, \<open>File_Open\<close>:
    what the operations do to contents and offsets when no host call fails, and what a rejected
    request leaves alone. \<open>File_Names\<close>: which names a guest may use, and where their paths lead.
  \<^item> \<open>File_Spec\<close>: an ordinary file system for one machine, without host, shared files or copies.
    \<open>File_Views\<close>: \<open>file_view\<close> maps a machine's context and the host to that file system, and every
    operation commutes with it. \<open>File_Refinement\<close>: the service of all machines refines one such
    file system per machine; the locale \<open>simulation\<close> carries this from steps to runs.
  \<^item> \<open>Shared_Buffer\<close>: \<^verbatim>\<open>host/src/shared_buffer.cpp\<close>; one critical section is one step, an access
    that must wait has the outcome \<open>Blocked\<close>, and \<open>notify_all\<close> empties the set of threads that sleep
    on the condition variable. \<open>Shared_Waiting\<close>: threads that fall asleep in an access, are woken and
    look again; none sleeps whose predicate holds, and a failed guest wakes all for good. This
    is why the other theories may try a blocked access again at any time. \<open>Shared_Rounds\<close>: the
    accesses of the machines in any interleaving as the relation \<open>disciplined_step\<close>, in which no
    reader acknowledges before it has begun a round, and its invariant. \<open>Broadcast\<close>: the guests'
    port sequences over it, with the theorems on rounds.
  \<^item> \<open>Vm_Runner\<close>: \<^verbatim>\<open>host/src/vm_runner.cpp\<close>: set-up of a machine, one pass of the run loop per
    event from KVM, serial output, clean-up. The locale \<open>io_device\<close> is what every port promises to
    the thread; it is interpreted for the three ports and their dispatch.
  \<^item> \<open>Cli\<close>: \<^verbatim>\<open>host/src/cli.cpp\<close>; \<open>documented\<close> command lines are an independent description.
    \<open>Host_Main\<close>, \<open>Hypervisor\<close>: \<^verbatim>\<open>host/src/main.cpp\<close> and the process: threads as a step relation
    over all machines' contexts and the world they share. \<open>Hypervisor_Files\<close>, \<open>Hypervisor_Views\<close>,
    \<open>Hypervisor_Types\<close>, \<open>Hypervisor_Outcome\<close>, \<open>Hypervisor_Rounds\<close>: its theorems; \<open>Hypervisor_Views\<close>
    follows a run with the accesses each machine makes and the answers it gets, which are those
    of a file system of \<open>File_Spec\<close> that runs the machine's own accesses; \<open>Hypervisor_Rounds\<close>
    shows that a process with disciplined guests refines the relation of \<open>Shared_Rounds\<close>, and what
    holds of the buffer with any guests. \<open>Solo_Run\<close> is one complete run, for witnesses.
  \<^item> \<open>Guest_Library\<close>, \<open>Guest_Program\<close>, \<open>Guest_Transfer\<close>, \<open>Guest_Main\<close>: \<^verbatim>\<open>guest/inc/io.h\<close>,
    \<^verbatim>\<open>guest/src/file.c\<close>, \<^verbatim>\<open>guest/src/main.c\<close>, \<^verbatim>\<open>guest/src/interrupts.c\<close>. A port instruction is an exit served by
    \<open>port_device\<close>, so a guest function runs through the whole host. \<open>linked\<close> relates a guest to a
    state of \<open>Shared_Rounds\<close>, and an access that succeeds there succeeds in the guest with the same
    effect.
  \<^item> \<open>Guest_Start\<close>: \<^verbatim>\<open>_start\<close>, with the checks the processor makes on the tables and segment
    registers (AMD64 manual), and the whole guest program as the step relation \<open>program_step\<close>. The
    start-up code is a list of instructions (\<open>start_code\<close>), executed one at a time, the file test and
    \<^verbatim>\<open>sti\<close> among them. Every other
    step is the program's run up to its next access that may wait for other machines: the mode interrupt, the writer's sending, the end of its
    handler, a reader's handler, the end of the program. Interrupts come in the waiting loop,
    and the host has two of them for each machine.
  \<^item> \<open>Fleet\<close>, \<open>Fleet_Run\<close>: the guest programs of all machines over one host, one shared buffer and one
    console, their steps in any order. \<open>Guest_Views\<close>, \<open>Guest_Sharing\<close> say what each step does to
    the files its machine sees (\<open>File_Spec\<close>), \<open>Guest_Moves\<close> what it leaves alone of the others,
    \<open>Fleet_Rounds\<close> where the round protocol is when every machine has reached some \<open>stage\<close>. The
    invariant \<open>fleet_at\<close> puts them together, and \<open>work_left\<close> bounds the steps.

  \<^bold>\<open>How the parts meet.\<close> \<open>run_event\<close> hands an exit to \<open>port_device\<close>; the port decides between the
  file handler, the shared buffer and the serial port. A thread's context is its own; the host's
  files, the console and the shared buffer are the \<open>world\<close>. A thread that ends without success
  aborts the shared buffer (\<open>finish_guest\<close>), so that no other thread waits for it.

  \<^bold>\<open>What the theorems show.\<close> The round protocol: a writer completes only after every reader has
  the bytes, and writers and readers that follow the guest's code always complete; both need
  that no reader acknowledges before it has begun a round, which the host does not check. No
  thread sleeps that could go on, whatever the guests do. The files:
  nothing a guest does and no failing call damages a shared original, another machine's files
  or the descriptor table, and open files stay well typed; when no call fails each machine has,
  as far as it can tell, a file system of its own. The machine: an identity map, memory-safe
  ports, no leaked resource on any path. The process: exit code, termination of \<^verbatim>\<open>main\<close>, and the
  refinement. The guest: a library call returns what the host computed; the file test, the
  writer's and the reader's handlers do end to end what they are for. All together: guests that
  run the guest program never get stuck, end with their transfer successful, and the file
  the writer broadcasts is in the end the one every reader sees, in every schedule.

  \<^bold>\<open>Bounds.\<close> The shared buffer's generation is 64 bits wide and theorems on rounds assume that it
  has not reached its maximum. Guest descriptors are counted in 32 bits: where a theorem needs
  a fresh descriptor it assumes that fewer than \<open>2 ^ 31\<close> have been opened. The exit's data lie at
  offset 1024 of the run area in the guests' port instructions, as KVM places them; the
  handlers are modelled for any offset. Loops recurse structurally or with a measure; only
  \<open>print_string\<close>, which stops at a zero byte, is a partial function, and its results are proved to be
  \<open>Some\<close>. There is no fuel.

  \<^bold>\<open>Not modelled.\<close> The texts that \<^verbatim>\<open>vm.c\<close> prints with \<^verbatim>\<open>perror\<close>, and the result of \<^verbatim>\<open>fclose\<close>. Where the
  linker and the compiler put the guest's tables, literals and local variables: their addresses
  are arguments (\<open>program_layout\<close>), and \<open>image_ready\<close> is what a theorem needs of them. An interrupt
  that arrives in the waiting loop's few instructions saves and restores the registers, which
  hold nothing there. In the theorems on the process the instructions of a guest between two
  exits are not fixed: it may be given any memory and any exit. The theorems on the fleet are
  about hosts whose calls do not fail, and do not model the threads that serve the exits.
  Threads meet in critical sections, so a data race outside them would not show. The answers of
  \<^verbatim>\<open>canonical\<close>, \<^verbatim>\<open>is_regular_file\<close>, \<^verbatim>\<open>strerror\<close>, the thread calls and the kernel are parameters. A
  shared file that lies inside a machine's own directory is excluded where the theorems say so
  (\<open>host_prepared\<close>, \<open>host_quiet\<close>). The test guests under \<^verbatim>\<open>src/tests\<close> are no part of the hypervisor.
\<close>

end
